(* ===== verification/Prelude.thy ===== *)
theory Prelude
  imports Main "HOL-Library.Word"
begin

text \<open>
  Shared vocabulary of the development: the machine types of the sources (\<open>u64\<close> for
  \<open>uint64_t\<close>, \<open>size_t\<close> and nanosecond times, \<open>u32\<close> for \<open>uint32_t\<close>), C++ exceptions as
  values, results as sums (\<open>Inl\<close> the exception), the size of a container as a \<open>size_t\<close>, the
  generic facts on words and lists that the component proofs share, and two interfaces used by
  several components: a transition system with an invariant, and the reject-new bounded FIFO.
\<close>

section \<open>Machine types, exceptions, results\<close>

type_synonym u64 = "64 word"
type_synonym u32 = "32 word"

text \<open>
  The exceptions the sources construct, by class and message. \<open>Foreign_exception\<close> stands for
  whatever is thrown by code the sources only call (user callbacks, observers, extractors).
\<close>

datatype exn =
    Invalid_argument string
  | Runtime_error string
  | System_error int string
  | Foreign_exception nat

type_synonym 'a res = "exn + 'a"

text \<open>\<open>size()\<close> of a \<open>std::vector\<close> or \<open>std::deque\<close>: a \<open>size_t\<close>.\<close>

definition vsize :: "'a list \<Rightarrow> u64" where
  "vsize xs = of_nat (length xs)"

section \<open>Collections of facts\<close>

named_theorems word_nat \<open>comparisons and arithmetic of words read as natural numbers\<close>
named_theorems op_defs \<open>definitions of the operations of the components\<close>

section \<open>Words\<close>

lemma unat_u64_less [simp]: "unat (x :: u64) < 18446744073709551616"
  using unsigned_less [of x] by simp

lemma unat_of_nat_u64: "n < 18446744073709551616 \<Longrightarrow> unat (of_nat n :: u64) = n"
  by (simp add: unat_of_nat take_bit_eq_mod)

lemma vsize_eq_iff:
  assumes "length xs \<le> unat (c :: u64)"
  shows "vsize xs = c \<longleftrightarrow> length xs = unat c"
proof -
  have "length xs < 18446744073709551616"
    using assms unat_u64_less [of c] by linarith
  then have "unat (vsize xs) = length xs"
    by (simp add: vsize_def unat_of_nat_u64)
  then show ?thesis
    by (auto simp: word_unat_eq_iff)
qed

lemma vsize_less_iff:
  assumes "length xs \<le> unat (c :: u64)"
  shows "vsize xs < c \<longleftrightarrow> length xs < unat c"
proof -
  have "length xs < 18446744073709551616"
    using assms unat_u64_less [of c] by linarith
  then have "unat (vsize xs) = length xs"
    by (simp add: vsize_def unat_of_nat_u64)
  then show ?thesis
    by (simp add: word_less_nat_alt)
qed

lemma vsize_Nil [simp]: "vsize [] = 0"
  by (simp add: vsize_def)

lemma vsize_Cons [simp]: "vsize (x # xs) = 1 + vsize xs"
  by (simp add: vsize_def)

lemma vsize_append [simp]: "vsize (xs @ ys) = vsize xs + vsize ys"
  by (simp add: vsize_def)

lemma unat_sub_u64 [word_nat]: "(b :: u64) \<le> a \<Longrightarrow> unat (a - b) = unat a - unat b"
  by (rule unat_sub)

lemma u64_le_nat [word_nat]: "(a :: u64) \<le> b \<longleftrightarrow> unat a \<le> unat b"
  by (rule word_le_nat_alt)

lemma u64_less_nat [word_nat]: "(a :: u64) < b \<longleftrightarrow> unat a < unat b"
  by (rule word_less_nat_alt)

lemma unat_add_u64:
  "unat (a :: u64) + unat b < 18446744073709551616 \<Longrightarrow> unat (a + b) = unat a + unat b"
  by (simp add: unat_word_ariths)

lemma unat_Suc_u64: "(i :: u64) < n \<Longrightarrow> unat (i + 1) = unat i + 1"
  using unat_add_u64 [of i 1] unat_u64_less [of n] by (simp add: word_less_nat_alt)

section \<open>Lists\<close>

lemma filter_by_mono:
  assumes "\<forall>x \<in> set xs. P x" and "\<forall>x \<in> set ys. \<not> P x"
  shows "filter P xs = xs" and "filter P ys = []"
  using assms by (simp_all add: filter_empty_conv)

lemma length_filter_partition:
  "length (filter P xs) + length (filter (\<lambda>x. \<not> P x) xs) = length xs"
  by (induction xs) auto

section \<open>Options\<close>

text \<open>An evaluated step that was possible.\<close>

lemma the_some: "\<not> Option.is_none x \<Longrightarrow> x = Some (the x)"
  by (cases x) simp_all

section \<open>Transition systems with an invariant\<close>

text \<open>
  Every stateful component is a set of initial states and a step relation. \<open>reach\<close> is the least
  set of states closed under steps; a component supplies an invariant that holds initially and is
  kept by each step, and obtains it for all reachable states.
\<close>

inductive reach :: "('s \<Rightarrow> bool) \<Rightarrow> ('s \<Rightarrow> 's \<Rightarrow> bool) \<Rightarrow> 's \<Rightarrow> bool"
  for init :: "'s \<Rightarrow> bool" and step :: "'s \<Rightarrow> 's \<Rightarrow> bool" where
  reach_init [intro]: "init s \<Longrightarrow> reach init step s"
| reach_step: "reach init step s \<Longrightarrow> step s t \<Longrightarrow> reach init step t"

locale invariant_system =
  fixes init :: "'s \<Rightarrow> bool" and step :: "'s \<Rightarrow> 's \<Rightarrow> bool" and invar :: "'s \<Rightarrow> bool"
  assumes invar_init: "init s \<Longrightarrow> invar s"
    and invar_step: "invar s \<Longrightarrow> step s t \<Longrightarrow> invar t"
begin

lemma reach_invar: "reach init step s \<Longrightarrow> invar s"
  by (induction rule: reach.induct) (blast intro: invar_init invar_step)+

lemma reach_consequence:
  assumes "\<And>s. invar s \<Longrightarrow> Q s" and "reach init step s"
  shows "Q s"
  using assms reach_invar by blast

lemma reach_step_property:
  assumes "\<And>s t. invar s \<Longrightarrow> step s t \<Longrightarrow> R s t" and "reach init step s" and "step s t"
  shows "R s t"
  using assms reach_invar by blast

end

section \<open>Reject-new bounded FIFO\<close>

text \<open>
  The contract of the measurement inboxes and of the worker queues: \<open>put\<close> offers an element and
  answers whether it was accepted (or throws), \<open>get\<close> is any other operation and says which elements
  it removed. \<open>mine\<close> selects the offers addressed to this queue, \<open>payload\<close> is the element stored.
  \<open>fifo_run\<close> performs a sequence of operations and collects the elements accepted and the elements
  removed, in order.
\<close>

fun fifo_run ::
  "('b \<Rightarrow> 's \<Rightarrow> bool res \<times> 's) \<Rightarrow> ('c \<Rightarrow> 's \<Rightarrow> 'a list \<times> 's) \<Rightarrow> ('b \<Rightarrow> bool) \<Rightarrow> ('b \<Rightarrow> 'a) \<Rightarrow>
   ('b + 'c) list \<Rightarrow> 's \<Rightarrow> 'a list \<times> 'a list \<times> 's" where
  "fifo_run put get mine payload [] s = ([], [], s)"
| "fifo_run put get mine payload (Inl x # ops) s =
     (let (r, t) = put x s; (acc, out, u) = fifo_run put get mine payload ops t
      in (if mine x \<and> r = Inr True then payload x # acc else acc, out, u))"
| "fifo_run put get mine payload (Inr c # ops) s =
     (let (xs, t) = get c s; (acc, out, u) = fifo_run put get mine payload ops t
      in (acc, xs @ out, u))"

locale reject_new_fifo =
  fixes put :: "'b \<Rightarrow> 's \<Rightarrow> bool res \<times> 's"
    and get :: "'c \<Rightarrow> 's \<Rightarrow> 'a list \<times> 's"
    and mine :: "'b \<Rightarrow> bool"
    and payload :: "'b \<Rightarrow> 'a"
    and items :: "'s \<Rightarrow> 'a list"
    and cap :: "'s \<Rightarrow> nat"
    and invar :: "'s \<Rightarrow> bool"
  assumes put_accept: "invar s \<Longrightarrow> mine x \<Longrightarrow> put x s = (Inr True, t) \<Longrightarrow>
            items t = items s @ [payload x] \<and> length (items s) < cap s"
    and put_reject: "invar s \<Longrightarrow> mine x \<Longrightarrow> put x s = (Inr False, t) \<Longrightarrow>
            items t = items s \<and> length (items s) = cap s"
    and put_throw: "invar s \<Longrightarrow> put x s = (Inl e, t) \<Longrightarrow> items t = items s"
    and put_other: "invar s \<Longrightarrow> \<not> mine x \<Longrightarrow> put x s = (r, t) \<Longrightarrow> items t = items s"
    and get_prefix: "invar s \<Longrightarrow> get c s = (xs, t) \<Longrightarrow> items s = xs @ items t"
    and cap_put: "invar s \<Longrightarrow> put x s = (r, t) \<Longrightarrow> cap t = cap s"
    and cap_get: "invar s \<Longrightarrow> get c s = (xs, t) \<Longrightarrow> cap t = cap s"
    and invar_put: "invar s \<Longrightarrow> put x s = (r, t) \<Longrightarrow> invar t"
    and invar_get: "invar s \<Longrightarrow> get c s = (xs, t) \<Longrightarrow> invar t"
    and bounded: "invar s \<Longrightarrow> length (items s) \<le> cap s"
begin

lemma put_items:
  assumes "invar s" and "put x s = (r, t)"
  shows "items t = items s @ (if mine x \<and> r = Inr True then [payload x] else [])"
proof (cases "mine x")
  case True
  show ?thesis
  proof (cases r)
    case (Inl e)
    with assms put_throw show ?thesis by fastforce
  next
    case (Inr b)
    with True assms put_accept put_reject show ?thesis by (cases b) fastforce+
  qed
next
  case False
  with assms put_other show ?thesis by fastforce
qed

text \<open>Nothing accepted is lost, duplicated or reordered.\<close>

lemma fifo_history:
  "invar s \<Longrightarrow> fifo_run put get mine payload ops s = (acc, out, t) \<Longrightarrow>
   items s @ acc = out @ items t \<and> invar t \<and> cap t = cap s"
proof (induction ops arbitrary: s acc out t)
  case Nil
  then show ?case by simp
next
  case (Cons op ops)
  show ?case
  proof (cases op)
    case (Inl x)
    obtain r s1 where p: "put x s = (r, s1)" by fastforce
    obtain acc1 out1 t1 where f: "fifo_run put get mine payload ops s1 = (acc1, out1, t1)"
      by (metis prod_cases3)
    have "items s1 @ acc1 = out1 @ items t1 \<and> invar t1 \<and> cap t1 = cap s1"
      using Cons.IH f invar_put [OF Cons.prems(1) p] by simp
    with Inl Cons.prems p f put_items [OF Cons.prems(1) p] cap_put [OF Cons.prems(1) p] show ?thesis
      by (auto split: if_splits)
  next
    case (Inr c)
    obtain xs s1 where g: "get c s = (xs, s1)" by fastforce
    obtain acc1 out1 t1 where f: "fifo_run put get mine payload ops s1 = (acc1, out1, t1)"
      by (metis prod_cases3)
    have "items s1 @ acc1 = out1 @ items t1 \<and> invar t1 \<and> cap t1 = cap s1"
      using Cons.IH f invar_get [OF Cons.prems(1) g] by simp
    with Inr Cons.prems g f get_prefix [OF Cons.prems(1) g] cap_get [OF Cons.prems(1) g] show ?thesis
      by auto
  qed
qed

lemma fifo_run_bounded:
  "invar s \<Longrightarrow> fifo_run put get mine payload ops s = (acc, out, t) \<Longrightarrow> length (items t) \<le> cap s"
  using fifo_history bounded by metis

end

end
