(* ===== verification/Dependent_Graph.thy ===== *)
theory Dependent_Graph
  imports Prelude
begin

text \<open>
  The measurement graph of the dependent workload, \<^verbatim>\<open>src/demo/dependent_graph.h\<close>: two bounded
  inboxes (IMU and camera) that reject new input when full, a single running estimator batch, the
  latest completed snapshot and the control tick that reads it. Every operation takes the graph
  and returns its result, or the exception it throws, with the graph as it is then: a partial
  update before a throw would be visible.
\<close>

section \<open>Data\<close>

text \<open>
  \<open>enum class Stream\<close> has two enumerators; a value outside them can be made by a cast, and the
  source tests for it, so the model has it too.
\<close>

datatype stream = Stream_imu | Stream_camera | Stream_other int

record measurement =
  m_stream :: stream
  m_sequence :: u64
  m_source_time :: u64

record counts =
  c_offered :: u64
  c_dropped :: u64
  c_consumed :: u64

record batch =
  b_id :: u64
  b_inputs :: "measurement list"

record snapshot =
  s_batch_id :: u64
  s_completed :: u64
  s_imu :: "measurement option"
  s_camera :: "measurement option"

datatype outcome = Usable | Stale | Missing

record control_result =
  k_tick :: u64
  k_setpoint :: u64
  k_release :: u64
  k_outcome :: outcome
  k_snapshot :: "snapshot option"

text \<open>The arrays of two elements are functions of the index.\<close>

record graph =
  g_capacity :: u64
  g_limit :: u64
  g_inbox :: "nat \<Rightarrow> measurement list"
  g_accounting :: "nat \<Rightarrow> counts"
  g_last_sequence :: "nat \<Rightarrow> u64 option"
  g_running :: "batch option"
  g_latest :: "snapshot option"
  g_next_batch :: u64
  g_next_tick :: u64
  g_clock_time :: u64

section \<open>Operations\<close>

definition counts_zero :: counts where
  "counts_zero = \<lparr>c_offered = 0, c_dropped = 0, c_consumed = 0\<rparr>"

definition snapshot_zero :: snapshot where
  "snapshot_zero = \<lparr>s_batch_id = 0, s_completed = 0, s_imu = None, s_camera = None\<rparr>"

definition Graph :: "u64 \<Rightarrow> u64 \<Rightarrow> graph res" where
  "Graph capacity batch_limit =
     (if capacity = 0 \<or> batch_limit = 0
      then Inl (Invalid_argument ''zero queue/batch limit'')
      else Inr \<lparr>g_capacity = capacity, g_limit = batch_limit, g_inbox = (\<lambda>_. []),
                g_accounting = (\<lambda>_. counts_zero), g_last_sequence = (\<lambda>_. None),
                g_running = None, g_latest = None, g_next_batch = 1, g_next_tick = 1,
                g_clock_time = 0\<rparr>)"

definition advance :: "u64 \<Rightarrow> graph \<Rightarrow> unit res \<times> graph" where
  "advance t g =
     (if t < g_clock_time g then (Inl (Invalid_argument ''clock moved backwards''), g)
      else (Inr (), g\<lparr>g_clock_time := t\<rparr>))"

definition index :: "stream \<Rightarrow> nat res" where
  "index s =
     (if s \<noteq> Stream_imu \<and> s \<noteq> Stream_camera then Inl (Invalid_argument ''unknown stream'')
      else Inr (if s = Stream_imu then 0 else 1))"

definition offer :: "measurement \<Rightarrow> u64 \<Rightarrow> graph \<Rightarrow> bool res \<times> graph" where
  "offer m arrival g =
     (case index (m_stream m) of
        Inl e \<Rightarrow> (Inl e, g)
      | Inr i \<Rightarrow>
          if arrival < m_source_time m \<or>
             (case g_last_sequence g i of None \<Rightarrow> False | Some q \<Rightarrow> m_sequence m \<le> q)
          then (Inl (Invalid_argument ''invalid measurement identity/time''), g)
          else case advance arrival g of
              (Inl e, g1) \<Rightarrow> (Inl e, g1)
            | (Inr _, g1) \<Rightarrow>
                let acc = g_accounting g1 i;
                    acc1 = acc\<lparr>c_offered := c_offered acc + 1\<rparr>;
                    g2 = g1\<lparr>g_last_sequence := (g_last_sequence g1)(i := Some (m_sequence m)),
                            g_accounting := (g_accounting g1)(i := acc1)\<rparr>
                in if vsize (g_inbox g2 i) = g_capacity g2
                   then (Inr False, g2\<lparr>g_accounting := (g_accounting g2)
                            (i := acc1\<lparr>c_dropped := c_dropped acc1 + 1\<rparr>)\<rparr>)
                   else (Inr True, g2\<lparr>g_inbox := (g_inbox g2)(i := g_inbox g2 i @ [m])\<rparr>))"

text \<open>The \<open>while\<close> loop of \<open>select\<close>: \<open>b\<close> is \<open>b.inputs\<close>, \<open>q0\<close> and \<open>q1\<close> the two inboxes.\<close>

function select_loop ::
  "u64 \<Rightarrow> measurement list \<Rightarrow> measurement list \<Rightarrow> measurement list \<Rightarrow>
   measurement list \<times> measurement list \<times> measurement list" where
  "select_loop limit b q0 q1 =
     (if vsize b < limit \<and> (q0 \<noteq> [] \<or> q1 \<noteq> []) then
        let i = (if q0 = [] then 1 else 0 :: nat);
            i = (if q0 \<noteq> [] \<and> q1 \<noteq> [] \<and> m_source_time (hd q1) < m_source_time (hd q0)
                 then 1 else i)
        in if i = 0 then select_loop limit (b @ [hd q0]) (tl q0) q1
           else select_loop limit (b @ [hd q1]) q0 (tl q1)
      else (b, q0, q1))"
  by pat_completeness auto
termination
  by (relation "measure (\<lambda>(limit, b, q0, q1). length q0 + length q1)")
    (auto simp: Let_def neq_Nil_conv split: if_splits)

definition select :: "u64 \<Rightarrow> graph \<Rightarrow> batch option res \<times> graph" where
  "select t g =
     (case advance t g of
        (Inl e, g1) \<Rightarrow> (Inl e, g1)
      | (Inr _, g1) \<Rightarrow>
          if g_running g1 \<noteq> None then (Inr None, g1)
          else case select_loop (g_limit g1) [] (g_inbox g1 0) (g_inbox g1 1) of
            (inputs, q0, q1) \<Rightarrow>
              let g2 = g1\<lparr>g_inbox := (g_inbox g1)(0 := q0, 1 := q1)\<rparr>;
                  b = \<lparr>b_id = g_next_batch g1, b_inputs = inputs\<rparr>
              in if inputs = [] then (Inr None, g2)
                 else (Inr (Some b),
                       g2\<lparr>g_next_batch := g_next_batch g2 + 1, g_running := Some b\<rparr>))"

text \<open>The body of the loop of \<open>complete\<close> over the running batch's inputs.\<close>

definition retain :: "measurement option \<Rightarrow> measurement \<Rightarrow> measurement option" where
  "retain prev m =
     (case prev of
        None \<Rightarrow> Some m
      | Some l \<Rightarrow> if m_source_time l \<le> m_source_time m then Some m else prev)"

fun complete_loop ::
  "measurement list \<Rightarrow> graph \<Rightarrow> snapshot \<Rightarrow> unit res \<times> graph \<times> snapshot" where
  "complete_loop [] g s = (Inr (), g, s)"
| "complete_loop (m # ms) g s =
     (case index (m_stream m) of
        Inl e \<Rightarrow> (Inl e, g, s)
      | Inr i \<Rightarrow>
          complete_loop ms
            (g\<lparr>g_accounting := (g_accounting g)
                 (i := (g_accounting g i)\<lparr>c_consumed := c_consumed (g_accounting g i) + 1\<rparr>)\<rparr>)
            (if m_stream m = Stream_imu then s\<lparr>s_imu := retain (s_imu s) m\<rparr>
             else s\<lparr>s_camera := retain (s_camera s) m\<rparr>))"

definition complete :: "u64 \<Rightarrow> u64 \<Rightarrow> graph \<Rightarrow> snapshot res \<times> graph" where
  "complete bid t g =
     (case g_running g of
        None \<Rightarrow> (Inl (Invalid_argument ''wrong completion owner''), g)
      | Some run \<Rightarrow>
          if b_id run \<noteq> bid then (Inl (Invalid_argument ''wrong completion owner''), g)
          else case advance t g of
              (Inl e, g1) \<Rightarrow> (Inl e, g1)
            | (Inr _, g1) \<Rightarrow>
                let s = (case g_latest g1 of None \<Rightarrow> snapshot_zero | Some l \<Rightarrow> l);
                    s1 = s\<lparr>s_batch_id := bid, s_completed := t\<rparr>
                in case complete_loop (b_inputs run) g1 s1 of
                    (Inl e, g2, s2) \<Rightarrow> (Inl e, g2)
                  | (Inr _, g2, s2) \<Rightarrow>
                      (Inr s2, g2\<lparr>g_latest := Some s2, g_running := None\<rparr>))"

definition control :: "u64 \<Rightarrow> u64 \<Rightarrow> u64 \<Rightarrow> graph \<Rightarrow> control_result res \<times> graph" where
  "control t setpoint max_imu_age g =
     (case advance t g of
        (Inl e, g1) \<Rightarrow> (Inl e, g1)
      | (Inr _, g1) \<Rightarrow>
          let oc = (case g_latest g1 of
                      None \<Rightarrow> Missing
                    | Some l \<Rightarrow> (case s_imu l of
                        None \<Rightarrow> Missing
                      | Some m \<Rightarrow> if t - m_source_time m \<le> max_imu_age then Usable else Stale))
          in (Inr \<lparr>k_tick = g_next_tick g1, k_setpoint = setpoint, k_release = t,
                   k_outcome = oc, k_snapshot = g_latest g1\<rparr>,
              g1\<lparr>g_next_tick := g_next_tick g1 + 1\<rparr>))"

definition counts_of :: "graph \<Rightarrow> stream \<Rightarrow> counts res" where
  "counts_of g s = (case index s of Inl e \<Rightarrow> Inl e | Inr i \<Rightarrow> Inr (g_accounting g i))"

definition pending :: "graph \<Rightarrow> stream \<Rightarrow> u64 res" where
  "pending g s = (case index s of Inl e \<Rightarrow> Inl e | Inr i \<Rightarrow> Inr (vsize (g_inbox g i)))"

definition in_flight :: "graph \<Rightarrow> stream \<Rightarrow> u64" where
  "in_flight g s =
     (case g_running g of
        None \<Rightarrow> 0
      | Some b \<Rightarrow> vsize (filter (\<lambda>m. m_stream m = s) (b_inputs b)))"

section \<open>Clients\<close>

text \<open>The calls a client can make, in any order, and the graph after each.\<close>

datatype graph_op =
    Offer measurement u64
  | Select u64
  | Complete u64 u64
  | Control u64 u64 u64

fun graph_apply :: "graph_op \<Rightarrow> graph \<Rightarrow> graph" where
  "graph_apply (Offer m t) g = snd (offer m t g)"
| "graph_apply (Select t) g = snd (select t g)"
| "graph_apply (Complete bid t) g = snd (complete bid t g)"
| "graph_apply (Control t sp age) g = snd (control t sp age g)"

text \<open>Whether the call threw.\<close>

fun graph_throws :: "graph_op \<Rightarrow> graph \<Rightarrow> bool" where
  "graph_throws (Offer m t) g = (case fst (offer m t g) of Inl _ \<Rightarrow> True | Inr _ \<Rightarrow> False)"
| "graph_throws (Select t) g = (case fst (select t g) of Inl _ \<Rightarrow> True | Inr _ \<Rightarrow> False)"
| "graph_throws (Complete bid t) g = (case fst (complete bid t g) of Inl _ \<Rightarrow> True | Inr _ \<Rightarrow> False)"
| "graph_throws (Control t sp age) g = (case fst (control t sp age g) of Inl _ \<Rightarrow> True | Inr _ \<Rightarrow> False)"

definition graph_init :: "graph \<Rightarrow> bool" where
  "graph_init g \<longleftrightarrow> (\<exists>capacity limit. Graph capacity limit = Inr g)"

definition graph_step :: "graph \<Rightarrow> graph \<Rightarrow> bool" where
  "graph_step g h \<longleftrightarrow> (\<exists>c. h = graph_apply c g)"

abbreviation graph_reachable :: "graph \<Rightarrow> bool" where
  "graph_reachable \<equiv> reach graph_init graph_step"

section \<open>Reference: merging two inboxes by source time\<close>

text \<open>What a batch should be: the oldest heads first, the IMU inbox first on a tie.\<close>

fun merge_source :: "measurement list \<Rightarrow> measurement list \<Rightarrow> measurement list" where
  "merge_source [] ys = ys"
| "merge_source xs [] = xs"
| "merge_source (x # xs) (y # ys) =
     (if m_source_time y < m_source_time x then y # merge_source (x # xs) ys
      else x # merge_source xs (y # ys))"

section \<open>Invariant\<close>

text \<open>
  Each predicate is over the values it is about: the clock, the capacity, one stream's counters,
  its inbox and the running inputs; the running batch; the latest snapshot.
\<close>

definition stream_inv ::
  "u64 \<Rightarrow> u64 \<Rightarrow> counts \<Rightarrow> measurement list \<Rightarrow> measurement list \<Rightarrow> stream \<Rightarrow> bool" where
  "stream_inv clk capacity acc q run s \<longleftrightarrow>
     (\<forall>m \<in> set q. m_stream m = s \<and> m_source_time m \<le> clk) \<and> length q \<le> unat capacity \<and>
     c_offered acc = c_dropped acc + c_consumed acc + vsize q +
       vsize (filter (\<lambda>m. m_stream m = s) run)"

definition known :: "measurement \<Rightarrow> bool" where
  "known m \<longleftrightarrow> m_stream m = Stream_imu \<or> m_stream m = Stream_camera"

definition batch_inv :: "u64 \<Rightarrow> u64 \<Rightarrow> u64 \<Rightarrow> batch \<Rightarrow> bool" where
  "batch_inv clk limit nb b \<longleftrightarrow> b_inputs b \<noteq> [] \<and> length (b_inputs b) \<le> unat limit \<and>
     b_id b + 1 = nb \<and> (\<forall>m \<in> set (b_inputs b). known m \<and> m_source_time m \<le> clk)"

definition held_inv :: "u64 \<Rightarrow> stream \<Rightarrow> measurement option \<Rightarrow> bool" where
  "held_inv clk s p \<longleftrightarrow> (\<forall>m. p = Some m \<longrightarrow> m_stream m = s \<and> m_source_time m \<le> clk)"

definition snapshot_inv :: "u64 \<Rightarrow> snapshot \<Rightarrow> bool" where
  "snapshot_inv clk l \<longleftrightarrow> s_completed l \<le> clk \<and>
     held_inv clk Stream_imu (s_imu l) \<and> held_inv clk Stream_camera (s_camera l)"

definition running_inputs :: "batch option \<Rightarrow> measurement list" where
  "running_inputs r = (case r of None \<Rightarrow> [] | Some b \<Rightarrow> b_inputs b)"

definition graph_ok :: "graph \<Rightarrow> bool" where
  "graph_ok g \<longleftrightarrow> g_capacity g \<noteq> 0 \<and> g_limit g \<noteq> 0 \<and>
     stream_inv (g_clock_time g) (g_capacity g) (g_accounting g 0) (g_inbox g 0)
       (running_inputs (g_running g)) Stream_imu \<and>
     stream_inv (g_clock_time g) (g_capacity g) (g_accounting g 1) (g_inbox g 1)
       (running_inputs (g_running g)) Stream_camera \<and>
     pred_option (batch_inv (g_clock_time g) (g_limit g) (g_next_batch g)) (g_running g) \<and>
     pred_option (snapshot_inv (g_clock_time g)) (g_latest g)"

lemma running_inputs_simps [simp]:
  "running_inputs None = []" "running_inputs (Some b) = b_inputs b"
  by (simp_all add: running_inputs_def)

lemma stream_inv_later: "stream_inv clk c acc q run s \<Longrightarrow> clk \<le> t \<Longrightarrow> stream_inv t c acc q run s"
  by (auto simp: stream_inv_def intro: order_trans)

lemma stream_inv_accept:
  "stream_inv clk c acc q run s \<Longrightarrow> vsize q \<noteq> c \<Longrightarrow> m_stream m = s \<Longrightarrow> m_source_time m \<le> clk \<Longrightarrow>
   stream_inv clk c (acc\<lparr>c_offered := c_offered acc + 1\<rparr>) (q @ [m]) run s"
  by (auto simp: stream_inv_def vsize_eq_iff)

lemma stream_inv_reject:
  "stream_inv clk c acc q run s \<Longrightarrow>
   stream_inv clk c (acc\<lparr>c_offered := c_offered acc + 1, c_dropped := c_dropped acc + 1\<rparr>) q run s"
  by (auto simp: stream_inv_def)

lemma stream_inv_select:
  assumes "stream_inv clk c acc (filter (\<lambda>m. m_stream m = s) b @ q) [] s"
  shows "stream_inv clk c acc q b s"
proof -
  note inv = assms [unfolded stream_inv_def]
  have "\<forall>m \<in> set q. m_stream m = s \<and> m_source_time m \<le> clk" and "length q \<le> unat c"
    using inv by (auto simp only: set_append length_append)
  moreover have "c_offered acc = c_dropped acc + c_consumed acc + vsize q +
      vsize (filter (\<lambda>m. m_stream m = s) b)"
    using inv by (simp only: vsize_append filter.simps vsize_Nil add_0_left ac_simps)
  ultimately show ?thesis by (simp add: stream_inv_def)
qed

lemma stream_inv_complete:
  "stream_inv clk c acc q run s \<Longrightarrow>
   stream_inv clk c (acc\<lparr>c_consumed := c_consumed acc + vsize (filter (\<lambda>m. m_stream m = s) run)\<rparr>)
     q [] s"
  by (auto simp: stream_inv_def)

lemma batch_inv_later: "batch_inv clk l n b \<Longrightarrow> clk \<le> t \<Longrightarrow> batch_inv t l n b"
  by (auto simp: batch_inv_def intro: order_trans)

lemma held_inv_later: "held_inv clk s p \<Longrightarrow> clk \<le> t \<Longrightarrow> held_inv t s p"
  by (auto simp: held_inv_def intro: order_trans)

lemma snapshot_inv_later: "snapshot_inv clk l \<Longrightarrow> clk \<le> t \<Longrightarrow> snapshot_inv t l"
  by (auto simp: snapshot_inv_def intro: order_trans held_inv_later)

lemmas graph_inv_later = stream_inv_later batch_inv_later snapshot_inv_later

section \<open>The selection loop\<close>

declare select_loop.simps [simp del]

lemma merge_source_Nil2 [simp]: "merge_source xs [] = xs"
  by (cases xs) auto

lemma set_merge_source: "set (merge_source xs ys) = set xs \<union> set ys"
  by (induction xs ys rule: merge_source.induct) auto

lemma select_loop_rules [simp]:
  "\<not> vsize b < limit \<Longrightarrow> select_loop limit b q0 q1 = (b, q0, q1)"
  "select_loop limit b [] [] = (b, [], [])"
  "vsize b < limit \<Longrightarrow> select_loop limit b [] (y # ys) = select_loop limit (b @ [y]) [] ys"
  "vsize b < limit \<Longrightarrow> select_loop limit b (x # xs) [] = select_loop limit (b @ [x]) xs []"
  "vsize b < limit \<Longrightarrow> select_loop limit b (x # xs) (y # ys) =
     (if m_source_time y < m_source_time x then select_loop limit (b @ [y]) (x # xs) ys
      else select_loop limit (b @ [x]) xs (y # ys))"
  by (subst select_loop.simps; simp)+

text \<open>A loop that still has room: what one round does to the length of the batch.\<close>

lemma select_room:
  assumes "length b < unat limit"
  shows "vsize b < limit" and "length (b @ [x]) \<le> unat limit"
    and "take (unat limit - length b) (x # xs) = x # take (unat limit - length (b @ [x])) xs"
proof -
  show "vsize b < limit" using assms by (simp add: vsize_less_iff)
  show "length (b @ [x]) \<le> unat limit" using assms by simp
  obtain n where "unat limit - length b = Suc n" using assms by (metis Suc_diff_Suc)
  moreover from this have "unat limit - length (b @ [x]) = n" by simp
  ultimately
  show "take (unat limit - length b) (x # xs) = x # take (unat limit - length (b @ [x])) xs"
    by simp
qed

lemma select_full: "length b \<le> unat limit \<Longrightarrow> \<not> length b < unat limit \<Longrightarrow>
  select_loop limit b q0 q1 = (b, q0, q1) \<and> unat limit - length b = 0"
  by (simp add: vsize_less_iff)

lemma select_loop_merge:
  "length b \<le> unat limit \<Longrightarrow>
   fst (select_loop limit b q0 q1) = b @ take (unat limit - length b) (merge_source q0 q1)"
proof (induction q0 q1 arbitrary: b rule: merge_source.induct)
  case (1 ys)
  then show ?case
  proof (induction ys arbitrary: b)
    case (Cons y ys)
    then show ?case
      by (cases "length b < unat limit") (simp_all add: select_room select_full del: length_append)
  qed simp
next
  case (2 x xs)
  then show ?case
  proof (induction "x # xs" arbitrary: b x xs)
    case (Cons x xs)
    then show ?case
      by (cases "length b < unat limit"; cases xs)
        (simp_all add: select_room select_full del: length_append)
  qed
next
  case (3 x xs y ys)
  then show ?case
    by (cases "length b < unat limit") (simp_all add: select_room select_full del: length_append)
qed

text \<open>
  Each inbox gives up a prefix, in order: what is in the batch and what remains make up the
  inbox as it was. \<open>P\<close> tells the elements of the first inbox from those of the second.
\<close>

lemma select_loop_split:
  assumes "select_loop limit b q0 q1 = (b', q0', q1')"
    and "\<forall>m \<in> set q0. P m" and "\<forall>m \<in> set q1. \<not> P m"
  shows "filter P b' @ q0' = filter P b @ q0"
    and "filter (\<lambda>m. \<not> P m) b' @ q1' = filter (\<lambda>m. \<not> P m) b @ q1"
proof -
  have "filter P b' @ q0' = filter P b @ q0 \<and>
      filter (\<lambda>m. \<not> P m) b' @ q1' = filter (\<lambda>m. \<not> P m) b @ q1"
    using assms
  proof (induction limit b q0 q1 rule: select_loop.induct)
    case (1 limit b q0 q1)
    show ?case
    proof (cases "vsize b < limit \<and> (q0 \<noteq> [] \<or> q1 \<noteq> [])")
      case False
      then have "select_loop limit b q0 q1 = (b, q0, q1)" by auto
      with "1.prems"(1) show ?thesis by simp
    next
      case True
      note IH = "1.IH" [OF True refl refl]
      show ?thesis
        using True IH "1.prems" by (cases q0; cases q1) (auto split: if_splits)
    qed
  qed
  then show "filter P b' @ q0' = filter P b @ q0"
    and "filter (\<lambda>m. \<not> P m) b' @ q1' = filter (\<lambda>m. \<not> P m) b @ q1"
    by simp_all
qed

section \<open>The completion loop\<close>

lemma index_simps [simp]:
  "index Stream_imu = Inr 0" "index Stream_camera = Inr (Suc 0)"
  "index s = Inr 0 \<longleftrightarrow> s = Stream_imu" "index s = Inr (Suc 0) \<longleftrightarrow> s = Stream_camera"
  "s \<noteq> Stream_imu \<Longrightarrow> s \<noteq> Stream_camera \<Longrightarrow>
     index s = Inl (Invalid_argument ''unknown stream'')"
  by (auto simp: index_def split: if_splits)

lemma index_cases:
  obtains (bad) "s \<noteq> Stream_imu" "s \<noteq> Stream_camera"
  | (imu) "s = Stream_imu" | (camera) "s = Stream_camera"
  by blast

definition add_consumed :: "measurement list \<Rightarrow> graph \<Rightarrow> graph" where
  "add_consumed ms g = g\<lparr>g_accounting := \<lambda>i. (g_accounting g i)\<lparr>c_consumed :=
     c_consumed (g_accounting g i) + vsize (filter (\<lambda>m. index (m_stream m) = Inr i) ms)\<rparr>\<rparr>"

definition retain_all :: "measurement list \<Rightarrow> snapshot \<Rightarrow> snapshot" where
  "retain_all ms s =
     s\<lparr>s_imu := foldl retain (s_imu s) (filter (\<lambda>m. m_stream m = Stream_imu) ms),
       s_camera := foldl retain (s_camera s) (filter (\<lambda>m. m_stream m = Stream_camera) ms)\<rparr>"

lemma retain_all_simps [simp]:
  "s_batch_id (retain_all ms s) = s_batch_id s" "s_completed (retain_all ms s) = s_completed s"
  by (simp_all add: retain_all_def)

lemma complete_loop_known:
  "\<forall>m \<in> set ms. known m \<Longrightarrow>
   complete_loop ms g s = (Inr (), add_consumed ms g, retain_all ms s)"
proof (induction ms arbitrary: g s)
  case Nil
  then show ?case by (simp add: add_consumed_def retain_all_def)
next
  case (Cons m ms)
  then have IH: "complete_loop ms g' s' = (Inr (), add_consumed ms g', retain_all ms s')" for g' s'
    by simp
  from Cons.prems consider "m_stream m = Stream_imu" | "m_stream m = Stream_camera"
    by (auto simp: known_def)
  then show ?case
    by cases (auto simp: IH add_consumed_def retain_all_def fun_eq_iff index_def
        intro!: graph.equality)
qed

text \<open>Retaining keeps a newest measurement, and never loses one.\<close>

lemma foldl_retain_Some:
  assumes "foldl retain p ms = Some r"
  shows "r \<in> set ms \<union> set_option p"
    and "x \<in> set ms \<union> set_option p \<Longrightarrow> m_source_time x \<le> m_source_time r"
proof -
  have "r \<in> set ms \<union> set_option p \<and>
      (\<forall>x \<in> set ms \<union> set_option p. m_source_time x \<le> m_source_time r)"
    using assms
  proof (induction ms arbitrary: p)
    case Nil
    then show ?case by simp
  next
    case (Cons m ms)
    then have "r \<in> set ms \<union> set_option (retain p m) \<and>
        (\<forall>x \<in> set ms \<union> set_option (retain p m). m_source_time x \<le> m_source_time r)"
      by simp
    then show ?case
      by (cases p) (force simp: retain_def split: if_splits)+
  qed
  then show "r \<in> set ms \<union> set_option p"
    and "x \<in> set ms \<union> set_option p \<Longrightarrow> m_source_time x \<le> m_source_time r"
    by blast+
qed

lemma foldl_retain_None: "foldl retain p ms = None \<longleftrightarrow> p = None \<and> ms = []"
proof (induction ms arbitrary: p)
  case (Cons m ms)
  then show ?case by (cases p) (auto simp: retain_def)
qed simp

lemma held_inv_retain:
  "held_inv clk s p \<Longrightarrow> \<forall>m \<in> set ms. m_stream m = s \<and> m_source_time m \<le> clk \<Longrightarrow>
   held_inv clk s (foldl retain p ms)"
  unfolding held_inv_def using foldl_retain_Some(1) by fastforce

section \<open>Every operation keeps the invariant\<close>

lemma graph_ok_later:
  assumes "graph_ok g" and "g_clock_time g \<le> t"
  shows "graph_ok (g\<lparr>g_clock_time := t\<rparr>)"
  using assms by (auto simp: graph_ok_def intro: graph_inv_later option.pred_mono_strong)

lemma Graph_ok: "Graph capacity limit = Inr g \<Longrightarrow> graph_ok g"
  by (auto simp: Graph_def graph_ok_def stream_inv_def counts_zero_def split: if_splits)

lemma advance_cases:
  obtains (backwards) "t < g_clock_time g"
      "advance t g = (Inl (Invalid_argument ''clock moved backwards''), g)"
  | (ok) "g_clock_time g \<le> t" "advance t g = (Inr (), g\<lparr>g_clock_time := t\<rparr>)"
  by (cases "t < g_clock_time g") (auto simp: advance_def)

text \<open>Every way \<open>offer\<close> can return.\<close>

lemma offer_cases:
  obtains (threw) "isl (fst (offer m t g))" "snd (offer m t g) = g"
  | (rejected) i where "index (m_stream m) = Inr i" "g_clock_time g \<le> t" "m_source_time m \<le> t"
      "vsize (g_inbox g i) = g_capacity g"
      "offer m t g = (Inr False, g\<lparr>g_clock_time := t,
         g_last_sequence := (g_last_sequence g)(i := Some (m_sequence m)),
         g_accounting := (g_accounting g)(i := (g_accounting g i)\<lparr>
           c_offered := c_offered (g_accounting g i) + 1,
           c_dropped := c_dropped (g_accounting g i) + 1\<rparr>)\<rparr>)"
  | (accepted) i where "index (m_stream m) = Inr i" "g_clock_time g \<le> t" "m_source_time m \<le> t"
      "vsize (g_inbox g i) \<noteq> g_capacity g"
      "offer m t g = (Inr True, g\<lparr>g_clock_time := t,
         g_inbox := (g_inbox g)(i := g_inbox g i @ [m]),
         g_last_sequence := (g_last_sequence g)(i := Some (m_sequence m)),
         g_accounting := (g_accounting g)(i := (g_accounting g i)\<lparr>
           c_offered := c_offered (g_accounting g i) + 1\<rparr>)\<rparr>)"
proof (cases "index (m_stream m)")
  case (Inl e)
  then show ?thesis by (intro threw) (simp_all add: offer_def)
next
  case (Inr i)
  show ?thesis
  proof (cases t g rule: advance_cases)
    case backwards
    with Inr show ?thesis by (intro threw) (simp_all add: offer_def)
  next
    case ok
    let ?bad = "t < m_source_time m \<or>
      (case g_last_sequence g i of None \<Rightarrow> False | Some q \<Rightarrow> m_sequence m \<le> q)"
    consider "?bad" | "\<not> ?bad" "vsize (g_inbox g i) = g_capacity g"
      | "\<not> ?bad" "vsize (g_inbox g i) \<noteq> g_capacity g" by blast
    then show ?thesis
    proof cases
      case 1
      with ok Inr show ?thesis by (intro threw) (simp_all add: offer_def)
    next
      case 2
      with ok Inr show ?thesis by (intro rejected [of i]) (simp_all add: offer_def Let_def not_less)
    next
      case 3
      with ok Inr show ?thesis by (intro accepted [of i]) (simp_all add: offer_def Let_def not_less)
    qed
  qed
qed

lemma offer_ok:
  assumes "graph_ok g"
  shows "graph_ok (snd (offer m t g))"
proof (cases m t g rule: offer_cases)
  case threw
  with assms show ?thesis by simp
next
  case (rejected i)
  have "graph_ok (g\<lparr>g_clock_time := t\<rparr>)" using assms rejected(2) by (rule graph_ok_later)
  with rejected(1,5) show ?thesis
    by (cases "m_stream m" rule: index_cases)
      (auto simp: graph_ok_def intro: stream_inv_reject)
next
  case (accepted i)
  have "graph_ok (g\<lparr>g_clock_time := t\<rparr>)" using assms accepted(2) by (rule graph_ok_later)
  with accepted show ?thesis
    by (cases "m_stream m" rule: index_cases)
      (auto simp: graph_ok_def intro: stream_inv_accept)
qed

text \<open>What a selection that starts from a sound graph takes out of the two inboxes.\<close>

lemma select_loop_sound:
  assumes ok: "graph_ok g"
    and loop: "select_loop (g_limit g) [] (g_inbox g 0) (g_inbox g 1) = (b, q0, q1)"
  shows "filter (\<lambda>m. m_stream m = Stream_imu) b @ q0 = g_inbox g 0"
    and "filter (\<lambda>m. m_stream m = Stream_camera) b @ q1 = g_inbox g 1"
    and "b = take (unat (g_limit g)) (merge_source (g_inbox g 0) (g_inbox g 1))"
    and "\<forall>m \<in> set b. known m \<and> m_source_time m \<le> g_clock_time g"
proof -
  have q0: "\<forall>m \<in> set (g_inbox g 0). m_stream m = Stream_imu"
    and q1: "\<forall>m \<in> set (g_inbox g 1). m_stream m = Stream_camera"
    and old: "\<forall>m \<in> set (g_inbox g 0) \<union> set (g_inbox g 1). m_source_time m \<le> g_clock_time g"
    using ok by (auto simp: graph_ok_def stream_inv_def)
  have q1': "\<forall>m \<in> set (g_inbox g 1). \<not> m_stream m = Stream_imu"
    using q1 by auto
  show "filter (\<lambda>m. m_stream m = Stream_imu) b @ q0 = g_inbox g 0"
    using select_loop_split(1) [OF loop q0 q1'] by simp
  show b: "b = take (unat (g_limit g)) (merge_source (g_inbox g 0) (g_inbox g 1))"
    using select_loop_merge [of "[]" "g_limit g" "g_inbox g 0" "g_inbox g 1"] loop by simp
  have "set b \<subseteq> set (g_inbox g 0) \<union> set (g_inbox g 1)"
    unfolding b set_merge_source [symmetric] by (rule set_take_subset)
  then show known: "\<forall>m \<in> set b. known m \<and> m_source_time m \<le> g_clock_time g"
    using old q0 q1 by (auto simp: known_def)
  have "filter (\<lambda>m. \<not> m_stream m = Stream_imu) b = filter (\<lambda>m. m_stream m = Stream_camera) b"
    using known by (auto simp: known_def intro!: filter_cong)
  then show "filter (\<lambda>m. m_stream m = Stream_camera) b @ q1 = g_inbox g 1"
    using select_loop_split(2) [OF loop q0 q1'] by simp
qed

text \<open>The same, with the call that makes it: every way \<open>select\<close> can return.\<close>

lemma select_unfold:
  assumes ok: "graph_ok g" and time: "g_clock_time g \<le> t"
  obtains b q0 q1 where
    "b = take (unat (g_limit g)) (merge_source (g_inbox g 0) (g_inbox g 1))"
    "filter (\<lambda>m. m_stream m = Stream_imu) b @ q0 = g_inbox g 0"
    "filter (\<lambda>m. m_stream m = Stream_camera) b @ q1 = g_inbox g 1"
    "\<forall>m \<in> set b. known m \<and> m_source_time m \<le> t"
    "b = [] \<longleftrightarrow> g_inbox g 0 = [] \<and> g_inbox g 1 = []"
    "select t g =
       (if g_running g \<noteq> None \<or> b = [] then (Inr None, g\<lparr>g_clock_time := t\<rparr>)
        else (Inr (Some \<lparr>b_id = g_next_batch g, b_inputs = b\<rparr>),
              g\<lparr>g_clock_time := t, g_inbox := (g_inbox g)(0 := q0, 1 := q1),
                g_next_batch := g_next_batch g + 1,
                g_running := Some \<lparr>b_id = g_next_batch g, b_inputs = b\<rparr>\<rparr>))"
proof -
  let ?g = "g\<lparr>g_clock_time := t\<rparr>"
  have adv: "advance t g = (Inr (), ?g)"
    using time by (simp add: advance_def not_less [symmetric])
  obtain b q0 q1 where loop: "select_loop (g_limit g) [] (g_inbox g 0) (g_inbox g 1) = (b, q0, q1)"
    by (metis prod_cases3)
  note sound = select_loop_sound [OF graph_ok_later [OF ok time], simplified, OF loop [simplified]]
  have "unat (g_limit g) \<noteq> 0" using ok by (auto simp: graph_ok_def unat_eq_0)
  then have empty: "b = [] \<longleftrightarrow> g_inbox g 0 = [] \<and> g_inbox g 1 = []"
    using sound(3) set_merge_source [of "g_inbox g 0" "g_inbox g (Suc 0)"] by auto
  have "select t g =
       (if g_running g \<noteq> None \<or> b = [] then (Inr None, ?g)
        else (Inr (Some \<lparr>b_id = g_next_batch g, b_inputs = b\<rparr>),
              g\<lparr>g_clock_time := t, g_inbox := (g_inbox g)(0 := q0, 1 := q1),
                g_next_batch := g_next_batch g + 1,
                g_running := Some \<lparr>b_id = g_next_batch g, b_inputs = b\<rparr>\<rparr>))"
    using adv loop empty sound(1,2)
    by (auto simp: select_def Let_def fun_upd_idem intro!: graph.equality)
  with sound empty show ?thesis by (intro that [of b q0 q1]) simp_all
qed

lemma select_backwards: "t < g_clock_time g \<Longrightarrow>
  select t g = (Inl (Invalid_argument ''clock moved backwards''), g)"
  by (simp add: select_def advance_def)

lemma select_ok: "graph_ok g \<Longrightarrow> graph_ok (snd (select t g))"
proof (cases "t < g_clock_time g")
  case True
  then show "graph_ok g \<Longrightarrow> ?thesis" by (simp add: select_backwards)
next
  case False
  then have time: "g_clock_time g \<le> t" by simp
  assume ok: "graph_ok g"
  obtain b q0 q1 where
    b: "b = take (unat (g_limit g)) (merge_source (g_inbox g 0) (g_inbox g 1))"
    and q0: "filter (\<lambda>m. m_stream m = Stream_imu) b @ q0 = g_inbox g 0"
    and q1: "filter (\<lambda>m. m_stream m = Stream_camera) b @ q1 = g_inbox g 1"
    and kn: "\<forall>m \<in> set b. known m \<and> m_source_time m \<le> t"
    and "b = [] \<longleftrightarrow> g_inbox g 0 = [] \<and> g_inbox g 1 = []"
    and sel: "select t g =
       (if g_running g \<noteq> None \<or> b = [] then (Inr None, g\<lparr>g_clock_time := t\<rparr>)
        else (Inr (Some \<lparr>b_id = g_next_batch g, b_inputs = b\<rparr>),
              g\<lparr>g_clock_time := t, g_inbox := (g_inbox g)(0 := q0, 1 := q1),
                g_next_batch := g_next_batch g + 1,
                g_running := Some \<lparr>b_id = g_next_batch g, b_inputs = b\<rparr>\<rparr>))"
    by (rule select_unfold [OF ok time])
  have ok1: "graph_ok (g\<lparr>g_clock_time := t\<rparr>)" using ok time by (rule graph_ok_later)
  have len: "length b \<le> unat (g_limit g)" using b by simp
  have "stream_inv t (g_capacity g) (g_accounting g 0)
      (filter (\<lambda>m. m_stream m = Stream_imu) b @ q0) (running_inputs (g_running g)) Stream_imu"
    "stream_inv t (g_capacity g) (g_accounting g 1)
      (filter (\<lambda>m. m_stream m = Stream_camera) b @ q1) (running_inputs (g_running g)) Stream_camera"
    unfolding q0 q1 using ok1 by (auto simp: graph_ok_def)
  with ok1 kn len show ?thesis unfolding sel
    by (auto simp: graph_ok_def batch_inv_def intro: stream_inv_select)
qed

text \<open>Every way \<open>complete\<close> can return.\<close>

lemma complete_cases:
  assumes "graph_ok g"
  obtains (threw) "isl (fst (complete bid t g))" "snd (complete bid t g) = g"
      "g_running g = None \<or> (\<exists>b. g_running g = Some b \<and> (b_id b \<noteq> bid \<or> t < g_clock_time g))"
  | (finished) run where "g_running g = Some run" "b_id run = bid" "g_clock_time g \<le> t"
      "\<forall>m \<in> set (b_inputs run). known m \<and> m_source_time m \<le> t"
      "complete bid t g =
        (let s = retain_all (b_inputs run)
                  ((case g_latest g of None \<Rightarrow> snapshot_zero | Some l \<Rightarrow> l)
                    \<lparr>s_batch_id := bid, s_completed := t\<rparr>)
         in (Inr s, (add_consumed (b_inputs run) (g\<lparr>g_clock_time := t\<rparr>))
                      \<lparr>g_latest := Some s, g_running := None\<rparr>))"
proof (cases "\<exists>run. g_running g = Some run \<and> b_id run = bid")
  case False
  then show ?thesis
    by (cases "g_running g") (auto intro!: threw simp: complete_def)
next
  case True
  then obtain run where run: "g_running g = Some run" "b_id run = bid" by blast
  have kn: "\<forall>m \<in> set (b_inputs run). known m \<and> m_source_time m \<le> g_clock_time g"
    using assms run by (auto simp: graph_ok_def batch_inv_def)
  show ?thesis
  proof (cases t g rule: advance_cases)
    case backwards
    then show ?thesis using run by (auto intro!: threw simp: complete_def)
  next
    case ok
    have loop: "complete_loop (b_inputs run) h s =
        (Inr (), add_consumed (b_inputs run) h, retain_all (b_inputs run) s)" for h s
      using kn by (intro complete_loop_known) blast
    from kn ok(1) have "\<forall>m \<in> set (b_inputs run). known m \<and> m_source_time m \<le> t"
      using order_trans by blast
    with ok run show ?thesis
      by (intro finished [of run]) (simp_all add: complete_def loop Let_def)
  qed
qed

lemma snapshot_inv_complete:
  assumes "pred_option (snapshot_inv t) l" and "\<forall>m \<in> set ms. m_source_time m \<le> t"
  shows "snapshot_inv t (retain_all ms ((case l of None \<Rightarrow> snapshot_zero | Some l \<Rightarrow> l)
           \<lparr>s_batch_id := bid, s_completed := t\<rparr>))"
proof -
  have "held_inv t Stream_imu None" "held_inv t Stream_camera None"
    by (simp_all add: held_inv_def)
  with assms show ?thesis
    by (cases l) (auto simp: snapshot_inv_def retain_all_def snapshot_zero_def
        intro: held_inv_retain)
qed

lemma complete_ok:
  assumes "graph_ok g"
  shows "graph_ok (snd (complete bid t g))"
  using assms
proof (cases rule: complete_cases [where bid = bid and t = t])
  case threw
  with assms show ?thesis by simp
next
  case (finished run)
  have ok1: "graph_ok (g\<lparr>g_clock_time := t\<rparr>)" using assms finished(3) by (rule graph_ok_later)
  show ?thesis
    using ok1 finished(1,4) unfolding finished(5)
    by (auto simp: graph_ok_def add_consumed_def Let_def
        intro: stream_inv_complete snapshot_inv_complete)
qed

lemma control_ok: "graph_ok g \<Longrightarrow> graph_ok (snd (control t sp age g))"
proof (cases t g rule: advance_cases)
  case backwards
  then show "graph_ok g \<Longrightarrow> ?thesis" by (simp add: control_def)
next
  case ok
  then show "graph_ok g \<Longrightarrow> ?thesis"
    using graph_ok_later [of g t] by (simp add: control_def Let_def graph_ok_def)
qed

lemma graph_apply_ok: "graph_ok g \<Longrightarrow> graph_ok (graph_apply c g)"
  by (cases c) (simp_all add: offer_ok select_ok complete_ok control_ok)

interpretation graph_inv: invariant_system graph_init graph_step graph_ok
  by unfold_locales (auto simp: graph_init_def graph_step_def Graph_ok graph_apply_ok)

lemmas graph_reachable_ok = graph_inv.reach_invar

section \<open>The inboxes as reject-new bounded FIFOs\<close>

text \<open>Every call but \<open>offer\<close>, with the measurements of one stream it takes out of the inbox.\<close>

fun graph_get :: "stream \<Rightarrow> graph_op \<Rightarrow> graph \<Rightarrow> measurement list \<times> graph" where
  "graph_get s (Offer m t) g = ([], g)"
| "graph_get s (Select t) g =
     (case fst (select t g) of
        Inr (Some b) \<Rightarrow> (filter (\<lambda>m. m_stream m = s) (b_inputs b), snd (select t g))
      | _ \<Rightarrow> ([], snd (select t g)))"
| "graph_get s (Complete bid t) g = ([], graph_apply (Complete bid t) g)"
| "graph_get s (Control t sp age) g = ([], graph_apply (Control t sp age) g)"

abbreviation offer_at :: "measurement \<times> u64 \<Rightarrow> graph \<Rightarrow> bool res \<times> graph" where
  "offer_at x \<equiv> offer (fst x) (snd x)"

abbreviation to_stream :: "stream \<Rightarrow> measurement \<times> u64 \<Rightarrow> bool" where
  "to_stream s x \<equiv> m_stream (fst x) = s"

definition stream_at :: "stream \<Rightarrow> nat \<Rightarrow> bool" where
  "stream_at s i \<longleftrightarrow> index s = Inr i"

lemma graph_get_snd: "graph_ok g \<Longrightarrow> graph_ok (snd (graph_get s c g))"
  by (cases c) (auto simp: select_ok complete_ok control_ok split: sum.split option.split)

lemma offer_inbox:
  assumes "graph_ok g" and "stream_at s i" and "offer m t g = (r, h)"
  shows "m_stream m = s \<Longrightarrow> r = Inr True \<Longrightarrow>
      g_inbox h i = g_inbox g i @ [m] \<and> length (g_inbox g i) < unat (g_capacity g)"
    and "m_stream m = s \<Longrightarrow> r = Inr False \<Longrightarrow>
      g_inbox h i = g_inbox g i \<and> length (g_inbox g i) = unat (g_capacity g)"
    and "r = Inl e \<Longrightarrow> h = g" and "m_stream m \<noteq> s \<Longrightarrow> g_inbox h i = g_inbox g i"
    and "g_capacity h = g_capacity g"
proof -
  have fits: "length (g_inbox g i) \<le> unat (g_capacity g)"
    using assms(1,2)
    by (cases s rule: index_cases) (auto simp: graph_ok_def stream_inv_def stream_at_def)
  have other: "j \<noteq> i" if "m_stream m \<noteq> s" "index (m_stream m) = Inr j" for j
    using that assms(2) by (auto simp: stream_at_def index_def split: if_splits)
  note facts = assms(2,3) fits other
  show "m_stream m = s \<Longrightarrow> r = Inr True \<Longrightarrow>
      g_inbox h i = g_inbox g i @ [m] \<and> length (g_inbox g i) < unat (g_capacity g)"
    using facts by (cases m t g rule: offer_cases) (auto simp: vsize_eq_iff stream_at_def)
  show "m_stream m = s \<Longrightarrow> r = Inr False \<Longrightarrow>
      g_inbox h i = g_inbox g i \<and> length (g_inbox g i) = unat (g_capacity g)"
    using facts by (cases m t g rule: offer_cases) (auto simp: vsize_eq_iff stream_at_def)
  show "r = Inl e \<Longrightarrow> h = g" and "m_stream m \<noteq> s \<Longrightarrow> g_inbox h i = g_inbox g i"
    and "g_capacity h = g_capacity g"
    using facts by (cases m t g rule: offer_cases; auto)+
qed

lemma select_inbox:
  assumes "graph_ok g" and "stream_at s i"
  shows "g_inbox g i = fst (graph_get s (Select t) g) @ g_inbox (snd (select t g)) i"
    and "g_capacity (snd (select t g)) = g_capacity g"
proof -
  have "g_inbox g i = fst (graph_get s (Select t) g) @ g_inbox (snd (select t g)) i \<and>
    g_capacity (snd (select t g)) = g_capacity g"
  proof (cases "t < g_clock_time g")
    case True
    then show ?thesis by (simp add: select_backwards)
  next
    case False
    then have "g_clock_time g \<le> t" by simp
    then show ?thesis
      by (rule select_unfold [OF assms(1)])
        (use assms(2) in \<open>cases s rule: index_cases; simp add: stream_at_def\<close>)
  qed
  then show "g_inbox g i = fst (graph_get s (Select t) g) @ g_inbox (snd (select t g)) i"
    and "g_capacity (snd (select t g)) = g_capacity g" by simp_all
qed

lemma quiet_inbox:
  assumes "graph_ok g"
  shows "g_inbox (snd (complete bid t g)) = g_inbox g"
    and "g_capacity (snd (complete bid t g)) = g_capacity g"
    and "g_inbox (snd (control t sp age g)) = g_inbox g"
    and "g_capacity (snd (control t sp age g)) = g_capacity g"
  using assms
  by (cases rule: complete_cases [where bid = bid and t = t];
      simp add: add_consumed_def Let_def control_def advance_def)+

lemma graph_get_inbox:
  assumes "graph_ok g" and "stream_at s i"
  shows "g_inbox g i = fst (graph_get s c g) @ g_inbox (snd (graph_get s c g)) i"
    and "g_capacity (snd (graph_get s c g)) = g_capacity g"
proof -
  have sel: "snd (graph_get s (Select t) g) = snd (select t g)" for t
    by (simp split: sum.split option.split)
  show "g_inbox g i = fst (graph_get s c g) @ g_inbox (snd (graph_get s c g)) i"
    using select_inbox(1) [OF assms] quiet_inbox(1,3) [OF assms(1)] sel
    by (cases c) (simp_all del: graph_get.simps(2))
  show "g_capacity (snd (graph_get s c g)) = g_capacity g"
    using select_inbox(2) [OF assms] quiet_inbox(2,4) [OF assms(1)] sel
    by (cases c) (simp_all del: graph_get.simps(2))
qed

lemma graph_fifo:
  assumes "stream_at s i"
  shows "reject_new_fifo offer_at (graph_get s) (to_stream s) fst (\<lambda>g. g_inbox g i)
    (\<lambda>g. unat (g_capacity g)) graph_ok"
proof (unfold_locales, goal_cases)
  case (10 g)
  then show ?case using assms
    by (cases s rule: index_cases) (auto simp: graph_ok_def stream_inv_def stream_at_def)
qed (metis assms offer_inbox graph_get_inbox offer_ok graph_get_snd fst_conv snd_conv)+

interpretation imu_fifo: reject_new_fifo offer_at "graph_get Stream_imu" "to_stream Stream_imu" fst
  "\<lambda>g. g_inbox g 0" "\<lambda>g. unat (g_capacity g)" graph_ok
  by (rule graph_fifo) (simp add: stream_at_def)

interpretation camera_fifo: reject_new_fifo offer_at "graph_get Stream_camera"
  "to_stream Stream_camera" fst "\<lambda>g. g_inbox g 1" "\<lambda>g. unat (g_capacity g)" graph_ok
  by (rule graph_fifo) (simp add: stream_at_def)

section \<open>Properties\<close>

text \<open>Runs used by the witnesses: a graph of capacity 2 and batch limit 2 after some calls.\<close>

definition example_graph :: "graph_op list \<Rightarrow> graph" where
  "example_graph ops = fold graph_apply ops (projr (Graph 2 2))"

definition imu_at :: "u64 \<Rightarrow> u64 \<Rightarrow> measurement" where
  "imu_at q t = \<lparr>m_stream = Stream_imu, m_sequence = q, m_source_time = t\<rparr>"

definition camera_at :: "u64 \<Rightarrow> u64 \<Rightarrow> measurement" where
  "camera_at q t = \<lparr>m_stream = Stream_camera, m_sequence = q, m_source_time = t\<rparr>"

definition example_ops :: "graph_op list" where
  "example_ops = [Offer (imu_at 1 1) 1, Offer (camera_at 1 2) 2, Select 2, Offer (imu_at 2 3) 3]"

lemma reach_fold: "graph_reachable g \<Longrightarrow> graph_reachable (fold graph_apply ops g)"
proof (induction ops arbitrary: g)
  case (Cons c ops)
  then have "graph_reachable (graph_apply c g)"
    by (blast intro: reach_step graph_step_def [THEN iffD2])
  with Cons.IH show ?case by simp
qed simp

lemma example_reachable: "graph_reachable (example_graph ops)"
proof -
  have "Graph 2 2 = Inr (projr (Graph 2 2))" by (simp add: Graph_def)
  then have "graph_init (projr (Graph 2 2))" unfolding graph_init_def by blast
  then show ?thesis unfolding example_graph_def by (intro reach_fold reach_init)
qed

lemmas example_simps = example_graph_def example_ops_def imu_at_def camera_at_def Graph_def
  offer_def select_def advance_def complete_def control_def Let_def counts_zero_def
  snapshot_zero_def retain_def counts_of_def pending_def in_flight_def word_le_nat_alt

text \<open>
  C8: Conservation. After any sequence of calls, for each stream, every measurement offered is
  dropped, consumed, waiting in the inbox or in the running batch: the equation the unit test of
  the graph asserts, on the wrapping counters themselves.
\<close>

theorem graph_conservation:
  assumes "graph_reachable g" and "counts_of g s = Inr c" and "pending g s = Inr p"
  shows "c_offered c = c_dropped c + c_consumed c + p + in_flight g s"
proof -
  have ok: "graph_ok g" using assms(1) by (rule graph_reachable_ok)
  have fl: "in_flight g s = vsize (filter (\<lambda>m. m_stream m = s) (running_inputs (g_running g)))"
    by (simp add: in_flight_def running_inputs_def split: option.split)
  show ?thesis
  proof (cases s rule: index_cases)
    case bad
    with assms(2) show ?thesis by (simp add: counts_of_def)
  next
    case imu
    with ok assms(2,3) fl show ?thesis
      by (auto simp: graph_ok_def stream_inv_def counts_of_def pending_def)
  next
    case camera
    with ok assms(2,3) fl show ?thesis
      by (auto simp: graph_ok_def stream_inv_def counts_of_def pending_def)
  qed
qed

theorem graph_conservation_witness:
  "c_offered (g_accounting (example_graph example_ops) 0) = 2 \<and>
   (2 :: u64) = 0 + 0 + 1 + in_flight (example_graph example_ops) Stream_imu"
proof -
  have c: "counts_of (example_graph example_ops) Stream_imu =
      Inr \<lparr>c_offered = 2, c_dropped = 0, c_consumed = 0\<rparr>"
    and p: "pending (example_graph example_ops) Stream_imu = Inr 1"
    by (simp_all add: example_simps)
  show ?thesis
    using graph_conservation [OF example_reachable c p] c by (simp add: counts_of_def)
qed

text \<open>
  Bounds. An inbox never holds more than the capacity, and a running batch holds at least
  one measurement and at most the batch limit, all of known streams and none from the future.
\<close>

theorem graph_bounds:
  assumes "graph_reachable g" and "index s = Inr i"
  shows "length (g_inbox g i) \<le> unat (g_capacity g) \<and>
    (case g_running g of None \<Rightarrow> True
     | Some b \<Rightarrow> 1 \<le> length (b_inputs b) \<and> length (b_inputs b) \<le> unat (g_limit g) \<and>
         list_all (\<lambda>m. known m \<and> m_source_time m \<le> g_clock_time g) (b_inputs b))"
proof -
  have ok: "graph_ok g" using assms(1) by (rule graph_reachable_ok)
  have "length (g_inbox g i) \<le> unat (g_capacity g)"
    using ok assms(2)
    by (cases s rule: index_cases) (auto simp: graph_ok_def stream_inv_def)
  then show ?thesis
    using ok by (auto simp: graph_ok_def batch_inv_def list_all_iff Suc_le_eq split: option.split)
qed

theorem graph_bounds_witness:
  "length (g_inbox (example_graph example_ops) 0) \<le> unat (g_capacity (example_graph example_ops))"
  using graph_bounds [OF example_reachable [of example_ops], of Stream_imu 0] by simp

text \<open>
  C11: Strong exception safety. A call that throws (clock moved backwards, bad identity or time,
  unknown stream, wrong completion owner) leaves the graph exactly as it was.
\<close>

theorem graph_exception_safe:
  assumes "graph_reachable g" and "graph_throws c g"
  shows "graph_apply c g = g"
proof -
  have ok: "graph_ok g" using assms(1) by (rule graph_reachable_ok)
  show ?thesis
  proof (cases c)
    case (Offer m t)
    with assms(2) show ?thesis
      by (cases m t g rule: offer_cases) (auto split: sum.splits)
  next
    case (Select t)
    show ?thesis
    proof (cases "t < g_clock_time g")
      case False
      then have "g_clock_time g \<le> t" by simp
      with assms(2) Select show ?thesis
        by (elim select_unfold [OF ok]) (auto split: if_splits)
    qed (simp add: Select select_backwards)
  next
    case (Complete bid t)
    show ?thesis
      using ok assms(2) Complete
      by (cases rule: complete_cases [where bid = bid and t = t]) (auto simp: Let_def)
  next
    case (Control t sp age)
    with assms(2) show ?thesis by (auto simp: control_def advance_def Let_def split: if_splits)
  qed
qed

theorem graph_exception_safe_witness:
  "graph_apply (Complete 2 3) (example_graph example_ops) = example_graph example_ops"
proof -
  have "graph_throws (Complete 2 3) (example_graph example_ops)"
    by (simp add: example_simps)
  with graph_exception_safe [OF example_reachable] show ?thesis by blast
qed

lemma sorted_merge_source:
  assumes "sorted (map m_source_time xs)" and "sorted (map m_source_time ys)"
  shows "sorted (map m_source_time (merge_source xs ys))"
  using assms
proof (induction xs ys rule: merge_source.induct)
  case (3 x xs y ys)
  then show ?case
    by (auto simp: set_merge_source not_less intro: order_trans less_imp_le)
qed auto

lemma sorted_take_map: "sorted (map f xs) \<Longrightarrow> sorted (map f (take n xs))"
  by (metis sorted_wrt_take take_map)

text \<open>
  C9: Selection is a merge. A successful \<open>select\<close> needs an idle estimator; its batch is the
  first \<open>limit\<close> measurements of the merge of the two inboxes by source time (IMU first on a tie),
  each inbox loses exactly the prefix that is in the batch, and the batch becomes the running one
  under a new identifier. If both inboxes are ordered by source time, so is the batch.
\<close>

theorem select_takes_merge:
  assumes "graph_reachable g" and "select t g = (Inr (Some b), h)"
  shows "g_running g = None \<and> g_running h = Some b \<and>
    b_id b = g_next_batch g \<and> g_next_batch h = g_next_batch g + 1 \<and>
    b_inputs b = take (unat (g_limit g)) (merge_source (g_inbox g 0) (g_inbox g 1)) \<and>
    filter (\<lambda>m. m_stream m = Stream_imu) (b_inputs b) @ g_inbox h 0 = g_inbox g 0 \<and>
    filter (\<lambda>m. m_stream m = Stream_camera) (b_inputs b) @ g_inbox h 1 = g_inbox g 1 \<and>
    (sorted (map m_source_time (g_inbox g 0)) \<and> sorted (map m_source_time (g_inbox g 1)) \<longrightarrow>
       sorted (map m_source_time (b_inputs b)))"
proof -
  have ok: "graph_ok g" using assms(1) by (rule graph_reachable_ok)
  have "g_clock_time g \<le> t"
    using assms(2) select_backwards [of t g] by (cases "t < g_clock_time g") auto
  then show ?thesis
    by (rule select_unfold [OF ok])
      (use assms(2) in \<open>auto split: if_splits intro: sorted_take_map sorted_merge_source\<close>)
qed

theorem select_takes_merge_witness:
  "\<exists>b. fst (select 5 (example_graph [Offer (camera_at 1 1) 2, Offer (imu_at 1 2) 3])) = Inr (Some b)
     \<and> b_inputs b = [camera_at 1 1, imu_at 1 2]"
proof -
  let ?g = "example_graph [Offer (camera_at 1 1) 2, Offer (imu_at 1 2) 3]"
  let ?b = "\<lparr>b_id = 1, b_inputs = [camera_at 1 1, imu_at 1 2]\<rparr>"
  have "fst (select 5 ?g) = Inr (Some ?b)" by (simp add: example_simps)
  then have sel: "select 5 ?g = (Inr (Some ?b), snd (select 5 ?g))" by (metis prod.collapse)
  show ?thesis
    using select_takes_merge [OF example_reachable sel] \<open>fst (select 5 ?g) = Inr (Some ?b)\<close>
    by auto
qed

text \<open>
  Control freshness. The outcome of a control tick is decided by the age of the IMU
  measurement retained in the latest completed snapshot, as a true difference of times (the
  subtraction never wraps): usable up to the maximum age, stale above it, missing without one. The
  tick carries that snapshot and changes nothing but the clock and the tick counter.
\<close>

theorem control_freshness:
  assumes "graph_reachable g" and "control t sp age g = (Inr k, h)"
  shows "k_outcome k =
      (case g_latest g of
         None \<Rightarrow> Missing
       | Some l \<Rightarrow> (case s_imu l of
           None \<Rightarrow> Missing
         | Some m \<Rightarrow> if unat t - unat (m_source_time m) \<le> unat age then Usable else Stale)) \<and>
    (case Option.bind (g_latest g) s_imu of None \<Rightarrow> True | Some m \<Rightarrow> m_source_time m \<le> t) \<and>
    k_snapshot k = g_latest g \<and> k_release k = t \<and> k_setpoint k = sp \<and> k_tick k = g_next_tick g \<and>
    h = g\<lparr>g_clock_time := t, g_next_tick := g_next_tick g + 1\<rparr>"
proof -
  have ok: "graph_ok g" using assms(1) by (rule graph_reachable_ok)
  show ?thesis
  proof (cases t g rule: advance_cases)
    case backwards
    with assms(2) show ?thesis by (simp add: control_def)
  next
    case time: ok
    have old: "m_source_time m \<le> t" if "g_latest g = Some l" "s_imu l = Some m" for l m
      using ok that time(1) by (auto simp: graph_ok_def snapshot_inv_def held_inv_def intro: order_trans)
    with assms(2) time(2) show ?thesis
      by (auto simp: control_def Let_def word_nat split: option.splits)
  qed
qed

theorem control_freshness_witness:
  "\<exists>k. fst (control 9 42 5 (example_graph (example_ops @ [Complete 1 4]))) = Inr k \<and>
     k_outcome k = Stale"
proof -
  let ?g = "example_graph (example_ops @ [Complete 1 4])"
  obtain k h where c: "control 9 42 5 ?g = (Inr k, h)"
    by (simp add: example_simps)
  have "g_latest ?g = Some \<lparr>s_batch_id = 1, s_completed = 4,
      s_imu = Some (imu_at 1 1), s_camera = Some (camera_at 1 2)\<rparr>"
    by (simp add: example_simps)
  with control_freshness [OF example_reachable c] c show ?thesis
    by (intro exI [of _ k]) (simp add: imu_at_def)
qed

lemma retained_source:
  assumes "m \<in> set ms \<union> set_option p"
  shows "\<exists>r. foldl retain p ms = Some r \<and> m_source_time m \<le> m_source_time r"
proof -
  have "foldl retain p ms \<noteq> None" using assms by (auto simp: foldl_retain_None)
  then obtain r where "foldl retain p ms = Some r" by blast
  with foldl_retain_Some(2) [OF this assms] show ?thesis by blast
qed

text \<open>
  Completion. While a batch runs, completing it under its own identifier at a time that
  does not go backwards always succeeds: the snapshot becomes the latest, the estimator is idle
  again, and for every measurement of the batch the snapshot holds one of its stream that is at
  least as recent, so a batch with camera input yields a camera measurement to map.
\<close>

theorem complete_succeeds:
  assumes "graph_reachable g" and "g_running g = Some b" and "g_clock_time g \<le> t"
  shows "\<exists>s h. complete (b_id b) t g = (Inr s, h) \<and>
    g_latest h = Some s \<and> g_running h = None \<and> s_batch_id s = b_id b \<and> s_completed s = t \<and>
    list_all (\<lambda>m. \<exists>r. (if m_stream m = Stream_imu then s_imu s else s_camera s) = Some r \<and>
      m_source_time m \<le> m_source_time r) (b_inputs b)"
proof -
  have ok: "graph_ok g" using assms(1) by (rule graph_reachable_ok)
  then show ?thesis
  proof (cases rule: complete_cases [where bid = "b_id b" and t = t])
    case threw
    with assms show ?thesis by (auto simp: not_less [symmetric])
  next
    case (finished run)
    with assms have "run = b" by simp
    moreover have "\<exists>r. (if m_stream m = Stream_imu then s_imu (retain_all (b_inputs b) s)
          else s_camera (retain_all (b_inputs b) s)) = Some r \<and> m_source_time m \<le> m_source_time r"
      if "m \<in> set (b_inputs b)" for m s
      using that finished(4) \<open>run = b\<close>
      by (auto simp: retain_all_def known_def intro!: retained_source)
    ultimately show ?thesis
      using finished(5) by (auto simp: Let_def list_all_iff)
  qed
qed

theorem complete_succeeds_witness:
  "\<exists>s h. complete 1 4 (example_graph example_ops) = (Inr s, h) \<and> g_latest h = Some s"
proof -
  have r: "g_running (example_graph example_ops) =
      Some \<lparr>b_id = 1, b_inputs = [imu_at 1 1, camera_at 1 2]\<rparr>"
    and t: "g_clock_time (example_graph example_ops) \<le> 4"
    by (simp_all add: example_simps)
  show ?thesis using complete_succeeds [OF example_reachable r t] by auto
qed

text \<open>
  Lineage. No call makes the retained IMU or camera measurement older or makes it vanish,
  whatever the completion time; and only \<open>complete\<close> changes the latest snapshot, so running work
  is invisible to control.
\<close>

definition source_of :: "(snapshot \<Rightarrow> measurement option) \<Rightarrow> graph \<Rightarrow> u64 option" where
  "source_of f g = map_option m_source_time (Option.bind (g_latest g) f)"

theorem retained_never_older:
  assumes "graph_reachable g"
  shows "(case source_of s_imu g of None \<Rightarrow> True
          | Some a \<Rightarrow> \<exists>b. source_of s_imu (graph_apply c g) = Some b \<and> a \<le> b) \<and>
    (case source_of s_camera g of None \<Rightarrow> True
          | Some a \<Rightarrow> \<exists>b. source_of s_camera (graph_apply c g) = Some b \<and> a \<le> b) \<and>
    (case c of Complete _ _ \<Rightarrow> True | _ \<Rightarrow> g_latest (graph_apply c g) = g_latest g)"
proof -
  have ok: "graph_ok g" using assms by (rule graph_reachable_ok)
  have frame: "g_latest (snd (offer m t g)) = g_latest g"
    "g_latest (snd (control t sp age g)) = g_latest g" for m t sp age
    by (cases m t g rule: offer_cases; simp) (simp add: control_def advance_def Let_def)
  have sel: "g_latest (snd (select t g)) = g_latest g" for t
  proof (cases "t < g_clock_time g")
    case False
    then have "g_clock_time g \<le> t" by simp
    then show ?thesis by (rule select_unfold [OF ok]) simp
  qed (simp add: select_backwards)
  have comp: "\<exists>b. source_of s_imu (snd (complete bid t g)) = Some b \<and> a \<le> b"
    if "source_of s_imu g = Some a" for a bid t
    using ok that retained_source
    by (cases rule: complete_cases [where bid = bid and t = t])
      (fastforce simp: source_of_def Let_def retain_all_def bind_eq_Some_conv)+
  have comp': "\<exists>b. source_of s_camera (snd (complete bid t g)) = Some b \<and> a \<le> b"
    if "source_of s_camera g = Some a" for a bid t
    using ok that retained_source
    by (cases rule: complete_cases [where bid = bid and t = t])
      (fastforce simp: source_of_def Let_def retain_all_def bind_eq_Some_conv)+
  show ?thesis
    using frame sel comp comp'
    by (cases c) (auto simp: source_of_def split: option.split)
qed

theorem retained_never_older_witness:
  "\<exists>b. source_of s_imu (graph_apply (Complete 2 9)
         (example_graph (example_ops @ [Complete 1 4, Offer (imu_at 3 2) 5, Select 6]))) = Some b
       \<and> 1 \<le> b"
proof -
  let ?g = "example_graph (example_ops @ [Complete 1 4, Offer (imu_at 3 2) 5, Select 6])"
  have "source_of s_imu ?g = Some 1" by (simp add: source_of_def example_simps)
  with retained_never_older [OF example_reachable [of
      "example_ops @ [Complete 1 4, Offer (imu_at 3 2) 5, Select 6]"], of "Complete 2 9"]
  show ?thesis by simp
qed

text \<open>
  C10: Each inbox is a FIFO that loses nothing it accepted. Over any sequence of calls, the
  measurements of a stream put into batches, followed by those still waiting, are those waiting
  at the start followed by the accepted ones, in order and without duplicates; and the inbox
  stays within the capacity.
\<close>

theorem graph_stream_fifo:
  assumes "graph_reachable g" and "s = Stream_imu \<and> i = 0 \<or> s = Stream_camera \<and> i = 1"
    and "fifo_run offer_at (graph_get s) (to_stream s) fst ops g = (acc, out, h)"
  shows "g_inbox g i @ acc = out @ g_inbox h i \<and> length (g_inbox h i) \<le> unat (g_capacity g)"
proof -
  have ok: "graph_ok g" using assms(1) by (rule graph_reachable_ok)
  from assms(2) show ?thesis
    using imu_fifo.fifo_history [OF ok] imu_fifo.fifo_run_bounded [OF ok]
      camera_fifo.fifo_history [OF ok] camera_fifo.fifo_run_bounded [OF ok] assms(3)
    by auto
qed

theorem graph_stream_fifo_witness:
  "\<exists>h. fifo_run offer_at (graph_get Stream_imu) (to_stream Stream_imu) fst
      [Inl (imu_at 1 1, 1), Inl (imu_at 2 2, 2), Inl (imu_at 3 3, 3), Inr (Select 4)]
      (example_graph []) = ([imu_at 1 1, imu_at 2 2], [imu_at 1 1, imu_at 2 2], h) \<and>
    g_inbox (example_graph []) 0 @ [imu_at 1 1, imu_at 2 2] = [imu_at 1 1, imu_at 2 2] @ g_inbox h 0"
proof -
  let ?ops = "[Inl (imu_at 1 1, 1), Inl (imu_at 2 2, 2), Inl (imu_at 3 3, 3), Inr (Select 4)]"
  obtain h where r: "fifo_run offer_at (graph_get Stream_imu) (to_stream Stream_imu) fst ?ops
      (example_graph []) = ([imu_at 1 1, imu_at 2 2], [imu_at 1 1, imu_at 2 2], h)"
    by (simp add: example_simps)
  from graph_stream_fifo [OF example_reachable _ r, of 0] r show ?thesis by blast
qed

end
