(* ===== verification/Hints.thy ===== *)
theory Hints
  imports Prelude
begin

text \<open>
  Scheduling hints: the callback profiles and message metadata of
  \<^verbatim>\<open>src/ros2/scx_slam_executor/include/scx_slam_executor/freshness_executor.hpp\<close>, the pure
  functions of \<^verbatim>\<open>src/ros2/scx_slam_executor/src/freshness_executor.cpp\<close> that turn them into
  hints and decide expiry, the hint sinks, and the transport projection of
  \<^verbatim>\<open>src/ros2/scx_slam_workload/include/scx_slam_workload/hint_ablation.hpp\<close>. The hint ABI itself
  (\<open>scx_fresh_shared.h\<close>, \<open>freshqos.h\<close>) is another repository: its class constants are the
  parameter \<open>abi\<close>, its publication call is a parameter of the pinned-map sink.
\<close>

section \<open>Stage identities and the external ABI\<close>

definition SLAM_STAGE_IMU_PREINT :: u32 where "SLAM_STAGE_IMU_PREINT = 0"
definition SLAM_STAGE_VISION_FE :: u32 where "SLAM_STAGE_VISION_FE = 1"
definition SLAM_STAGE_STATE_EST :: u32 where "SLAM_STAGE_STATE_EST = 2"
definition SLAM_STAGE_MAPPING_BE :: u32 where "SLAM_STAGE_MAPPING_BE = 3"
definition SLAM_STAGE_LOOP_CLOSURE :: u32 where "SLAM_STAGE_LOOP_CLOSURE = 4"
definition SLAM_STAGE_LIDAR_PREINT :: u32 where "SLAM_STAGE_LIDAR_PREINT = 5"
definition SLAM_STAGE_LIDAR_REG :: u32 where "SLAM_STAGE_LIDAR_REG = 6"
definition SLAM_STAGE_MISC :: u32 where "SLAM_STAGE_MISC = 15"
definition SLAM_STAGE_MAX :: u32 where "SLAM_STAGE_MAX = 16"

lemmas stage_defs = SLAM_STAGE_IMU_PREINT_def SLAM_STAGE_VISION_FE_def SLAM_STAGE_STATE_EST_def
  SLAM_STAGE_MAPPING_BE_def SLAM_STAGE_LOOP_CLOSURE_def SLAM_STAGE_LIDAR_PREINT_def
  SLAM_STAGE_LIDAR_REG_def SLAM_STAGE_MISC_def SLAM_STAGE_MAX_def

text \<open>The constants of the hint ABI that the sources name; their values are not in this repository.\<close>

record fresh_abi =
  FRESH_STAGE_UNSPECIFIED :: u32
  FRESH_CLASS_BACKGROUND :: u32
  FRESH_CLASS_DEADLINE :: u32
  FRESH_CLASS_URGENT :: u32

text \<open>The members of \<open>fresh_task_hint\<close> that the sources read or write.\<close>

record fresh_task_hint =
  h_stage_id :: u32
  h_class_id :: u32
  h_job_id :: u64
  h_release_ts_ns :: u64
  h_deadline_ts_ns :: u64
  h_stale_ns :: u64
  h_budget_ns :: u64
  h_slice_ns :: u64
  h_weight :: u32
  h_flags :: u32

text \<open>\<open>fresh_task_hint hint{}\<close>: value-initialised.\<close>

definition hint_zero :: fresh_task_hint where
  "hint_zero = \<lparr>h_stage_id = 0, h_class_id = 0, h_job_id = 0, h_release_ts_ns = 0,
     h_deadline_ts_ns = 0, h_stale_ns = 0, h_budget_ns = 0, h_slice_ns = 0, h_weight = 0,
     h_flags = 0\<rparr>"

section \<open>Profiles and metadata\<close>

record callback_profile =
  p_stage_id :: u32
  p_class_id :: u32
  p_relative_deadline_ns :: u64
  p_stale_ns :: u64
  p_budget_ns :: u64
  p_slice_ns :: u64
  p_weight :: u32
  p_reject_expired :: bool

definition default_profile :: "fresh_abi \<Rightarrow> callback_profile" where
  "default_profile abi = \<lparr>p_stage_id = FRESH_STAGE_UNSPECIFIED abi,
     p_class_id = FRESH_CLASS_BACKGROUND abi, p_relative_deadline_ns = 0, p_stale_ns = 0,
     p_budget_ns = 0, p_slice_ns = 0, p_weight = 0, p_reject_expired = False\<rparr>"

record message_metadata =
  md_job_id :: u64
  md_release_ts_ns :: u64

text \<open>What an observer of a subscription is told.\<close>

datatype message_event = Selected | DroppedBeforeStart

section \<open>Clock, saturating addition, hints\<close>

text \<open>
  \<open>clock_gettime\<close> either fails with an \<open>errno\<close> or fills a \<open>timespec\<close>; the conversion multiplies
  and adds in \<open>uint64_t\<close>.
\<close>

definition monotonic_now_ns :: "int + u64 \<times> u64 \<Rightarrow> u64 res" where
  "monotonic_now_ns r =
     (case r of
        Inl errno \<Rightarrow> Inl (System_error errno ''clock_gettime(CLOCK_MONOTONIC)'')
      | Inr (sec, nsec) \<Rightarrow> Inr (sec * 1000000000 + nsec))"

definition add_saturating :: "u64 \<Rightarrow> u64 \<Rightarrow> u64" where
  "add_saturating lhs rhs = (if rhs > - 1 - lhs then - 1 else lhs + rhs)"

definition clear_hint :: "fresh_abi \<Rightarrow> fresh_task_hint" where
  "clear_hint abi = hint_zero\<lparr>h_stage_id := FRESH_STAGE_UNSPECIFIED abi,
     h_class_id := FRESH_CLASS_BACKGROUND abi\<rparr>"

text \<open>
  \<open>make_hint\<close>: without metadata the release is the clock (whose failure throws before the job
  counter moves) and the job number is the executor's own counter.
\<close>

definition make_hint ::
  "callback_profile \<Rightarrow> message_metadata option \<Rightarrow> u64 res \<Rightarrow> u64 \<Rightarrow> fresh_task_hint res \<times> u64" where
  "make_hint profile metadata now next_job_id =
     (case (case metadata of Some md \<Rightarrow> Inr (md_release_ts_ns md) | None \<Rightarrow> now) of
        Inl e \<Rightarrow> (Inl e, next_job_id)
      | Inr release_ns \<Rightarrow>
          (Inr (hint_zero\<lparr>
             h_stage_id := p_stage_id profile,
             h_class_id := p_class_id profile,
             h_job_id := (case metadata of Some md \<Rightarrow> md_job_id md | None \<Rightarrow> next_job_id),
             h_release_ts_ns := release_ns,
             h_deadline_ts_ns := (if p_relative_deadline_ns profile = 0 then 0
               else add_saturating release_ns (p_relative_deadline_ns profile)),
             h_stale_ns := p_stale_ns profile,
             h_budget_ns := p_budget_ns profile,
             h_slice_ns := p_slice_ns profile,
             h_weight := p_weight profile\<rparr>),
           (case metadata of Some _ \<Rightarrow> next_job_id | None \<Rightarrow> next_job_id + 1)))"

text \<open>The test of \<open>Impl::expired\<close> at a time \<open>now\<close>.\<close>

definition hint_expired :: "u64 \<Rightarrow> fresh_task_hint \<Rightarrow> bool" where
  "hint_expired now h \<longleftrightarrow>
     (h_deadline_ts_ns h \<noteq> 0 \<and> now > h_deadline_ts_ns h) \<or>
     (h_stale_ns h \<noteq> 0 \<and> now > h_release_ts_ns h \<and> now - h_release_ts_ns h > h_stale_ns h)"

section \<open>Transport projection\<close>

definition project_hint :: "fresh_abi \<Rightarrow> fresh_task_hint \<Rightarrow> string \<Rightarrow> fresh_task_hint" where
  "project_hint abi original mode =
     (if mode = ''imu-only'' \<and> h_stage_id original \<noteq> SLAM_STAGE_IMU_PREINT then
        original\<lparr>h_stage_id := SLAM_STAGE_MISC, h_class_id := FRESH_CLASS_BACKGROUND abi,
          h_deadline_ts_ns := 0, h_stale_ns := 0, h_budget_ns := 0, h_slice_ns := 0,
          h_weight := 0\<rparr>
      else if mode = ''fe-only'' \<and> h_stage_id original = SLAM_STAGE_IMU_PREINT then
        original\<lparr>h_stage_id := SLAM_STAGE_MISC, h_class_id := FRESH_CLASS_DEADLINE abi\<rparr>
      else original)"

section \<open>Hint sinks\<close>

text \<open>
  \<open>HintSink\<close> is an interface of two calls, each of which may throw. A sink is its two calls over
  a state; the state of the pinned-map sink is the kernel's map behind \<open>freshqos\<close>.
\<close>

record 's sink_ops =
  sk_publish :: "u64 \<Rightarrow> fresh_task_hint \<Rightarrow> 's \<Rightarrow> unit res \<times> 's"
  sk_clear :: "u64 \<Rightarrow> 's \<Rightarrow> unit res \<times> 's"

definition null_sink :: "'s sink_ops" where
  "null_sink = \<lparr>sk_publish = (\<lambda>_ _ s. (Inr (), s)), sk_clear = (\<lambda>_ s. (Inr (), s))\<rparr>"

text \<open>
  \<open>pub\<close> is \<open>freshqos_publish_hint_for\<close>: 0, or a negative error, and the map afterwards.
\<close>

definition pinned_publish ::
  "(u64 \<Rightarrow> fresh_task_hint \<Rightarrow> 's \<Rightarrow> int \<times> 's) \<Rightarrow> u64 \<Rightarrow> fresh_task_hint \<Rightarrow> 's \<Rightarrow> unit res \<times> 's" where
  "pinned_publish pub worker hint s =
     (case pub worker hint s of
        (error, t) \<Rightarrow>
          if error \<noteq> 0 then (Inl (System_error (- error) ''freshqos_publish_hint_for''), t)
          else (Inr (), t))"

definition pinned_clear ::
  "fresh_abi \<Rightarrow> (u64 \<Rightarrow> fresh_task_hint \<Rightarrow> 's \<Rightarrow> int \<times> 's) \<Rightarrow> u64 \<Rightarrow> 's \<Rightarrow> unit res \<times> 's" where
  "pinned_clear abi pub worker s = pinned_publish pub worker (clear_hint abi) s"

definition pinned_sink ::
  "fresh_abi \<Rightarrow> (u64 \<Rightarrow> fresh_task_hint \<Rightarrow> 's \<Rightarrow> int \<times> 's) \<Rightarrow> 's sink_ops" where
  "pinned_sink abi pub = \<lparr>sk_publish = pinned_publish pub, sk_clear = pinned_clear abi pub\<rparr>"

text \<open>The constructor: \<open>freshqos_open\<close> answers 0 with the map, or a negative error.\<close>

definition pinned_open :: "int + 's \<Rightarrow> 's res" where
  "pinned_open r =
     (case r of Inl error \<Rightarrow> Inl (System_error (- error) ''freshqos_open'') | Inr s \<Rightarrow> Inr s)"

definition ablation_sink :: "fresh_abi \<Rightarrow> string \<Rightarrow> 's sink_ops \<Rightarrow> 's sink_ops" where
  "ablation_sink abi mode sink =
     \<lparr>sk_publish = (\<lambda>worker hint. sk_publish sink worker (project_hint abi hint mode)),
      sk_clear = sk_clear sink\<rparr>"

section \<open>The contract of a sink\<close>

text \<open>
  What the executor relies on: \<open>slot\<close> is what the scheduler sees for each worker, \<open>view\<close> what a
  published hint looks like there, \<open>cleared\<close> what a cleared slot holds. A successful call changes
  its own worker's slot only, a call that throws changes none.
\<close>

locale hint_sink =
  fixes sink :: "'s sink_ops"
    and slot :: "'s \<Rightarrow> u64 \<Rightarrow> fresh_task_hint option"
    and view :: "fresh_task_hint \<Rightarrow> fresh_task_hint option"
    and cleared :: "fresh_task_hint option"
  assumes publish_ok: "sk_publish sink w h s = (Inr (), t) \<Longrightarrow> slot t = (slot s)(w := view h)"
    and publish_throw: "sk_publish sink w h s = (Inl e, t) \<Longrightarrow> slot t = slot s"
    and clear_ok: "sk_clear sink w s = (Inr (), t) \<Longrightarrow> slot t = (slot s)(w := cleared)"
    and clear_throw: "sk_clear sink w s = (Inl e, t) \<Longrightarrow> slot t = slot s"
begin

lemma publish_other: "sk_publish sink w h s = (r, t) \<Longrightarrow> v \<noteq> w \<Longrightarrow> slot t v = slot s v"
  using publish_ok publish_throw by (cases r) fastforce+

lemma clear_other: "sk_clear sink w s = (r, t) \<Longrightarrow> v \<noteq> w \<Longrightarrow> slot t v = slot s v"
  using clear_ok clear_throw by (cases r) fastforce+

lemma ablation_contract: "hint_sink (ablation_sink abi mode sink) slot
    (\<lambda>h. view (project_hint abi h mode)) cleared"
  by unfold_locales
    (auto simp: ablation_sink_def dest: publish_ok publish_throw clear_ok clear_throw)

end

text \<open>The documented behaviour of \<open>freshqos_publish_hint_for\<close> the pinned-map sink relies on.\<close>

definition freshqos_writes ::
  "(u64 \<Rightarrow> fresh_task_hint \<Rightarrow> 's \<Rightarrow> int \<times> 's) \<Rightarrow> ('s \<Rightarrow> u64 \<Rightarrow> fresh_task_hint option) \<Rightarrow> bool" where
  "freshqos_writes pub slot \<longleftrightarrow>
     (\<forall>w h s. if fst (pub w h s) = 0 then slot (snd (pub w h s)) = (slot s)(w := Some h)
              else slot (snd (pub w h s)) = slot s)"

lemma pinned_contract:
  assumes "freshqos_writes pub slot"
  shows "hint_sink (pinned_sink abi pub) slot Some (Some (clear_hint abi))"
proof -
  have "slot (snd (pub w h s)) = (if fst (pub w h s) = 0 then (slot s)(w := Some h) else slot s)"
    for w h s using assms by (simp add: freshqos_writes_def)
  then show ?thesis
    by unfold_locales
      (auto simp: pinned_sink_def pinned_clear_def pinned_publish_def split: prod.splits if_splits,
        (metis fst_conv snd_conv)+)
qed

interpretation null_hints: hint_sink null_sink "\<lambda>_ _. None" "\<lambda>_. None" None
  by unfold_locales (simp_all add: null_sink_def)

text \<open>A map that accepts every write, as the kernel's pinned hash map does while it has room.\<close>

definition map_write ::
  "u64 \<Rightarrow> fresh_task_hint \<Rightarrow> (u64 \<Rightarrow> fresh_task_hint option) \<Rightarrow> int \<times> (u64 \<Rightarrow> fresh_task_hint option)" where
  "map_write w h m = (0, m(w := Some h))"

lemma map_write_writes: "freshqos_writes map_write (\<lambda>m. m)"
  by (simp add: freshqos_writes_def map_write_def)

interpretation pinned_hints: hint_sink "pinned_sink abi map_write" "\<lambda>m. m" Some
  "Some (clear_hint abi)"
  for abi
  by (rule pinned_contract [OF map_write_writes])

section \<open>Properties\<close>

lemma unat_max_u64: "unat (- 1 :: u64) = 18446744073709551615"
  by (simp add: unsigned_minus_1_eq_mask mask_eq_exp_minus_1)

lemma max_u64_minus: "unat ((- 1 :: u64) - a) = 18446744073709551615 - unat a"
proof -
  have "a \<le> - 1" by simp
  then have "unat ((- 1 :: u64) - a) = unat (- 1 :: u64) - unat a" by (rule unat_sub_u64)
  then show ?thesis by (simp add: unat_max_u64)
qed

lemma add_saturating_value:
  "unat (add_saturating lhs rhs) = min (unat lhs + unat rhs) 18446744073709551615"
proof (cases "rhs > - 1 - lhs")
  case True
  then show ?thesis
    by (simp add: add_saturating_def u64_less_nat max_u64_minus unat_max_u64)
next
  case False
  then have "unat lhs + unat rhs < 18446744073709551616"
    using unat_u64_less [of lhs] unfolding u64_less_nat max_u64_minus by linarith
  with False show ?thesis
    by (simp add: add_saturating_def unat_add_u64)
qed

text \<open>
  C24: The deadline of a hint is the release time plus the relative deadline in true arithmetic,
  clamped to the largest 64-bit time, and absent exactly when the profile has none; it never wraps
  to before the release. A hint is made from the message's own identity when there is one, and the
  executor's job counter moves only when it is used.
\<close>

theorem make_hint_deadline:
  assumes "make_hint profile metadata now j = (Inr h, j')"
  shows "unat (h_deadline_ts_ns h) =
           (if p_relative_deadline_ns profile = 0 then 0
            else min (unat (h_release_ts_ns h) + unat (p_relative_deadline_ns profile))
                   18446744073709551615) \<and>
         (p_relative_deadline_ns profile \<noteq> 0 \<longrightarrow> h_release_ts_ns h \<le> h_deadline_ts_ns h) \<and>
         (case metadata of
            Some md \<Rightarrow> h_job_id h = md_job_id md \<and> h_release_ts_ns h = md_release_ts_ns md \<and> j' = j
          | None \<Rightarrow> h_job_id h = j \<and> Inr (h_release_ts_ns h) = now \<and> j' = j + 1)"
    (is "?amount \<and> ?order \<and> ?identity")
proof (intro conjI)
  obtain release where h: "h_release_ts_ns h = release"
    "h_deadline_ts_ns h = (if p_relative_deadline_ns profile = 0 then 0
       else add_saturating release (p_relative_deadline_ns profile))"
    using assms by (auto simp: make_hint_def split: sum.splits option.splits)
  show ?amount by (simp add: h add_saturating_value)
  have "unat release \<le> 18446744073709551615" using unat_u64_less [of release] by linarith
  then show ?order by (simp add: h u64_le_nat add_saturating_value)
  show ?identity
    using assms by (auto simp: make_hint_def hint_zero_def split: sum.splits option.splits)
qed

definition late_profile :: callback_profile where
  "late_profile = \<lparr>p_stage_id = 1, p_class_id = 1, p_relative_deadline_ns = 50, p_stale_ns = 7,
     p_budget_ns = 0, p_slice_ns = 0, p_weight = 0, p_reject_expired = True\<rparr>"

definition late_metadata :: message_metadata where
  "late_metadata = \<lparr>md_job_id = 3, md_release_ts_ns = - 10\<rparr>"

theorem make_hint_deadline_witness:
  "\<exists>h. make_hint late_profile (Some late_metadata) (Inr 0) 1 = (Inr h, 1) \<and>
     unat (h_deadline_ts_ns h) = 18446744073709551615 \<and> h_release_ts_ns h \<le> h_deadline_ts_ns h"
proof -
  obtain h where h: "make_hint late_profile (Some late_metadata) (Inr 0) 1 = (Inr h, 1)"
    by (simp add: make_hint_def)
  have r: "h_release_ts_ns h = - 10"
    using make_hint_deadline [OF h] by (simp add: late_metadata_def)
  have u: "unat (- 10 :: u64) = 18446744073709551606" by (simp add: unat_word_ariths)
  have "unat (h_deadline_ts_ns h) = 18446744073709551615"
    using make_hint_deadline [OF h] r u by (simp add: late_profile_def)
  moreover have "h_release_ts_ns h \<le> h_deadline_ts_ns h"
    using make_hint_deadline [OF h] by (auto simp: late_profile_def)
  ultimately show ?thesis using h by blast
qed

text \<open>
  Expiry agrees with unbounded arithmetic: the unsigned subtraction of the age test is guarded,
  so a hint is expired exactly when the time is past its deadline, or past its release by more than
  its stale age. Once expired, a hint stays expired.
\<close>

theorem hint_expired_exact:
  "(hint_expired now h \<longleftrightarrow>
      (h_deadline_ts_ns h \<noteq> 0 \<and> unat now > unat (h_deadline_ts_ns h)) \<or>
      (h_stale_ns h \<noteq> 0 \<and> unat now > unat (h_release_ts_ns h) + unat (h_stale_ns h))) \<and>
   (hint_expired now h \<and> now \<le> later \<longrightarrow> hint_expired later h)"
proof -
  have exact: "hint_expired t h \<longleftrightarrow>
     (h_deadline_ts_ns h \<noteq> 0 \<and> unat t > unat (h_deadline_ts_ns h)) \<or>
     (h_stale_ns h \<noteq> 0 \<and> unat t > unat (h_release_ts_ns h) + unat (h_stale_ns h))" for t
  proof -
    have "unat (t - h_release_ts_ns h) = unat t - unat (h_release_ts_ns h)"
      if "t > h_release_ts_ns h" using that by (simp add: unat_sub_u64)
    then have "(t > h_release_ts_ns h \<and> t - h_release_ts_ns h > h_stale_ns h) \<longleftrightarrow>
        unat t > unat (h_release_ts_ns h) + unat (h_stale_ns h)"
      by (auto simp: u64_less_nat)
    then show ?thesis by (auto simp: hint_expired_def u64_less_nat)
  qed
  show ?thesis by (auto simp: exact u64_le_nat)
qed

theorem hint_expired_exact_witness:
  "hint_expired 121 (hint_zero\<lparr>h_release_ts_ns := 100, h_stale_ns := 10\<rparr>)"
proof -
  have "hint_expired 120 (hint_zero\<lparr>h_release_ts_ns := 100, h_stale_ns := 10\<rparr>)"
    by (simp add: hint_expired_def word_less_nat_alt)
  with hint_expired_exact [of 120 _ 121] show ?thesis by (simp add: word_le_nat_alt)
qed

text \<open>
  The transport projection of the ablation never touches the identity of a job (number, release,
  flags), leaves every hint alone outside its two modes, projecting twice is projecting once, and in
  imu-only mode every hint it lets through to the scheduler is the IMU stage's own or carries no
  timing at all.
\<close>

theorem project_hint_contract:
  "h_job_id (project_hint abi h mode) = h_job_id h \<and>
   h_release_ts_ns (project_hint abi h mode) = h_release_ts_ns h \<and>
   h_flags (project_hint abi h mode) = h_flags h \<and>
   project_hint abi (project_hint abi h mode) mode = project_hint abi h mode \<and>
   (mode \<noteq> ''imu-only'' \<and> mode \<noteq> ''fe-only'' \<longrightarrow> project_hint abi h mode = h) \<and>
   (mode = ''imu-only'' \<and> h_stage_id (project_hint abi h mode) \<noteq> SLAM_STAGE_IMU_PREINT \<longrightarrow>
      h_class_id (project_hint abi h mode) = FRESH_CLASS_BACKGROUND abi \<and>
      \<not> hint_expired now (project_hint abi h mode))"
  by (auto simp: project_hint_def hint_expired_def stage_defs)

theorem project_hint_contract_witness:
  "\<not> hint_expired 500 (project_hint \<lparr>FRESH_STAGE_UNSPECIFIED = 255, FRESH_CLASS_BACKGROUND = 0,
       FRESH_CLASS_DEADLINE = 1, FRESH_CLASS_URGENT = 2\<rparr>
     (hint_zero\<lparr>h_stage_id := 3, h_deadline_ts_ns := 100\<rparr>) ''imu-only'') \<and>
   project_hint \<lparr>FRESH_STAGE_UNSPECIFIED = 255, FRESH_CLASS_BACKGROUND = 0,
       FRESH_CLASS_DEADLINE = 1, FRESH_CLASS_URGENT = 2\<rparr> hint_zero ''full'' = hint_zero"
proof
  let ?abi = "\<lparr>FRESH_STAGE_UNSPECIFIED = 255, FRESH_CLASS_BACKGROUND = 0,
    FRESH_CLASS_DEADLINE = 1, FRESH_CLASS_URGENT = 2\<rparr>"
  show "\<not> hint_expired 500 (project_hint ?abi
      (hint_zero\<lparr>h_stage_id := 3, h_deadline_ts_ns := 100\<rparr>) ''imu-only'')"
    using project_hint_contract [of ?abi "hint_zero\<lparr>h_stage_id := 3, h_deadline_ts_ns := 100\<rparr>"
      "''imu-only''" 500]
    by (simp add: project_hint_def stage_defs)
  show "project_hint ?abi hint_zero ''full'' = hint_zero"
    using project_hint_contract [of ?abi hint_zero "''full''" 0] by simp
qed

end
