(* ===== verification/Freshness_Executor.thy ===== *)
theory Freshness_Executor
  imports Hints
begin

text \<open>
  The single-worker executor of
  \<^verbatim>\<open>src/ros2/scx_slam_executor/src/freshness_executor.cpp\<close>: the profile registry, the preparation
  of one selected executable, and \<open>spin()\<close> as two interleaved threads, the dispatcher and the
  worker. Each step is one critical section, one call that leaves the executor, or one
  notification; \<open>condition.wait\<close> puts its thread to sleep until a notification (or a spurious wake-up)
  and then tests its predicate again.

  What rclcpp, the callbacks and the kernel answer is an input of the step: the executable returned
  by \<open>get_next_executable\<close>, the outcome of \<open>create_message\<close>, \<open>take_type_erased\<close>, \<open>handle_message\<close>,
  \<open>execute_any_executable\<close>, the clock. Metadata extractors and observers are functions in the
  registry, as in the code. \<open>dtor\<close> is the destructor of \<open>rclcpp::AnyExecutable\<close>.
\<close>

section \<open>Data\<close>

record worker_config =
  wc_sched_ext_policy :: int
  wc_cpu :: int

text \<open>What \<open>get_delivered_message_kind\<close> answers, as far as the executor distinguishes it.\<close>

datatype delivered_kind = ROS_MESSAGE | OTHER_KIND

text \<open>The members of \<open>rclcpp::AnyExecutable\<close> in use: callback group and subscription, either absent.\<close>

record any_executable =
  ex_callback_group :: "nat option"
  ex_subscription :: "delivered_kind option"

type_synonym extractor = "nat \<Rightarrow> message_metadata res"
type_synonym observer = "nat option \<Rightarrow> message_event \<Rightarrow> unit res"

record profile_binding =
  pb_profile :: callback_profile
  pb_metadata_extractor :: "extractor option"
  pb_observer :: "observer option"

definition default_binding :: "fresh_abi \<Rightarrow> profile_binding" where
  "default_binding abi =
     \<lparr>pb_profile = default_profile abi, pb_metadata_extractor = None, pb_observer = None\<rparr>"

text \<open>\<open>message_info\<close> is only allocated and handed on; the flag says that it was allocated.\<close>

record pending_work =
  w_executable :: any_executable
  w_hint :: fresh_task_hint
  w_message :: "nat option"
  w_message_info :: bool
  w_observer :: "observer option"
  w_reject_expired :: bool

text \<open>Where each thread stands. \<open>exn option\<close> is the local \<open>dispatch_error\<close>.\<close>

datatype dispatcher_pc =
    D_wait_ready
  | D_test
  | D_wait_idle
  | D_select
  | D_publish pending_work
  | D_handoff pending_work
  | D_notify_work
  | D_stop "exn option"
  | D_shutdown "exn option"
  | D_notify_stop "exn option"
  | D_join "exn option"
  | D_done "unit res"

datatype worker_pc =
    W_configure
  | W_register
  | W_notify_ready
  | W_park
  | W_wait
  | W_run pending_work
  | W_failed exn
  | W_cleared exn
  | W_outer exn
  | W_notify_error
  | W_cancel
  | W_done

text \<open>
  The members of \<open>Impl\<close>, the flag \<open>spinning\<close> of \<open>rclcpp::Executor\<close>, the state of the sink, the
  callback groups whose \<open>can_be_taken_from()\<close> is false, the messages created and not returned, and
  the two threads with their sleep in \<open>condition.wait\<close>.
\<close>

record 's executor =
  x_pending :: "pending_work option"
  x_worker_ready :: bool
  x_worker_idle :: bool
  x_hint_needs_clear :: bool
  x_stop :: bool
  x_worker_id :: u64
  x_worker_error :: "exn option"
  x_profiles :: "nat \<Rightarrow> profile_binding option"
  x_next_job_id :: u64
  x_spinning :: bool
  x_sink :: 's
  x_taken :: "nat set"
  x_messages :: "nat list"
  x_dispatcher :: dispatcher_pc
  x_worker :: worker_pc
  x_dsleep :: bool
  x_wsleep :: bool

section \<open>Configuration of the worker thread\<close>

definition CPU_SETSIZE :: int where "CPU_SETSIZE = 1024"

text \<open>
  The three system calls are arguments: \<open>pthread_setaffinity_np\<close> for one CPU and
  \<open>pthread_setname_np\<close> answer an error number, \<open>sched_setattr\<close> an \<open>errno\<close> if it fails.
\<close>

definition configure_worker ::
  "(int \<Rightarrow> int) \<Rightarrow> (u32 \<Rightarrow> int option) \<Rightarrow> (string \<Rightarrow> int) \<Rightarrow> worker_config \<Rightarrow> unit res" where
  "configure_worker setaffinity setattr setname config =
     (let affinity =
        (if wc_cpu config \<ge> 0 then
           if wc_cpu config \<ge> CPU_SETSIZE then
             Inl (Invalid_argument ''worker CPU is outside cpu_set_t'')
           else if setaffinity (wc_cpu config) \<noteq> 0 then
             Inl (System_error (setaffinity (wc_cpu config)) ''pthread_setaffinity_np'')
           else Inr ()
         else Inr ());
      policy =
        (if wc_sched_ext_policy config \<ge> 0 then
           case setattr (word_of_int (wc_sched_ext_policy config)) of
             Some errno \<Rightarrow> Inl (System_error errno ''sched_setattr(SCHED_EXT)'')
           | None \<Rightarrow> Inr ()
         else Inr ());
      name_error = setname ''scx_ros_worker''
      in case affinity of Inl e \<Rightarrow> Inl e | Inr _ \<Rightarrow>
         (case policy of Inl e \<Rightarrow> Inl e | Inr _ \<Rightarrow>
          if name_error \<noteq> 0 then Inl (System_error name_error ''pthread_setname_np'')
          else Inr ()))"

section \<open>Registry\<close>

text \<open>
  \<open>base\<close> is the outcome of the inherited \<open>rclcpp::Executor\<close> call of the same name. A null pointer is
  \<open>None\<close>, the node only matters as null or not.
\<close>

definition add_callback_group_with_profile ::
  "fresh_abi \<Rightarrow> unit res \<Rightarrow> nat option \<Rightarrow> bool \<Rightarrow> callback_profile \<Rightarrow> 's executor \<Rightarrow>
   unit res \<times> 's executor" where
  "add_callback_group_with_profile abi base grp node profile x =
     (case grp of
        None \<Rightarrow> (Inl (Invalid_argument ''callback group and node must be non-null''), x)
      | Some g \<Rightarrow>
          if \<not> node then (Inl (Invalid_argument ''callback group and node must be non-null''), x)
          else if x_spinning x then
            (Inl (Runtime_error
               ''callback profiles cannot change while the executor is spinning''), x)
          else if p_class_id profile \<noteq> FRESH_CLASS_BACKGROUND abi \<and>
                  p_class_id profile \<noteq> FRESH_CLASS_DEADLINE abi \<and>
                  p_class_id profile \<noteq> FRESH_CLASS_URGENT abi then
            (Inl (Invalid_argument ''callback profile has an invalid class_id''), x)
          else (case base of
                  Inl e \<Rightarrow> (Inl e, x)
                | Inr _ \<Rightarrow> (Inr (), x\<lparr>x_profiles := (x_profiles x)(g \<mapsto>
                    \<lparr>pb_profile = profile, pb_metadata_extractor = None, pb_observer = None\<rparr>)\<rparr>)))"

text \<open>\<open>profiles[group]\<close> default-constructs an absent binding.\<close>

definition profiles_at :: "fresh_abi \<Rightarrow> 's executor \<Rightarrow> nat \<Rightarrow> profile_binding" where
  "profiles_at abi x g = (case x_profiles x g of Some b \<Rightarrow> b | None \<Rightarrow> default_binding abi)"

definition add_subscription_callback_group_with_erased_metadata ::
  "fresh_abi \<Rightarrow> unit res \<Rightarrow> nat option \<Rightarrow> bool \<Rightarrow> callback_profile \<Rightarrow> extractor option \<Rightarrow>
   observer option \<Rightarrow> 's executor \<Rightarrow> unit res \<times> 's executor" where
  "add_subscription_callback_group_with_erased_metadata abi base grp node profile ext ob x =
     (if ext = None then
        (Inl (Invalid_argument ''subscription metadata extractor must be callable''), x)
      else case add_callback_group_with_profile abi base grp node profile x of
        (Inl e, y) \<Rightarrow> (Inl e, y)
      | (Inr _, y) \<Rightarrow>
          (Inr (), y\<lparr>x_profiles := (x_profiles y)(the grp \<mapsto>
             (profiles_at abi y (the grp))
               \<lparr>pb_metadata_extractor := ext, pb_observer := ob\<rparr>)\<rparr>))"

definition remove_callback_group ::
  "unit res \<Rightarrow> nat option \<Rightarrow> 's executor \<Rightarrow> unit res \<times> 's executor" where
  "remove_callback_group base grp x =
     (if x_spinning x then
        (Inl (Runtime_error
           ''callback profiles cannot change while the executor is spinning''), x)
      else case base of
        Inl e \<Rightarrow> (Inl e, x)
      | Inr _ \<Rightarrow> (Inr (), case grp of None \<Rightarrow> x
                     | Some g \<Rightarrow> x\<lparr>x_profiles := (x_profiles x)(g := None)\<rparr>))"

definition binding_for :: "fresh_abi \<Rightarrow> any_executable \<Rightarrow> 's executor \<Rightarrow> profile_binding" where
  "binding_for abi e x =
     (case ex_callback_group e of
        None \<Rightarrow> default_binding abi
      | Some g \<Rightarrow> (case x_profiles x g of None \<Rightarrow> default_binding abi | Some b \<Rightarrow> b))"

section \<open>Ownership of groups and messages\<close>

definition release_callback_group ::
  "any_executable \<Rightarrow> 's executor \<Rightarrow> any_executable \<times> 's executor" where
  "release_callback_group e x =
     (case ex_callback_group e of
        None \<Rightarrow> (e, x)
      | Some g \<Rightarrow> (e\<lparr>ex_callback_group := None\<rparr>, x\<lparr>x_taken := x_taken x - {g}\<rparr>))"

definition return_taken_message :: "pending_work \<Rightarrow> 's executor \<Rightarrow> pending_work \<times> 's executor" where
  "return_taken_message w x =
     (case w_message w of
        None \<Rightarrow> (w, x)
      | Some m \<Rightarrow>
          if ex_subscription (w_executable w) = None then (w, x)
          else (w\<lparr>w_message := None\<rparr>, x\<lparr>x_messages := remove1 m (x_messages x)\<rparr>))"

text \<open>The pair of calls every exit path makes.\<close>

definition give_up :: "pending_work \<Rightarrow> 's executor \<Rightarrow> pending_work \<times> 's executor" where
  "give_up w x =
     (let (w1, x1) = return_taken_message w x;
          (e, x2) = release_callback_group (w_executable w1) x1
      in (w1\<lparr>w_executable := e\<rparr>, x2))"

definition observe :: "pending_work \<Rightarrow> message_event \<Rightarrow> unit res" where
  "observe w ev = (case w_observer w of None \<Rightarrow> Inr () | Some ob \<Rightarrow> ob (w_message w) ev)"

definition expired :: "u64 res \<Rightarrow> pending_work \<Rightarrow> bool res" where
  "expired now w =
     (if \<not> w_reject_expired w then Inr False
      else case now of Inl e \<Rightarrow> Inl e | Inr t \<Rightarrow> Inr (hint_expired t (w_hint w)))"

definition drop_work ::
  "pending_work \<Rightarrow> 's executor \<Rightarrow> unit res \<times> pending_work \<times> 's executor" where
  "drop_work w x =
     (case observe w DroppedBeforeStart of
        Inl e \<Rightarrow> (Inl e, w, x)
      | Inr _ \<Rightarrow> (Inr (), give_up w x))"

text \<open>\<open>handled\<close> is the outcome of \<open>handle_message\<close>.\<close>

definition execute_taken_subscription ::
  "unit res \<Rightarrow> pending_work \<Rightarrow> 's executor \<Rightarrow> unit res \<times> pending_work \<times> 's executor" where
  "execute_taken_subscription handled w x =
     (case handled of
        Inl e \<Rightarrow> (Inl e, give_up w x)
      | Inr _ \<Rightarrow> (Inr (), give_up w x))"

definition clear_completed_hint ::
  "'s sink_ops \<Rightarrow> 's executor \<Rightarrow> unit res \<times> 's executor" where
  "clear_completed_hint sink x =
     (if x_hint_needs_clear x then
        case sk_clear sink (x_worker_id x) (x_sink x) of
          (Inl e, s) \<Rightarrow> (Inl e, x\<lparr>x_sink := s\<rparr>)
        | (Inr _, s) \<Rightarrow> (Inr (), x\<lparr>x_sink := s, x_hint_needs_clear := False\<rparr>)
      else (Inr (), x))"

section \<open>The dispatcher\<close>

text \<open>
  What the world answers during one dispatcher step. \<open>Next e m\<close>: \<open>get_next_executable\<close> filled \<open>e\<close>
  and, for a mutually exclusive group (\<open>m\<close>), marked the group as taken.
\<close>

datatype next_result =
    No_executable
  | Next_throws exn
  | Next any_executable bool

record dispatcher_env =
  de_ok :: bool
  de_next :: next_result
  de_create :: "nat res"
  de_take :: "bool res"
  de_now_hint :: "u64 res"
  de_now_expiry :: "u64 res"

text \<open>What becomes of a selected executable before its hint is published.\<close>

datatype prepared = P_continue | P_throw exn | P_publish pending_work

definition fail :: "exn \<Rightarrow> pending_work \<Rightarrow> 's executor \<Rightarrow> prepared \<times> 's executor" where
  "fail e w x = (P_throw e, snd (give_up w x))"

definition new_work :: "any_executable \<Rightarrow> pending_work" where
  "new_work e = \<lparr>w_executable = e, w_hint = hint_zero, w_message = None, w_message_info = False,
     w_observer = None, w_reject_expired = False\<rparr>"

text \<open>From the metadata of a taken message to the admission decision (lines 477 to 491).\<close>

definition admit ::
  "dispatcher_env \<Rightarrow> profile_binding \<Rightarrow> message_metadata \<Rightarrow> pending_work \<Rightarrow> 's executor \<Rightarrow>
   prepared \<times> 's executor" where
  "admit env b md w x =
     (if md_job_id md = 0 \<or> md_release_ts_ns md = 0 then
        fail (Runtime_error
          ''message metadata must contain nonzero job_id and release_ts_ns'') w x
      else case make_hint (pb_profile b) (Some md) (de_now_hint env) (x_next_job_id x) of
        (Inl e, j) \<Rightarrow> fail e w x
      | (Inr h, j) \<Rightarrow>
          (let y = x\<lparr>x_next_job_id := j\<rparr>;
               v = w\<lparr>w_hint := h, w_reject_expired := p_reject_expired (pb_profile b),
                     w_observer := pb_observer b\<rparr>
           in case observe v Selected of
                Inl e \<Rightarrow> fail e v y
              | Inr _ \<Rightarrow>
                  (case expired (de_now_expiry env) v of
                     Inl e \<Rightarrow> fail e v y
                   | Inr False \<Rightarrow> (P_publish v, y)
                   | Inr True \<Rightarrow>
                       (case drop_work v y of
                          (Inl e, v', y') \<Rightarrow> fail e v' y'
                        | (Inr _, v', y') \<Rightarrow> (P_continue, y')))))"

text \<open>The \<open>try\<close> block of the dispatch loop up to the publication (lines 449 to 494).\<close>

definition prepare ::
  "fresh_abi \<Rightarrow> dispatcher_env \<Rightarrow> any_executable \<Rightarrow> 's executor \<Rightarrow> prepared \<times> 's executor" where
  "prepare abi env e x =
     (let b = binding_for abi e x; w = new_work e
      in case pb_metadata_extractor b of
           None \<Rightarrow>
             (case make_hint (pb_profile b) None (de_now_hint env) (x_next_job_id x) of
                (Inl err, j) \<Rightarrow> fail err w x
              | (Inr h, j) \<Rightarrow> (P_publish (w\<lparr>w_hint := h\<rparr>), x\<lparr>x_next_job_id := j\<rparr>))
         | Some ext \<Rightarrow>
             (case ex_subscription e of
                None \<Rightarrow> fail (Runtime_error
                  ''message metadata extractor registered for a non-subscription callback'') w x
              | Some OTHER_KIND \<Rightarrow> fail (Runtime_error
                  ''message-aware handoff supports normal ROS messages only'') w x
              | Some ROS_MESSAGE \<Rightarrow>
                  (case de_create env of
                     Inl err \<Rightarrow> fail err w x
                   | Inr m \<Rightarrow>
                       (let v = w\<lparr>w_message := Some m, w_message_info := True\<rparr>;
                            y = x\<lparr>x_messages := m # x_messages x\<rparr>
                        in case de_take env of
                             Inl err \<Rightarrow> fail err v y
                           | Inr False \<Rightarrow> (P_continue, snd (give_up v y))
                           | Inr True \<Rightarrow>
                               (case ext m of
                                  Inl err \<Rightarrow> fail err v y
                                | Inr md \<Rightarrow> admit env b md v y)))))"

text \<open>The body of the dispatch loop from \<open>get_next_executable\<close> to the publication.\<close>

definition select_next :: "fresh_abi \<Rightarrow> dispatcher_env \<Rightarrow> 's executor \<Rightarrow> 's executor" where
  "select_next abi env x =
     (case de_next env of
        No_executable \<Rightarrow> x\<lparr>x_dispatcher := D_test\<rparr>
      | Next_throws e \<Rightarrow> x\<lparr>x_dispatcher := D_stop (Some e)\<rparr>
      | Next e mark \<Rightarrow>
          (let y = (if mark then x\<lparr>x_taken := x_taken x \<union> set_option (ex_callback_group e)\<rparr> else x)
           in case prepare abi env e y of
                (P_continue, z) \<Rightarrow> z\<lparr>x_dispatcher := D_test\<rparr>
              | (P_throw err, z) \<Rightarrow> z\<lparr>x_dispatcher := D_stop (Some err)\<rparr>
              | (P_publish w, z) \<Rightarrow> z\<lparr>x_dispatcher := D_publish w\<rparr>))"

text \<open>
  Entry of \<open>spin()\<close>: the guard, the reset under the mutex, the start of the worker. \<open>start\<close> is what the
  constructor of \<open>std::thread\<close> does: when it throws, \<open>spinning\<close> stays set and no thread runs.
\<close>

definition spin_begin :: "unit res \<Rightarrow> 's executor \<Rightarrow> unit res \<times> 's executor" where
  "spin_begin start x =
     (if x_spinning x then
        (Inl (Runtime_error ''FreshnessExecutor::spin() called while already spinning''), x)
      else
        (let y = x\<lparr>x_spinning := True, x_pending := None, x_worker_ready := False,
               x_worker_idle := False, x_hint_needs_clear := False, x_stop := False,
               x_worker_id := 0, x_worker_error := None\<rparr>
         in case start of
              Inl e \<Rightarrow> (Inl e, y)
            | Inr _ \<Rightarrow> (Inr (), y\<lparr>x_dispatcher := D_wait_ready, x_worker := W_configure,
                x_dsleep := False, x_wsleep := False\<rparr>)))"

text \<open>\<open>cancel()\<close>, inherited from \<open>rclcpp::Executor\<close>, as far as this class reads its effect.\<close>

abbreviation cancel_call :: "'s executor \<Rightarrow> 's executor" where
  "cancel_call x \<equiv> x\<lparr>x_spinning := False\<rparr>"

definition notify_all :: "'s executor \<Rightarrow> 's executor" where
  "notify_all x = x\<lparr>x_dsleep := False, x_wsleep := False\<rparr>"

text \<open>
  One dispatcher step, \<open>None\<close> while the thread sleeps, waits in \<open>join\<close> or has returned. An exception
  of the loop reaches \<open>D_stop\<close> as \<open>dispatch_error\<close>.
\<close>

definition dispatcher_step ::
  "fresh_abi \<Rightarrow> 's sink_ops \<Rightarrow> dispatcher_env \<Rightarrow> 's executor \<Rightarrow> 's executor option" where
  "dispatcher_step abi sink env x =
     (if x_dsleep x then None
      else case x_dispatcher x of
        D_wait_ready \<Rightarrow>
          Some (if \<not> x_worker_ready x then x\<lparr>x_dsleep := True\<rparr>
                else case x_worker_error x of
                       Some e \<Rightarrow> x\<lparr>x_dispatcher := D_stop (Some e)\<rparr>
                     | None \<Rightarrow> x\<lparr>x_dispatcher := D_test\<rparr>)
      | D_test \<Rightarrow>
          Some (if de_ok env \<and> x_spinning x then x\<lparr>x_dispatcher := D_wait_idle\<rparr>
                else x\<lparr>x_dispatcher := D_stop None\<rparr>)
      | D_wait_idle \<Rightarrow>
          Some (if \<not> (x_worker_idle x \<or> x_worker_error x \<noteq> None \<or> \<not> x_spinning x)
                then x\<lparr>x_dsleep := True\<rparr>
                else case x_worker_error x of
                       Some e \<Rightarrow> x\<lparr>x_dispatcher := D_stop (Some e)\<rparr>
                     | None \<Rightarrow> if \<not> x_spinning x then x\<lparr>x_dispatcher := D_stop None\<rparr>
                               else x\<lparr>x_dispatcher := D_select\<rparr>)
      | D_select \<Rightarrow> Some (select_next abi env x)
      | D_publish w \<Rightarrow>
          Some (case sk_publish sink (x_worker_id x) (w_hint w) (x_sink x) of
                  (Inl e, s) \<Rightarrow>
                    (snd (give_up w (x\<lparr>x_sink := s\<rparr>)))\<lparr>x_dispatcher := D_stop (Some e)\<rparr>
                | (Inr _, s) \<Rightarrow> x\<lparr>x_sink := s, x_dispatcher := D_handoff w\<rparr>)
      | D_handoff w \<Rightarrow>
          Some (x\<lparr>x_worker_idle := False, x_hint_needs_clear := True, x_pending := Some w,
                  x_dispatcher := D_notify_work\<rparr>)
      | D_notify_work \<Rightarrow> Some ((notify_all x)\<lparr>x_dispatcher := D_test\<rparr>)
      | D_stop err \<Rightarrow> Some (x\<lparr>x_spinning := False, x_dispatcher := D_shutdown err\<rparr>)
      | D_shutdown err \<Rightarrow>
          Some (if \<not> (x_worker_idle x \<or> x_worker_error x \<noteq> None) then x\<lparr>x_dsleep := True\<rparr>
                else case clear_completed_hint sink x of
                       (Inl e, y) \<Rightarrow> y\<lparr>x_stop := True, x_dispatcher :=
                         D_notify_stop (case err of None \<Rightarrow> Some e | Some d \<Rightarrow> Some d)\<rparr>
                     | (Inr _, y) \<Rightarrow> y\<lparr>x_stop := True, x_dispatcher := D_notify_stop err\<rparr>)
      | D_notify_stop err \<Rightarrow> Some ((notify_all x)\<lparr>x_dispatcher := D_join err\<rparr>)
      | D_join err \<Rightarrow>
          if x_worker x \<noteq> W_done then None
          else Some (x\<lparr>x_dispatcher := D_done (case err of
                       Some e \<Rightarrow> Inl e
                     | None \<Rightarrow> (case x_worker_error x of Some e \<Rightarrow> Inl e | None \<Rightarrow> Inr ()))\<rparr>)
      | D_done r \<Rightarrow> None)"

section \<open>The worker\<close>

record worker_env =
  we_setaffinity :: "int \<Rightarrow> int"
  we_setattr :: "u32 \<Rightarrow> int option"
  we_setname :: "string \<Rightarrow> int"
  we_self :: u64
  we_now :: "u64 res"
  we_handled :: "unit res"
  we_executed :: "unit res"
  we_released :: bool
  we_cancelled :: bool

text \<open>
  The body of the inner \<open>try\<close> and, for an exception, the two calls of its handler (lines 379 to
  391). \<open>execute_any_executable\<close> may itself have released the group (\<open>we_released\<close>).
\<close>

definition run_work ::
  "worker_env \<Rightarrow> pending_work \<Rightarrow> 's executor \<Rightarrow> unit res \<times> pending_work \<times> 's executor" where
  "run_work env w x =
     (case (if w_message w \<noteq> None then
              (case expired (we_now env) w of
                 Inl e \<Rightarrow> (Inl e, w, x)
               | Inr True \<Rightarrow> drop_work w x
               | Inr False \<Rightarrow> execute_taken_subscription (we_handled env) w x)
            else (we_executed env, w,
                  if we_released env
                  then x\<lparr>x_taken := x_taken x - set_option (ex_callback_group (w_executable w))\<rparr>
                  else x)) of
        (Inl e, v, y) \<Rightarrow> (Inl e, give_up v y)
      | (Inr _, v, y) \<Rightarrow> (Inr (), v, y))"

text \<open>
  One worker step, \<open>None\<close> while the thread sleeps or has ended. Leaving the loop body destroys
  \<open>work\<close>, hence its executable.
\<close>

definition worker_step ::
  "'s sink_ops \<Rightarrow> worker_config \<Rightarrow> (nat option \<Rightarrow> nat set \<Rightarrow> nat set) \<Rightarrow> worker_env \<Rightarrow> 's executor \<Rightarrow>
   's executor option" where
  "worker_step sink config dtor env x =
     (if x_wsleep x then None
      else case x_worker x of
        W_configure \<Rightarrow>
          Some (case configure_worker (we_setaffinity env) (we_setattr env) (we_setname env) config of
                  Inl e \<Rightarrow> x\<lparr>x_worker := W_outer e\<rparr>
                | Inr _ \<Rightarrow> x\<lparr>x_worker := W_register\<rparr>)
      | W_register \<Rightarrow>
          Some (x\<lparr>x_worker_id := we_self env, x_worker_ready := True, x_worker := W_notify_ready\<rparr>)
      | W_notify_ready \<Rightarrow> Some ((notify_all x)\<lparr>x_worker := W_park\<rparr>)
      | W_park \<Rightarrow> Some ((notify_all x)\<lparr>x_worker_idle := True, x_worker := W_wait\<rparr>)
      | W_wait \<Rightarrow>
          Some (case x_pending x of
                  Some w \<Rightarrow> x\<lparr>x_pending := None, x_worker := W_run w\<rparr>
                | None \<Rightarrow> if x_stop x then x\<lparr>x_worker := W_done\<rparr> else x\<lparr>x_wsleep := True\<rparr>)
      | W_run w \<Rightarrow>
          Some (case run_work env w x of
                  (Inl e, v, y) \<Rightarrow> y\<lparr>x_taken := dtor (ex_callback_group (w_executable v)) (x_taken y),
                                    x_worker := W_failed e\<rparr>
                | (Inr _, v, y) \<Rightarrow> y\<lparr>x_taken := dtor (ex_callback_group (w_executable v)) (x_taken y),
                                    x_worker := W_park\<rparr>)
      | W_failed e \<Rightarrow>
          Some (case sk_clear sink (x_worker_id x) (x_sink x) of
                  (Inl e', s) \<Rightarrow> x\<lparr>x_sink := s, x_worker := W_outer e'\<rparr>
                | (Inr _, s) \<Rightarrow> x\<lparr>x_sink := s, x_worker := W_cleared e\<rparr>)
      | W_cleared e \<Rightarrow> Some (x\<lparr>x_hint_needs_clear := False, x_worker := W_outer e\<rparr>)
      | W_outer e \<Rightarrow>
          Some (x\<lparr>x_worker_error := Some e, x_worker_ready := True, x_worker_idle := True,
                  x_stop := True, x_worker := W_notify_error\<rparr>)
      | W_notify_error \<Rightarrow> Some ((notify_all x)\<lparr>x_worker := W_cancel\<rparr>)
      | W_cancel \<Rightarrow>
          Some (x\<lparr>x_spinning := (x_spinning x \<and> \<not> we_cancelled env), x_worker := W_done\<rparr>)
      | W_done \<Rightarrow> None)"

definition worker_pid_tgid :: "'s executor \<Rightarrow> u64" where
  "worker_pid_tgid x = x_worker_id x"

section \<open>Interleaving\<close>

text \<open>Calls of other threads while \<open>spin()\<close> is active, besides \<open>cancel()\<close>.\<close>

datatype client_call =
    Add_group "unit res" "nat option" bool callback_profile
  | Add_subscription "unit res" "nat option" bool callback_profile "extractor option" "observer option"
  | Remove_group "unit res" "nat option"

fun client :: "fresh_abi \<Rightarrow> client_call \<Rightarrow> 's executor \<Rightarrow> unit res \<times> 's executor" where
  "client abi (Add_group base g n p) x = add_callback_group_with_profile abi base g n p x"
| "client abi (Add_subscription base g n p ext ob) x =
     add_subscription_callback_group_with_erased_metadata abi base g n p ext ob x"
| "client abi (Remove_group base g) x = remove_callback_group base g x"

text \<open>
  The steps of the two threads; \<open>exec_step\<close> adds what may happen at any time: a call of \<open>cancel()\<close>,
  a registry call, a spurious wake-up.
\<close>

inductive thread_step ::
  "fresh_abi \<Rightarrow> 's sink_ops \<Rightarrow> worker_config \<Rightarrow> (nat option \<Rightarrow> nat set \<Rightarrow> nat set) \<Rightarrow>
   's executor \<Rightarrow> 's executor \<Rightarrow> bool"
  for abi :: fresh_abi and sink :: "'s sink_ops" and config :: worker_config
    and dtor :: "nat option \<Rightarrow> nat set \<Rightarrow> nat set" where
  dispatch: "dispatcher_step abi sink denv x = Some y \<Longrightarrow> thread_step abi sink config dtor x y"
| work: "worker_step sink config dtor wenv x = Some y \<Longrightarrow> thread_step abi sink config dtor x y"

inductive exec_step ::
  "fresh_abi \<Rightarrow> 's sink_ops \<Rightarrow> worker_config \<Rightarrow> (nat option \<Rightarrow> nat set \<Rightarrow> nat set) \<Rightarrow>
   's executor \<Rightarrow> 's executor \<Rightarrow> bool"
  for abi :: fresh_abi and sink :: "'s sink_ops" and config :: worker_config
    and dtor :: "nat option \<Rightarrow> nat set \<Rightarrow> nat set" where
  thread: "thread_step abi sink config dtor x y \<Longrightarrow> exec_step abi sink config dtor x y"
| cancel: "exec_step abi sink config dtor x (cancel_call x)"
| client: "exec_step abi sink config dtor x (snd (client abi call x))"
| wake_dispatcher: "exec_step abi sink config dtor x (x\<lparr>x_dsleep := False\<rparr>)"
| wake_worker: "exec_step abi sink config dtor x (x\<lparr>x_wsleep := False\<rparr>)"

text \<open>
  A call of \<open>spin()\<close> that passed its guard, on an executor that owns no group and no message, with
  the sink in state \<open>s0\<close>.
\<close>

definition spin_entry :: "'s \<Rightarrow> 's executor \<Rightarrow> bool" where
  "spin_entry s0 x \<longleftrightarrow>
     (\<exists>start x0. spin_begin start x0 = (Inr (), x) \<and> x_sink x0 = s0 \<and> x_taken x0 = {} \<and> x_messages x0 = [])"

text \<open>The destructor of \<open>AnyExecutable\<close>: it gives back the group the object still refers to.\<close>

definition releases_group :: "(nat option \<Rightarrow> nat set \<Rightarrow> nat set) \<Rightarrow> bool" where
  "releases_group dtor \<longleftrightarrow> (\<forall>g T. dtor g T = T - set_option g)"

section \<open>Invariants\<close>

text \<open>Control: what each thread's position says about the shared flags.\<close>

definition parked :: "'s executor \<Rightarrow> bool" where
  "parked x \<longleftrightarrow> x_worker x = W_wait \<and> x_worker_ready x \<and> x_worker_idle x \<and> x_pending x = None \<and>
     x_worker_error x = None \<and> \<not> x_stop x"

definition stop_explained :: "'s executor \<Rightarrow> bool" where
  "stop_explained x \<longleftrightarrow> (x_stop x \<longrightarrow> x_worker_error x \<noteq> None)"

definition worker_inv :: "'s executor \<Rightarrow> bool" where
  "worker_inv x =
     (case x_worker x of
        W_configure \<Rightarrow> x_dispatcher x = D_wait_ready \<and> \<not> x_worker_ready x \<and> \<not> x_worker_idle x \<and>
          x_pending x = None \<and> x_worker_error x = None \<and> \<not> x_stop x \<and> \<not> x_hint_needs_clear x
      | W_register \<Rightarrow> x_dispatcher x = D_wait_ready \<and> \<not> x_worker_ready x \<and> \<not> x_worker_idle x \<and>
          x_pending x = None \<and> x_worker_error x = None \<and> \<not> x_stop x \<and> \<not> x_hint_needs_clear x
      | W_notify_ready \<Rightarrow> x_worker_ready x \<and> \<not> x_worker_idle x \<and> x_pending x = None \<and>
          x_worker_error x = None \<and> \<not> x_stop x
      | W_park \<Rightarrow> x_worker_ready x \<and> \<not> x_worker_idle x \<and> x_pending x = None \<and>
          x_worker_error x = None \<and> \<not> x_stop x
      | W_wait \<Rightarrow> x_worker_ready x \<and> x_worker_error x = None \<and>
          (x_worker_idle x \<longleftrightarrow> x_pending x = None) \<and>
          (x_pending x \<noteq> None \<longrightarrow> x_hint_needs_clear x)
      | W_outer e \<Rightarrow> \<not> x_worker_idle x \<and> x_pending x = None \<and> x_worker_error x = None \<and>
          \<not> x_stop x \<and>
          (x_worker_ready x \<or> x_dispatcher x = D_wait_ready \<and> \<not> x_hint_needs_clear x)
      | W_notify_error \<Rightarrow> x_worker_ready x \<and> x_worker_idle x \<and> x_stop x \<and> x_pending x = None \<and>
          x_worker_error x \<noteq> None
      | W_cancel \<Rightarrow> x_worker_ready x \<and> x_worker_idle x \<and> x_stop x \<and> x_pending x = None \<and>
          x_worker_error x \<noteq> None
      | W_done \<Rightarrow> x_worker_ready x \<and> x_worker_idle x \<and> x_stop x \<and> x_pending x = None
      | _ \<Rightarrow> x_worker_ready x \<and> \<not> x_worker_idle x \<and> x_pending x = None \<and>
          x_worker_error x = None \<and> \<not> x_stop x \<and> x_hint_needs_clear x)"

definition dispatcher_inv :: "'s executor \<Rightarrow> bool" where
  "dispatcher_inv x =
     (case x_dispatcher x of
        D_wait_ready \<Rightarrow> x_pending x = None \<and> \<not> x_hint_needs_clear x \<and> stop_explained x
      | D_select \<Rightarrow> parked x
      | D_publish w \<Rightarrow> parked x
      | D_handoff w \<Rightarrow> parked x
      | D_notify_stop err \<Rightarrow> x_worker_ready x \<and> x_stop x \<and> x_worker_idle x \<and> x_pending x = None
      | D_join err \<Rightarrow> x_worker_ready x \<and> x_stop x \<and> x_worker_idle x \<and> x_pending x = None
      | D_done r \<Rightarrow> x_worker x = W_done
      | _ \<Rightarrow> x_worker_ready x \<and> stop_explained x)"

definition control_inv :: "'s executor \<Rightarrow> bool" where
  "control_inv x \<longleftrightarrow> worker_inv x \<and> dispatcher_inv x"

text \<open>Sleep: a sleeping thread's predicate is false, or the notification is still to come.\<close>

definition sleep_inv :: "'s executor \<Rightarrow> bool" where
  "sleep_inv x \<longleftrightarrow>
     (x_wsleep x \<longrightarrow> x_worker x = W_wait \<and>
        (x_pending x = None \<and> \<not> x_stop x \<or> x_dispatcher x = D_notify_work \<or>
         (\<exists>err. x_dispatcher x = D_notify_stop err))) \<and>
     (x_dsleep x \<longrightarrow>
        x_dispatcher x = D_wait_ready \<and>
          (\<not> x_worker_ready x \<or> x_worker x = W_notify_ready \<or> x_worker x = W_notify_error) \<or>
        (x_dispatcher x = D_wait_idle \<or> (\<exists>err. x_dispatcher x = D_shutdown err)) \<and>
          (\<not> x_worker_idle x \<and> x_worker_error x = None \<or> x_worker x = W_notify_error))"

text \<open>Resources: the callback in flight, and what it holds.\<close>

definition in_progress :: "'s executor \<Rightarrow> pending_work option" where
  "in_progress x =
     (case x_pending x of
        Some w \<Rightarrow> Some w
      | None \<Rightarrow> (case x_worker x of
                   W_run w \<Rightarrow> Some w
                 | _ \<Rightarrow> (case x_dispatcher x of
                           D_publish w \<Rightarrow> Some w | D_handoff w \<Rightarrow> Some w | _ \<Rightarrow> None)))"

definition owns :: "pending_work \<Rightarrow> nat set \<Rightarrow> nat list \<Rightarrow> bool" where
  "owns w T M \<longleftrightarrow> T \<subseteq> set_option (ex_callback_group (w_executable w)) \<and>
     (case w_message w of None \<Rightarrow> M = []
      | Some m \<Rightarrow> M = [m] \<and> w_message_info w \<and> ex_subscription (w_executable w) \<noteq> None)"

definition resource_inv :: "'s executor \<Rightarrow> bool" where
  "resource_inv x =
     (case in_progress x of
        None \<Rightarrow> x_taken x = {} \<and> x_messages x = []
      | Some w \<Rightarrow> owns w (x_taken x) (x_messages x))"

section \<open>Lemmas on the operations\<close>

lemma configure_worker_ok:
  "configure_worker af at nm config = Inr u \<longleftrightarrow>
     (wc_cpu config \<ge> 0 \<longrightarrow> wc_cpu config < CPU_SETSIZE \<and> af (wc_cpu config) = 0) \<and>
     (wc_sched_ext_policy config \<ge> 0 \<longrightarrow>
        at (word_of_int (wc_sched_ext_policy config)) = None) \<and>
     nm ''scx_ros_worker'' = 0"
  by (auto simp: configure_worker_def Let_def split: if_splits option.splits)

lemma executable_unowned:
  "ex_callback_group e = None \<Longrightarrow> e\<lparr>ex_callback_group := None\<rparr> = e"
  by (cases e) simp

lemma message_same: "w_message w = v \<Longrightarrow> w\<lparr>w_message := v\<rparr> = w"
  by (cases w) simp

lemma give_up_eq:
  "give_up w x =
     (w\<lparr>w_message := if ex_subscription (w_executable w) = None then w_message w else None,
        w_executable := (w_executable w)\<lparr>ex_callback_group := None\<rparr>\<rparr>,
      x\<lparr>x_taken := x_taken x - set_option (ex_callback_group (w_executable w)),
        x_messages := (case w_message w of None \<Rightarrow> x_messages x
          | Some m \<Rightarrow> if ex_subscription (w_executable w) = None then x_messages x
                      else remove1 m (x_messages x))\<rparr>)"
  by (cases "w_message w"; cases "ex_callback_group (w_executable w)")
    (simp_all add: give_up_def return_taken_message_def release_callback_group_def
      executable_unowned message_same)

lemma give_up_owned:
  assumes "owns w (x_taken x) (x_messages x)"
  shows "snd (give_up w x) = x\<lparr>x_taken := {}, x_messages := []\<rparr>"
proof -
  have "x_taken x - set_option (ex_callback_group (w_executable w)) = {}"
    using assms by (auto simp: owns_def)
  with assms show ?thesis by (cases "w_message w") (simp_all add: give_up_eq owns_def)
qed

lemma give_up_owned_again:
  assumes "owns w (x_taken x) (x_messages x)"
  shows "w_message (fst (give_up w x)) = None"
    and "ex_callback_group (w_executable (fst (give_up w x))) = None"
  using assms by (auto simp: give_up_eq owns_def split: option.splits)

lemma owns_nothing: "w_message w = None \<Longrightarrow> owns w {} []"
  by (simp add: owns_def)

lemma drop_work_result:
  assumes "owns w (x_taken x) (x_messages x)" and "drop_work w x = (r, v, y)"
  shows "case r of Inl e \<Rightarrow> v = w \<and> y = x
         | Inr _ \<Rightarrow> (v, y) = give_up w x"
  using assms by (auto simp: drop_work_def split: sum.splits)

text \<open>The outcome of a prepared executable: given back, or handed on with what it owns.\<close>

definition prepared_ok :: "'s executor \<Rightarrow> prepared \<times> 's executor \<Rightarrow> bool" where
  "prepared_ok x p \<longleftrightarrow>
     (\<exists>j T M. snd p = x\<lparr>x_next_job_id := j, x_taken := T, x_messages := M\<rparr> \<and>
        (case fst p of P_publish w \<Rightarrow> owns w T M | _ \<Rightarrow> T = {} \<and> M = []))"

lemma fail_ok:
  assumes "owns w (x_taken y) (x_messages y)"
    and "y = x\<lparr>x_next_job_id := j, x_taken := T, x_messages := M\<rparr>"
  shows "prepared_ok x (fail e w y)"
  using assms give_up_owned [OF assms(1)] unfolding prepared_ok_def fail_def by auto

lemma continue_ok:
  assumes "owns w (x_taken y) (x_messages y)"
    and "y = x\<lparr>x_next_job_id := j, x_taken := T, x_messages := M\<rparr>"
  shows "prepared_ok x (P_continue, snd (give_up w y))"
  using assms give_up_owned [OF assms(1)] unfolding prepared_ok_def by auto

lemma owns_hint [simp]:
  "owns (w\<lparr>w_hint := h\<rparr>) T M = owns w T M"
  "owns (w\<lparr>w_hint := h, w_observer := ob, w_reject_expired := b\<rparr>) T M = owns w T M"
  by (simp_all add: owns_def split: option.splits)

lemma admit_ok:
  assumes own: "owns w (x_taken y) (x_messages y)"
    and y: "y = x\<lparr>x_next_job_id := j, x_taken := T, x_messages := M\<rparr>"
  shows "prepared_ok x (admit env b md w y)"
proof (cases "md_job_id md = 0 \<or> md_release_ts_ns md = 0")
  case True
  then show ?thesis using fail_ok [OF assms] by (simp add: admit_def)
next
  case False
  obtain r k where mk: "make_hint (pb_profile b) (Some md) (de_now_hint env) (x_next_job_id y) = (r, k)"
    by fastforce
  show ?thesis
  proof (cases r)
    case (Inl e)
    then show ?thesis using False mk fail_ok [OF assms] by (simp add: admit_def)
  next
    case (Inr h)
    let ?z = "y\<lparr>x_next_job_id := k\<rparr>"
    let ?v = "w\<lparr>w_hint := h, w_reject_expired := p_reject_expired (pb_profile b),
      w_observer := pb_observer b\<rparr>"
    have own': "owns ?v (x_taken ?z) (x_messages ?z)" using own by (simp add: owns_def split: option.splits)
    have z: "?z = x\<lparr>x_next_job_id := k, x_taken := T, x_messages := M\<rparr>" using y by simp
    have pub: "prepared_ok x (P_publish ?v, ?z)"
      unfolding prepared_ok_def
      using own' by (auto intro!: exI [of _ k] exI [of _ T] exI [of _ M] simp: y)
    note fl = fail_ok [OF own' z] and ct = continue_ok [OF own' z]
    show ?thesis
      using fl ct pub False mk Inr
      by (auto simp: admit_def Let_def drop_work_def split_beta split: sum.splits bool.splits)
  qed
qed

lemma prepare_ok:
  assumes "x_taken x \<subseteq> set_option (ex_callback_group e)" and "x_messages x = []"
  shows "prepared_ok x (prepare abi env e x)"
proof -
  let ?w = "new_work e"
  have w: "owns ?w (x_taken x) (x_messages x)"
    using assms by (simp add: owns_def new_work_def)
  have x: "x = x\<lparr>x_next_job_id := x_next_job_id x, x_taken := x_taken x,
      x_messages := x_messages x\<rparr>" by simp
  note f0 = fail_ok [OF w x]
  let ?v = "\<lambda>m. ?w\<lparr>w_message := Some m, w_message_info := True\<rparr>"
  let ?y = "\<lambda>m. x\<lparr>x_messages := m # x_messages x\<rparr>"
  have v: "owns (?v m) (x_taken (?y m)) (x_messages (?y m))" if "ex_subscription e \<noteq> None" for m
    using assms that by (auto simp: owns_def new_work_def)
  have y: "?y m = x\<lparr>x_next_job_id := x_next_job_id x, x_taken := x_taken x,
      x_messages := m # x_messages x\<rparr>" for m by simp
  note f1 = fail_ok [OF v y] and c1 = continue_ok [OF v y] and a1 = admit_ok [OF v y]
  have p: "prepared_ok x (P_publish (?w\<lparr>w_hint := h\<rparr>), x\<lparr>x_next_job_id := j\<rparr>)" for h j
    unfolding prepared_ok_def
    using w by (auto intro!: exI [of _ j] exI [of _ "x_taken x"] exI [of _ "x_messages x"])
  show ?thesis
    using f0 f1 c1 a1 p unfolding prepare_def Let_def
    by (simp split: option.splits sum.splits prod.splits bool.splits delivered_kind.splits)
qed

section \<open>Preservation: control and sleep\<close>

lemmas control_defs = control_inv_def worker_inv_def dispatcher_inv_def parked_def
  stop_explained_def notify_all_def

lemma prepared_control:
  assumes "prepared_ok x p"
  shows "x_worker (snd p) = x_worker x" and "x_dispatcher (snd p) = x_dispatcher x"
    and "x_worker_ready (snd p) = x_worker_ready x" and "x_worker_idle (snd p) = x_worker_idle x"
    and "x_pending (snd p) = x_pending x" and "x_worker_error (snd p) = x_worker_error x"
    and "x_stop (snd p) = x_stop x" and "x_hint_needs_clear (snd p) = x_hint_needs_clear x"
    and "x_wsleep (snd p) = x_wsleep x" and "x_dsleep (snd p) = x_dsleep x"
    and "x_sink (snd p) = x_sink x" and "x_worker_id (snd p) = x_worker_id x"
    and "x_spinning (snd p) = x_spinning x"
  using assms by (auto simp: prepared_ok_def)

lemma select_cases:
  assumes "x_taken x = {}" and "x_messages x = []"
  obtains (again) j where "select_next abi env x = x\<lparr>x_next_job_id := j, x_dispatcher := D_test\<rparr>"
  | (throws) j e where "select_next abi env x =
      x\<lparr>x_next_job_id := j, x_dispatcher := D_stop (Some e)\<rparr>"
  | (publish) j T M w where "select_next abi env x =
      x\<lparr>x_next_job_id := j, x_taken := T, x_messages := M, x_dispatcher := D_publish w\<rparr>"
      "owns w T M"
proof (cases "de_next env")
  case No_executable
  then show ?thesis using again [of "x_next_job_id x"] by (simp add: select_next_def)
next
  case (Next_throws e)
  then show ?thesis using throws [where j = "x_next_job_id x" and e = e] by (simp add: select_next_def)
next
  case (Next e mark)
  define y where "y = (if mark then x\<lparr>x_taken := x_taken x \<union> set_option (ex_callback_group e)\<rparr> else x)"
  have ok: "prepared_ok y (prepare abi env e y)"
    by (rule prepare_ok) (auto simp: y_def assms)
  have upd: "y\<lparr>x_next_job_id := j, x_taken := T, x_messages := M\<rparr> =
      x\<lparr>x_next_job_id := j, x_taken := T, x_messages := M\<rparr>" for j T M by (simp add: y_def)
  obtain p z where p: "prepare abi env e y = (p, z)" by fastforce
  obtain j T M where z: "z = x\<lparr>x_next_job_id := j, x_taken := T, x_messages := M\<rparr>"
    and own: "case p of P_publish w \<Rightarrow> owns w T M | _ \<Rightarrow> T = {} \<and> M = []"
    using ok upd by (auto simp: prepared_ok_def p)
  have empty: "x\<lparr>x_next_job_id := j, x_taken := {}, x_messages := []\<rparr> = x\<lparr>x_next_job_id := j\<rparr>"
    by (cases x) (use assms in simp)
  have res: "select_next abi env x =
      (case p of P_continue \<Rightarrow> z\<lparr>x_dispatcher := D_test\<rparr>
       | P_throw err \<Rightarrow> z\<lparr>x_dispatcher := D_stop (Some err)\<rparr>
       | P_publish w \<Rightarrow> z\<lparr>x_dispatcher := D_publish w\<rparr>)"
    by (simp add: select_next_def Let_def Next p y_def [symmetric])
  show ?thesis
  proof (cases p)
    case P_continue
    with own res z empty show ?thesis by (intro again [of j]) simp
  next
    case (P_throw err)
    with own res z empty show ?thesis by (intro throws [where j = j and e = err]) simp
  next
    case (P_publish w)
    with own res z show ?thesis by (intro publish [where j = j and T = T and M = M and w = w]) simp_all
  qed
qed

text \<open>While the dispatcher selects, nothing is in flight.\<close>

lemma select_idle:
  assumes "control_inv x" and "resource_inv x" and "x_dispatcher x = D_select"
  shows "x_taken x = {}" and "x_messages x = []"
  using assms by (simp_all add: control_defs resource_inv_def in_progress_def)

lemma shutdown_cases:
  assumes st: "dispatcher_step abi sink env x = Some y" and d: "x_dispatcher x = D_shutdown err"
  obtains (sleep) "\<not> x_worker_idle x" "x_worker_error x = None" "y = x\<lparr>x_dsleep := True\<rparr>"
  | (clean) "x_worker_idle x \<or> x_worker_error x \<noteq> None" "\<not> x_hint_needs_clear x"
      "y = x\<lparr>x_stop := True, x_hint_needs_clear := False, x_sink := x_sink x,
             x_dispatcher := D_notify_stop err\<rparr>"
  | (cleared) s where "x_worker_idle x \<or> x_worker_error x \<noteq> None" "x_hint_needs_clear x"
      "sk_clear sink (x_worker_id x) (x_sink x) = (Inr (), s)"
      "y = x\<lparr>x_stop := True, x_hint_needs_clear := False, x_sink := s,
             x_dispatcher := D_notify_stop err\<rparr>"
  | (throws) e s err' where "x_worker_idle x \<or> x_worker_error x \<noteq> None" "x_hint_needs_clear x"
      "sk_clear sink (x_worker_id x) (x_sink x) = (Inl e, s)" "err' \<noteq> None"
      "y = x\<lparr>x_stop := True, x_hint_needs_clear := True, x_sink := s,
             x_dispatcher := D_notify_stop err'\<rparr>"
proof (cases "x_worker_idle x \<or> x_worker_error x \<noteq> None")
  case False
  with st d sleep show ?thesis by (auto simp: dispatcher_step_def split: if_splits)
next
  case cond: True
  show ?thesis
  proof (cases "x_hint_needs_clear x")
    case False
    then have "x\<lparr>x_stop := True, x_dispatcher := d\<rparr> = x\<lparr>x_stop := True,
        x_hint_needs_clear := False, x_sink := x_sink x, x_dispatcher := d\<rparr>" for d
      by (cases x) simp
    with False st d cond clean show ?thesis
      by (auto simp: dispatcher_step_def clear_completed_hint_def split: if_splits)
  next
    case True
    have ok: "x\<lparr>x_sink := s, x_hint_needs_clear := False, x_stop := True, x_dispatcher := d\<rparr> =
        x\<lparr>x_stop := True, x_hint_needs_clear := False, x_sink := s, x_dispatcher := d\<rparr>"
      and bad: "x\<lparr>x_sink := s, x_stop := True, x_dispatcher := d\<rparr> =
        x\<lparr>x_stop := True, x_hint_needs_clear := True, x_sink := s, x_dispatcher := d\<rparr>" for s d
      using True by (cases x; simp)+
    obtain r s where c: "sk_clear sink (x_worker_id x) (x_sink x) = (r, s)" by fastforce
    have not_asleep: "\<not> x_dsleep x" using st by (simp add: dispatcher_step_def split: if_splits)
    show ?thesis
    proof (cases r)
      case (Inl e)
      have "y = x\<lparr>x_stop := True, x_hint_needs_clear := True, x_sink := s, x_dispatcher :=
          D_notify_stop (case err of None \<Rightarrow> Some e | Some d \<Rightarrow> Some d)\<rparr>"
        using st cond
        by (simp add: dispatcher_step_def clear_completed_hint_def d True c Inl not_asleep bad
          del: not_None_eq)
      then show ?thesis
        using cond True c Inl by (intro throws [of e s]) (auto split: option.splits)
    next
      case (Inr u)
      have "y = x\<lparr>x_stop := True, x_hint_needs_clear := False, x_sink := s,
          x_dispatcher := D_notify_stop err\<rparr>"
        using st cond
        by (simp add: dispatcher_step_def clear_completed_hint_def d True c Inr not_asleep ok
          del: not_None_eq)
      then show ?thesis using cond True c Inr by (intro cleared [of s]) auto
    qed
  qed
qed

lemma idle_facts:
  assumes "worker_inv x" and "x_worker_idle x \<or> x_worker_error x \<noteq> None"
  shows "x_worker_idle x" and "x_worker_ready x" and "x_pending x = None"
    and "worker_inv (x\<lparr>x_stop := True, x_hint_needs_clear := n, x_sink := s, x_dispatcher := d\<rparr>)"
  using assms by (auto simp: worker_inv_def split: worker_pc.splits)

lemma shutdown_control:
  assumes "control_inv x" and "x_worker_idle x \<or> x_worker_error x \<noteq> None"
  shows "control_inv (x\<lparr>x_stop := True, x_hint_needs_clear := n, x_sink := s,
           x_dispatcher := D_notify_stop err\<rparr>)"
proof -
  have "worker_inv x" using assms(1) by (simp add: control_inv_def)
  note f = idle_facts [OF this assms(2)]
  then show ?thesis by (simp add: control_inv_def dispatcher_inv_def)
qed

text \<open>In flight, a callback owns exactly the group and the message the executor has taken.\<close>

lemma in_flight_owns:
  assumes "control_inv x" and "resource_inv x"
  shows "x_dispatcher x = D_publish w \<Longrightarrow> owns w (x_taken x) (x_messages x)"
    and "x_worker x = W_run w \<Longrightarrow> owns w (x_taken x) (x_messages x)"
  using assms by (simp_all add: control_defs resource_inv_def in_progress_def)

text \<open>What one dispatcher step does, position by position.\<close>

lemma dispatcher_cases:
  assumes inv: "control_inv x" "resource_inv x" and st: "dispatcher_step abi sink env x = Some y"
  obtains (ready_sleep) "x_dispatcher x = D_wait_ready" "\<not> x_worker_ready x" "y = x\<lparr>x_dsleep := True\<rparr>"
  | (ready_error) e where "x_dispatcher x = D_wait_ready" "x_worker_ready x" "x_worker_error x = Some e"
      "y = x\<lparr>x_dispatcher := D_stop (Some e)\<rparr>"
  | (ready) "x_dispatcher x = D_wait_ready" "x_worker_ready x" "x_worker_error x = None"
      "y = x\<lparr>x_dispatcher := D_test\<rparr>"
  | (loop) "x_dispatcher x = D_test" "x_spinning x" "y = x\<lparr>x_dispatcher := D_wait_idle\<rparr>"
  | (leave) "x_dispatcher x = D_test" "y = x\<lparr>x_dispatcher := D_stop None\<rparr>"
  | (idle_sleep) "x_dispatcher x = D_wait_idle" "\<not> x_worker_idle x" "x_worker_error x = None"
      "x_spinning x" "y = x\<lparr>x_dsleep := True\<rparr>"
  | (idle_error) e where "x_dispatcher x = D_wait_idle" "x_worker_error x = Some e"
      "y = x\<lparr>x_dispatcher := D_stop (Some e)\<rparr>"
  | (idle_leave) "x_dispatcher x = D_wait_idle" "x_worker_error x = None" "\<not> x_spinning x"
      "y = x\<lparr>x_dispatcher := D_stop None\<rparr>"
  | (idle) "x_dispatcher x = D_wait_idle" "x_worker_error x = None" "x_spinning x" "x_worker_idle x"
      "y = x\<lparr>x_dispatcher := D_select\<rparr>"
  | (again) j where "x_dispatcher x = D_select" "y = x\<lparr>x_next_job_id := j, x_dispatcher := D_test\<rparr>"
  | (throws) j e where "x_dispatcher x = D_select"
      "y = x\<lparr>x_next_job_id := j, x_dispatcher := D_stop (Some e)\<rparr>"
  | (selected) j T M w where "x_dispatcher x = D_select" "owns w T M"
      "y = x\<lparr>x_next_job_id := j, x_taken := T, x_messages := M, x_dispatcher := D_publish w\<rparr>"
  | (publish_throws) w e s where "x_dispatcher x = D_publish w"
      "sk_publish sink (x_worker_id x) (w_hint w) (x_sink x) = (Inl e, s)"
      "y = x\<lparr>x_sink := s, x_taken := {}, x_messages := [], x_dispatcher := D_stop (Some e)\<rparr>"
  | (publish) w s where "x_dispatcher x = D_publish w"
      "sk_publish sink (x_worker_id x) (w_hint w) (x_sink x) = (Inr (), s)"
      "y = x\<lparr>x_sink := s, x_dispatcher := D_handoff w\<rparr>"
  | (handoff) w where "x_dispatcher x = D_handoff w"
      "y = x\<lparr>x_worker_idle := False, x_hint_needs_clear := True, x_pending := Some w,
             x_dispatcher := D_notify_work\<rparr>"
  | (notify_work) "x_dispatcher x = D_notify_work" "y = (notify_all x)\<lparr>x_dispatcher := D_test\<rparr>"
  | (stop) err where "x_dispatcher x = D_stop err"
      "y = x\<lparr>x_spinning := False, x_dispatcher := D_shutdown err\<rparr>"
  | (stop_sleep) err where "x_dispatcher x = D_shutdown err" "\<not> x_worker_idle x"
      "x_worker_error x = None" "y = x\<lparr>x_dsleep := True\<rparr>"
  | (clean) err where "x_dispatcher x = D_shutdown err" "x_worker_idle x \<or> x_worker_error x \<noteq> None"
      "\<not> x_hint_needs_clear x"
      "y = x\<lparr>x_stop := True, x_hint_needs_clear := False, x_sink := x_sink x,
             x_dispatcher := D_notify_stop err\<rparr>"
  | (cleared) err s where "x_dispatcher x = D_shutdown err"
      "x_worker_idle x \<or> x_worker_error x \<noteq> None" "x_hint_needs_clear x"
      "sk_clear sink (x_worker_id x) (x_sink x) = (Inr (), s)"
      "y = x\<lparr>x_stop := True, x_hint_needs_clear := False, x_sink := s,
             x_dispatcher := D_notify_stop err\<rparr>"
  | (clear_throws) err e s err' where "x_dispatcher x = D_shutdown err"
      "x_worker_idle x \<or> x_worker_error x \<noteq> None" "x_hint_needs_clear x"
      "sk_clear sink (x_worker_id x) (x_sink x) = (Inl e, s)" "err' \<noteq> None"
      "y = x\<lparr>x_stop := True, x_hint_needs_clear := True, x_sink := s,
             x_dispatcher := D_notify_stop err'\<rparr>"
  | (notify_stop) err where "x_dispatcher x = D_notify_stop err"
      "y = (notify_all x)\<lparr>x_dispatcher := D_join err\<rparr>"
  | (join) err where "x_dispatcher x = D_join err" "x_worker x = W_done"
      "y = x\<lparr>x_dispatcher := D_done (case err of Some e \<Rightarrow> Inl e
         | None \<Rightarrow> (case x_worker_error x of Some e \<Rightarrow> Inl e | None \<Rightarrow> Inr ()))\<rparr>"
proof (cases "x_dispatcher x")
  case D_wait_ready
  with st show ?thesis
    by (auto simp: dispatcher_step_def split: if_splits option.splits
        intro: ready_sleep ready_error ready)
next
  case D_test
  with st show ?thesis by (auto simp: dispatcher_step_def split: if_splits intro: loop leave)
next
  case D_wait_idle
  with st show ?thesis
    by (auto simp: dispatcher_step_def split: if_splits option.splits
        intro: idle_sleep idle_error idle_leave idle)
next
  case D_select
  have y: "y = select_next abi env x" using st D_select by (simp add: dispatcher_step_def split: if_splits)
  show ?thesis
    using select_idle [OF inv D_select]
  proof (cases rule: select_cases [of x abi env])
    case (again j)
    with D_select y show ?thesis by (intro that(10) [of j]) simp_all
  next
    case (throws j e)
    with D_select y show ?thesis by (intro that(11) [where j = j and e = e]) simp_all
  next
    case (publish j T M w)
    with D_select y show ?thesis
      by (intro that(12) [where j = j and T = T and M = M and w = w]) simp_all
  qed
next
  case (D_publish w)
  obtain r s where p: "sk_publish sink (x_worker_id x) (w_hint w) (x_sink x) = (r, s)" by fastforce
  have "owns w (x_taken (x\<lparr>x_sink := s\<rparr>)) (x_messages (x\<lparr>x_sink := s\<rparr>))"
    using in_flight_owns(1) [OF inv D_publish] by simp
  note g = give_up_owned [OF this]
  have awake: "\<not> x_dsleep x" using st by (simp add: dispatcher_step_def split: if_splits)
  show ?thesis
  proof (cases r)
    case (Inl e)
    have "y = x\<lparr>x_sink := s, x_taken := {}, x_messages := [], x_dispatcher := D_stop (Some e)\<rparr>"
      using st by (simp add: dispatcher_step_def D_publish p g Inl awake)
    with Inl p D_publish show ?thesis by (intro publish_throws) simp_all
  next
    case (Inr u)
    have "y = x\<lparr>x_sink := s, x_dispatcher := D_handoff w\<rparr>"
      using st by (simp add: dispatcher_step_def D_publish p Inr awake)
    with Inr p D_publish show ?thesis by (intro publish) simp_all
  qed
next
  case (D_handoff w)
  with st show ?thesis by (auto simp: dispatcher_step_def split: if_splits intro: handoff)
next
  case D_notify_work
  with st show ?thesis by (auto simp: dispatcher_step_def split: if_splits intro: notify_work)
next
  case (D_stop err)
  with st show ?thesis by (auto simp: dispatcher_step_def split: if_splits intro: stop)
next
  case (D_shutdown err)
  from st D_shutdown show ?thesis
  proof (cases rule: shutdown_cases)
    case sleep
    with D_shutdown show ?thesis by (intro stop_sleep [of err])
  next
    case clean
    with D_shutdown show ?thesis by (intro that(19) [of err])
  next
    case (cleared s)
    with D_shutdown show ?thesis by (intro that(20) [where err = err and s = s])
  next
    case (throws e s err')
    with D_shutdown show ?thesis
      by (intro clear_throws [where err = err and e = e and s = s and err' = err'])
  qed
next
  case (D_notify_stop err)
  with st show ?thesis by (auto simp: dispatcher_step_def split: if_splits intro: notify_stop)
next
  case (D_join err)
  with st show ?thesis by (auto simp: dispatcher_step_def split: if_splits intro: join)
next
  case (D_done r)
  with st show ?thesis by (simp add: dispatcher_step_def split: if_splits)
qed

lemma dispatcher_awake: "dispatcher_step abi sink env x = Some y \<Longrightarrow> \<not> x_dsleep x"
  by (simp add: dispatcher_step_def split: if_splits)

lemma run_work_result:
  assumes own: "owns w (x_taken x) (x_messages x)" and dt: "releases_group dtor"
    and run: "run_work env w x = (r, v, y)"
  shows "y\<lparr>x_taken := dtor (ex_callback_group (w_executable v)) (x_taken y)\<rparr> =
           x\<lparr>x_taken := {}, x_messages := []\<rparr>"
proof -
  have dtor: "dtor g T = T - set_option g" for g T using dt by (simp add: releases_group_def)
  obtain w1 x1 where g: "give_up w x = (w1, x1)" by fastforce
  have x1: "x1 = x\<lparr>x_taken := {}, x_messages := []\<rparr>" using give_up_owned [OF own] g by simp
  have w1: "w_message w1 = None" "ex_callback_group (w_executable w1) = None"
    using give_up_owned_again [OF own] g by simp_all
  have again: "give_up w1 x1 = (w1\<lparr>w_message := None, w_executable := (w_executable w1)
      \<lparr>ex_callback_group := None\<rparr>\<rparr>, x1)"
    using w1 x1 by (auto simp: give_up_eq)
  show ?thesis
  proof (cases "w_message w")
    case None
    have sub: "x_taken x - set_option (ex_callback_group (w_executable w)) = {}"
      and msg: "x_messages x = []" using own None by (auto simp: owns_def)
    have same: "x\<lparr>x_taken := {}, x_messages := []\<rparr> = x\<lparr>x_taken := {}\<rparr>" using msg by (cases x) simp
    show ?thesis
      using run None sub dtor same
      by (cases "we_executed env") (auto simp: run_work_def give_up_eq split: if_splits)
  next
    case (Some m)
    show ?thesis
      using run Some g again x1 w1 dtor
      by (auto simp: run_work_def drop_work_def execute_taken_subscription_def
        split: sum.splits bool.splits)
  qed
qed

text \<open>What one worker step does, position by position.\<close>

lemma worker_cases:
  assumes inv: "control_inv x" "resource_inv x" and dt: "releases_group dtor"
    and st: "worker_step sink config dtor env x = Some y"
  obtains (configure_throws) e where "x_worker x = W_configure" "y = x\<lparr>x_worker := W_outer e\<rparr>"
  | (configured) "x_worker x = W_configure" "y = x\<lparr>x_worker := W_register\<rparr>"
  | (register) i where "x_worker x = W_register"
      "y = x\<lparr>x_worker_id := i, x_worker_ready := True, x_worker := W_notify_ready\<rparr>"
  | (notify_ready) "x_worker x = W_notify_ready" "y = (notify_all x)\<lparr>x_worker := W_park\<rparr>"
  | (park) "x_worker x = W_park" "y = (notify_all x)\<lparr>x_worker_idle := True, x_worker := W_wait\<rparr>"
  | (take) w where "x_worker x = W_wait" "x_pending x = Some w"
      "y = x\<lparr>x_pending := None, x_worker := W_run w\<rparr>"
  | (finish) "x_worker x = W_wait" "x_pending x = None" "x_stop x" "y = x\<lparr>x_worker := W_done\<rparr>"
  | (sleep) "x_worker x = W_wait" "x_pending x = None" "\<not> x_stop x" "y = x\<lparr>x_wsleep := True\<rparr>"
  | (ran) w where "x_worker x = W_run w"
      "y = x\<lparr>x_taken := {}, x_messages := [], x_worker := W_park\<rparr>"
  | (ran_throws) w e where "x_worker x = W_run w"
      "y = x\<lparr>x_taken := {}, x_messages := [], x_worker := W_failed e\<rparr>"
  | (clear_throws) e e' s where "x_worker x = W_failed e"
      "sk_clear sink (x_worker_id x) (x_sink x) = (Inl e', s)" "y = x\<lparr>x_sink := s, x_worker := W_outer e'\<rparr>"
  | (cleared) e s where "x_worker x = W_failed e"
      "sk_clear sink (x_worker_id x) (x_sink x) = (Inr (), s)" "y = x\<lparr>x_sink := s, x_worker := W_cleared e\<rparr>"
  | (reset) e where "x_worker x = W_cleared e"
      "y = x\<lparr>x_hint_needs_clear := False, x_worker := W_outer e\<rparr>"
  | (outer) e where "x_worker x = W_outer e"
      "y = x\<lparr>x_worker_error := Some e, x_worker_ready := True, x_worker_idle := True,
             x_stop := True, x_worker := W_notify_error\<rparr>"
  | (notify_error) "x_worker x = W_notify_error" "y = (notify_all x)\<lparr>x_worker := W_cancel\<rparr>"
  | (cancel) c where "x_worker x = W_cancel"
      "y = x\<lparr>x_spinning := x_spinning x \<and> c, x_worker := W_done\<rparr>"
proof (cases "x_worker x")
  case W_configure
  with st show ?thesis
    by (auto simp: worker_step_def split: if_splits sum.splits intro: configure_throws configured)
next
  case W_wait
  with st show ?thesis
    by (auto simp: worker_step_def split: if_splits option.splits intro: take finish sleep)
next
  case (W_run w)
  obtain r v z where run: "run_work env w x = (r, v, z)" by (metis prod_cases3)
  have z: "z\<lparr>x_taken := dtor (ex_callback_group (w_executable v)) (x_taken z), x_worker := p\<rparr> =
      x\<lparr>x_taken := {}, x_messages := [], x_worker := p\<rparr>" for p
    using run_work_result [OF in_flight_owns(2) [OF inv W_run] dt run] by simp
  show ?thesis
    by (cases r) (use st W_run run z ran ran_throws in \<open>auto simp: worker_step_def split: if_splits\<close>)
next
  case (W_failed e)
  with st show ?thesis
    by (auto simp: worker_step_def split: if_splits prod.splits sum.splits intro: clear_throws cleared)
next
  case W_register
  with st show ?thesis by (intro register [of "we_self env"]) (simp_all add: worker_step_def split: if_splits)
next
  case W_notify_ready
  with st show ?thesis by (intro notify_ready) (simp_all add: worker_step_def split: if_splits)
next
  case W_park
  with st show ?thesis by (intro park) (simp_all add: worker_step_def split: if_splits)
next
  case (W_cleared e)
  with st show ?thesis by (intro reset [of e]) (simp_all add: worker_step_def split: if_splits)
next
  case (W_outer e)
  with st show ?thesis by (intro outer [of e]) (simp_all add: worker_step_def split: if_splits)
next
  case W_notify_error
  with st show ?thesis by (intro notify_error) (simp_all add: worker_step_def split: if_splits)
next
  case W_cancel
  with st show ?thesis
    by (intro cancel [of "\<not> we_cancelled env"]) (simp_all add: worker_step_def split: if_splits)
next
  case W_done
  with st show ?thesis by (simp add: worker_step_def split: if_splits)
qed

lemma worker_awake: "worker_step sink config dtor env x = Some y \<Longrightarrow> \<not> x_wsleep x"
  by (simp add: worker_step_def split: if_splits)

section \<open>Preservation\<close>

lemma dispatcher_control:
  assumes inv: "control_inv x" "resource_inv x" and st: "dispatcher_step abi sink env x = Some y"
  shows "control_inv y"
  using inv st
proof (cases rule: dispatcher_cases)
  case clean
  then show ?thesis using shutdown_control [OF inv(1)] by (simp only:)
next
  case cleared
  then show ?thesis using shutdown_control [OF inv(1)] by (simp only:)
next
  case clear_throws
  then show ?thesis using shutdown_control [OF inv(1)] by (simp only:)
qed (use inv(1) in \<open>(cases "x_worker x"; auto simp: control_defs)+\<close>)

lemma worker_control:
  assumes inv: "control_inv x" "resource_inv x" and "releases_group dtor"
    and st: "worker_step sink config dtor env x = Some y"
  shows "control_inv y"
  using inv assms(3) st
  by (cases rule: worker_cases; insert inv(1); cases "x_dispatcher x"; auto simp: control_defs)

lemma dispatcher_resource:
  assumes inv: "control_inv x" "resource_inv x" and st: "dispatcher_step abi sink env x = Some y"
  shows "resource_inv y"
  using inv st
  by (cases rule: dispatcher_cases; insert inv; cases "x_worker x";
    simp add: resource_inv_def in_progress_def control_defs split: option.splits)

lemma worker_resource:
  assumes inv: "control_inv x" "resource_inv x" and "releases_group dtor"
    and st: "worker_step sink config dtor env x = Some y"
  shows "resource_inv y"
  using inv assms(3) st
  by (cases rule: worker_cases; insert inv; cases "x_dispatcher x";
    simp add: resource_inv_def in_progress_def control_defs split: option.splits)

lemma dispatcher_sleep:
  assumes inv: "control_inv x" "resource_inv x" "sleep_inv x"
    and st: "dispatcher_step abi sink env x = Some y"
  shows "sleep_inv y"
  using inv(1,2) st
  by (cases rule: dispatcher_cases; insert inv(1,3) dispatcher_awake [OF st]; cases "x_worker x";
    simp add: sleep_inv_def control_defs split: option.splits)

lemma worker_sleep:
  assumes inv: "control_inv x" "resource_inv x" "sleep_inv x" and "releases_group dtor"
    and st: "worker_step sink config dtor env x = Some y"
  shows "sleep_inv y"
  using inv(1,2) assms(4) st
  by (cases rule: worker_cases; insert inv(1,3) worker_awake [OF st]; cases "x_dispatcher x";
    simp add: sleep_inv_def control_defs split: option.splits)

section \<open>The slot the scheduler sees\<close>

text \<open>
  \<open>own_slot\<close> is the worker's slot. From the publication to the end of the callback it shows the
  callback's hint; once nothing is owed it is cleared or as \<open>spin()\<close> found it.
\<close>

definition own_slot ::
  "('s \<Rightarrow> u64 \<Rightarrow> fresh_task_hint option) \<Rightarrow> 's executor \<Rightarrow> fresh_task_hint option" where
  "own_slot slot x = slot (x_sink x) (x_worker_id x)"

definition slot_inv ::
  "('s \<Rightarrow> u64 \<Rightarrow> fresh_task_hint option) \<Rightarrow> (fresh_task_hint \<Rightarrow> fresh_task_hint option) \<Rightarrow>
   fresh_task_hint option \<Rightarrow> 's \<Rightarrow> 's executor \<Rightarrow> bool" where
  "slot_inv slot view cleared s0 x \<longleftrightarrow>
     (\<forall>w. x_dispatcher x = D_handoff w \<or> x_pending x = Some w \<or> x_worker x = W_run w \<longrightarrow>
        own_slot slot x = view (w_hint w)) \<and>
     (\<forall>e. x_worker x = W_cleared e \<longrightarrow> own_slot slot x = cleared) \<and>
     (\<not> x_hint_needs_clear x \<and> (\<forall>w. x_dispatcher x \<noteq> D_handoff w) \<longrightarrow>
        own_slot slot x = cleared \<or> own_slot slot x = slot s0 (x_worker_id x)) \<and>
     (x_dispatcher x = D_wait_ready \<longrightarrow> x_sink x = s0) \<and>
     (\<forall>v. v \<noteq> x_worker_id x \<longrightarrow> slot (x_sink x) v = slot s0 v)"

text \<open>What the local \<open>dispatch_error\<close> and the result say about an owed clear and a failed worker.\<close>

definition result_inv :: "'s executor \<Rightarrow> bool" where
  "result_inv x =
     (case x_dispatcher x of
        D_shutdown err \<Rightarrow> \<not> x_spinning x
      | D_notify_stop err \<Rightarrow> \<not> x_spinning x \<and> (x_hint_needs_clear x \<longrightarrow> err \<noteq> None)
      | D_join err \<Rightarrow> \<not> x_spinning x \<and> (x_hint_needs_clear x \<longrightarrow> err \<noteq> None)
      | D_done r \<Rightarrow> \<not> x_spinning x \<and>
          (x_hint_needs_clear x \<or> x_worker_error x \<noteq> None \<longrightarrow> (\<exists>e. r = Inl e))
      | _ \<Rightarrow> True)"

definition exec_inv ::
  "('s \<Rightarrow> u64 \<Rightarrow> fresh_task_hint option) \<Rightarrow> (fresh_task_hint \<Rightarrow> fresh_task_hint option) \<Rightarrow>
   fresh_task_hint option \<Rightarrow> 's \<Rightarrow> 's executor \<Rightarrow> bool" where
  "exec_inv slot view cleared s0 x \<longleftrightarrow> control_inv x \<and> resource_inv x \<and> sleep_inv x \<and> result_inv x \<and>
     slot_inv slot view cleared s0 x"

lemma dispatcher_result:
  assumes inv: "control_inv x" "resource_inv x" "result_inv x"
    and st: "dispatcher_step abi sink env x = Some y"
  shows "result_inv y"
  using inv(1,2) st
  by (cases rule: dispatcher_cases; insert inv(1,3);
    simp add: result_inv_def control_defs split: option.splits)

lemma worker_result:
  assumes inv: "control_inv x" "resource_inv x" "result_inv x" and "releases_group dtor"
    and st: "worker_step sink config dtor env x = Some y"
  shows "result_inv y"
  using inv(1,2) assms(4) st
  by (cases rule: worker_cases; insert inv(1,3); cases "x_dispatcher x";
    simp add: result_inv_def control_defs)

lemma client_frame:
  "snd (client abi call x) = x\<lparr>x_profiles := x_profiles (snd (client abi call x))\<rparr>"
  by (cases call)
    (simp_all add: add_subscription_callback_group_with_erased_metadata_def
      add_callback_group_with_profile_def remove_callback_group_def split: option.splits sum.splits)

lemmas exec_defs = exec_inv_def control_defs resource_inv_def in_progress_def sleep_inv_def
  result_inv_def slot_inv_def own_slot_def

lemma exec_inv_frame:
  assumes "exec_inv slot view cleared s0 x"
  shows "exec_inv slot view cleared s0 (x\<lparr>x_profiles := f\<rparr>)"
    and "exec_inv slot view cleared s0 (x\<lparr>x_spinning := False\<rparr>)"
    and "exec_inv slot view cleared s0 (x\<lparr>x_dsleep := False\<rparr>)"
    and "exec_inv slot view cleared s0 (x\<lparr>x_wsleep := False\<rparr>)"
  using assms
  by (simp_all add: exec_defs cong: worker_pc.case_cong dispatcher_pc.case_cong option.case_cong)
    (cases "x_dispatcher x"; simp)

lemma exec_inv_entry: "spin_entry s0 x \<Longrightarrow> exec_inv slot view cleared s0 x"
  by (auto simp: spin_entry_def spin_begin_def Let_def exec_defs split: if_splits sum.splits)

section \<open>The executor over a sink\<close>

text \<open>
  A run of \<open>spin()\<close> over any sink that keeps the contract, with the destructor of \<open>AnyExecutable\<close>
  doing what it is documented to do. All invariants hold in every reachable state.
\<close>

locale executor_run = hint_sink sink slot view cleared
  for sink :: "'s sink_ops"
    and slot :: "'s \<Rightarrow> u64 \<Rightarrow> fresh_task_hint option"
    and view :: "fresh_task_hint \<Rightarrow> fresh_task_hint option"
    and cleared :: "fresh_task_hint option" +
  fixes abi :: fresh_abi and config :: worker_config
    and dtor :: "nat option \<Rightarrow> nat set \<Rightarrow> nat set" and s0 :: 's
  assumes destructor: "releases_group dtor"
begin

lemma dispatcher_slot:
  assumes inv: "control_inv x" "resource_inv x" "slot_inv slot view cleared s0 x"
    and st: "dispatcher_step abi sink env x = Some y"
  shows "slot_inv slot view cleared s0 y"
  using inv(1,2) st
proof (cases rule: dispatcher_cases)
  case (publish w s)
  note p = publish_ok [OF publish(2)]
  from publish(1) inv(1) have "parked x" by (simp add: control_inv_def dispatcher_inv_def)
  with publish p inv(3) show ?thesis by (simp add: slot_inv_def own_slot_def parked_def)
next
  case (publish_throws w e s)
  with publish_throw [OF publish_throws(2)] inv(3) show ?thesis
    by (simp add: slot_inv_def own_slot_def)
next
  case (cleared err s)
  have "worker_inv x" using inv(1) by (simp add: control_inv_def)
  note f = idle_facts [OF this cleared(2)]
  with cleared clear_ok [OF cleared(4)] inv(1,3) show ?thesis
    by (cases "x_worker x") (simp_all add: slot_inv_def own_slot_def control_inv_def worker_inv_def)
next
  case (clear_throws err e s err')
  with clear_throw [OF clear_throws(4)] inv(3) show ?thesis
    by (simp add: slot_inv_def own_slot_def)
next
  case (handoff w)
  with inv(1,3) show ?thesis by (simp add: slot_inv_def own_slot_def control_defs)
qed (use inv(3) in \<open>auto simp: slot_inv_def own_slot_def notify_all_def\<close>)

lemma worker_slot:
  assumes inv: "control_inv x" "resource_inv x" "slot_inv slot view cleared s0 x"
    and st: "worker_step sink config dtor env x = Some y"
  shows "slot_inv slot view cleared s0 y"
  using inv(1,2) destructor st
proof (cases rule: worker_cases)
  case (register i)
  with inv(1,3) show ?thesis by (simp add: slot_inv_def own_slot_def control_inv_def worker_inv_def)
next
  case (clear_throws e e' s)
  with clear_throw [OF clear_throws(2)] inv(1,3) show ?thesis
    by (cases "x_dispatcher x") (auto simp: slot_inv_def own_slot_def control_defs)
next
  case (cleared e s)
  with clear_ok [OF cleared(2)] inv(1,3) show ?thesis
    by (cases "x_dispatcher x") (auto simp: slot_inv_def own_slot_def control_defs)
next
  case (take w)
  with inv(1,3) show ?thesis
    by (cases "x_dispatcher x") (auto simp: slot_inv_def own_slot_def control_defs)
next
  case (reset e)
  with inv(3) show ?thesis by (auto simp: slot_inv_def own_slot_def)
qed (use inv(1,3) in \<open>simp_all add: slot_inv_def own_slot_def control_defs\<close>)

lemma exec_inv_thread:
  assumes inv: "exec_inv slot view cleared s0 x" and "thread_step abi sink config dtor x y"
  shows "exec_inv slot view cleared s0 y"
  using assms(2)
proof cases
  case (dispatch denv)
  show ?thesis
    using inv dispatcher_control [OF _ _ dispatch] dispatcher_resource [OF _ _ dispatch]
      dispatcher_sleep [OF _ _ _ dispatch] dispatcher_result [OF _ _ _ dispatch]
      dispatcher_slot [OF _ _ _ dispatch]
    by (simp add: exec_inv_def)
next
  case (work wenv)
  show ?thesis
    using inv worker_control [OF _ _ destructor work] worker_resource [OF _ _ destructor work]
      worker_sleep [OF _ _ _ destructor work] worker_result [OF _ _ _ destructor work]
      worker_slot [OF _ _ _ work]
    by (simp add: exec_inv_def)
qed

lemma exec_inv_step:
  assumes inv: "exec_inv slot view cleared s0 x" and "exec_step abi sink config dtor x y"
  shows "exec_inv slot view cleared s0 y"
  using assms(2)
proof cases
  case thread
  then show ?thesis using inv exec_inv_thread by blast
next
  case (client call)
  then show ?thesis using exec_inv_frame(1) [OF inv] client_frame by metis
qed (use exec_inv_frame [OF inv] in simp_all)

end

sublocale executor_run \<subseteq> spin: invariant_system "spin_entry s0" "exec_step abi sink config dtor"
  "exec_inv slot view cleared s0"
  by unfold_locales (auto intro: exec_inv_entry exec_inv_step)

text \<open>The pinned-map sink over a map that accepts its writes, and the null sink.\<close>

interpretation pinned_run: executor_run "pinned_sink abi map_write" "\<lambda>m. m" Some
  "Some (clear_hint abi)" abi config "\<lambda>g T. T - set_option g" s0
  for abi config s0
  by unfold_locales (simp add: releases_group_def)

interpretation null_run: executor_run null_sink "\<lambda>_ _. None" "\<lambda>_. None" None abi config
  "\<lambda>g T. T - set_option g" s0
  for abi config s0
  by unfold_locales (simp add: releases_group_def)

section \<open>Progress and termination\<close>

lemma worker_enabled:
  assumes "\<not> x_wsleep x" and "x_worker x \<noteq> W_done"
  shows "\<exists>y. worker_step sink config dtor env x = Some y"
  using assms by (cases "x_worker x") (simp_all add: worker_step_def)

lemma dispatcher_enabled:
  assumes "\<not> x_dsleep x" and "\<forall>err. x_dispatcher x = D_join err \<longrightarrow> x_worker x = W_done"
    and "\<forall>r. x_dispatcher x \<noteq> D_done r"
  shows "\<exists>y. dispatcher_step abi sink env x = Some y"
  using assms by (cases "x_dispatcher x") (simp_all add: dispatcher_step_def)

text \<open>Whenever the dispatcher cannot move, the worker is awake and can.\<close>

lemma worker_awake_when_needed:
  assumes "control_inv x" and "sleep_inv x"
    and "x_dsleep x \<or> (\<exists>err. x_dispatcher x = D_join err) \<and> x_worker x \<noteq> W_done"
  shows "\<not> x_wsleep x \<and> x_worker x \<noteq> W_done"
  using assms by (cases "x_worker x"; cases "x_dispatcher x") (auto simp: control_defs sleep_inv_def)

lemma no_deadlock:
  assumes "control_inv x" and "sleep_inv x" and "\<forall>r. x_dispatcher x \<noteq> D_done r"
  shows "\<exists>y. thread_step abi sink config dtor x y"
proof (cases "x_dsleep x \<or> (\<exists>err. x_dispatcher x = D_join err) \<and> x_worker x \<noteq> W_done")
  case True
  with assms worker_awake_when_needed worker_enabled show ?thesis
    by (metis thread_step.work)
next
  case False
  with assms(3) have "\<exists>y. dispatcher_step abi sink denv x = Some y" for denv
    by (intro dispatcher_enabled) auto
  then show ?thesis by (metis thread_step.dispatch)
qed

text \<open>A measure of the work left once \<open>spinning\<close> is false.\<close>

fun dispatcher_rank :: "dispatcher_pc \<Rightarrow> nat" where
  "dispatcher_rank D_select = 10"
| "dispatcher_rank (D_publish w) = 9"
| "dispatcher_rank (D_handoff w) = 8"
| "dispatcher_rank D_notify_work = 7"
| "dispatcher_rank D_wait_ready = 6"
| "dispatcher_rank D_test = 5"
| "dispatcher_rank D_wait_idle = 5"
| "dispatcher_rank (D_stop e) = 4"
| "dispatcher_rank (D_shutdown e) = 3"
| "dispatcher_rank (D_notify_stop e) = 2"
| "dispatcher_rank (D_join e) = 1"
| "dispatcher_rank (D_done r) = 0"

fun worker_rank :: "worker_pc \<Rightarrow> nat" where
  "worker_rank W_configure = 12"
| "worker_rank W_register = 11"
| "worker_rank W_notify_ready = 10"
| "worker_rank (W_run w) = 9"
| "worker_rank (W_failed e) = 8"
| "worker_rank (W_cleared e) = 7"
| "worker_rank (W_outer e) = 6"
| "worker_rank W_notify_error = 5"
| "worker_rank W_cancel = 4"
| "worker_rank W_park = 3"
| "worker_rank W_wait = 2"
| "worker_rank W_done = 0"

definition shutdown_rank :: "'s executor \<Rightarrow> nat" where
  "shutdown_rank x =
     3 * (30 * dispatcher_rank (x_dispatcher x) + worker_rank (x_worker x) +
          (if x_pending x = None then 0 else 20)) +
     (if x_dsleep x then 0 else 1) + (if x_wsleep x then 0 else 1)"

lemma dispatcher_rank_decreases:
  assumes inv: "control_inv x" "resource_inv x" and st: "dispatcher_step abi sink env x = Some y"
    and "\<not> x_spinning x"
  shows "shutdown_rank y < shutdown_rank x" and "\<not> x_spinning y"
  using inv st
  by (cases rule: dispatcher_cases; insert assms(4) dispatcher_awake [OF st];
    simp add: shutdown_rank_def notify_all_def)+

lemma worker_rank_decreases:
  assumes inv: "control_inv x" "resource_inv x" and "releases_group dtor"
    and st: "worker_step sink config dtor env x = Some y" and "\<not> x_spinning x"
  shows "shutdown_rank y < shutdown_rank x" and "\<not> x_spinning y"
  using inv assms(3) st
  by (cases rule: worker_cases; insert assms(5) worker_awake [OF st];
    simp add: shutdown_rank_def notify_all_def)+

context executor_run
begin

lemma thread_rank:
  assumes "exec_inv slot view cleared s0 x" and "\<not> x_spinning x"
    and "thread_step abi sink config dtor x y"
  shows "shutdown_rank y < shutdown_rank x \<and> \<not> x_spinning y \<and> exec_inv slot view cleared s0 y"
proof -
  have inv: "control_inv x" "resource_inv x" using assms(1) by (simp_all add: exec_inv_def)
  from assms(3) show ?thesis
  proof cases
    case (dispatch denv)
    show ?thesis
      using dispatcher_rank_decreases [OF inv dispatch assms(2)] exec_inv_thread [OF assms(1,3)]
      by blast
  next
    case (work wenv)
    show ?thesis
      using worker_rank_decreases [OF inv destructor work assms(2)] exec_inv_thread [OF assms(1,3)]
      by blast
  qed
qed

lemma returns:
  assumes "exec_inv slot view cleared s0 x" and "\<not> x_spinning x"
  shows "\<exists>y r. (thread_step abi sink config dtor)\<^sup>*\<^sup>* x y \<and> x_dispatcher y = D_done r"
  using assms
proof (induction "shutdown_rank x" arbitrary: x rule: less_induct)
  case less
  show ?case
  proof (cases "\<exists>r. x_dispatcher x = D_done r")
    case True
    then show ?thesis by blast
  next
    case False
    have "control_inv x" "sleep_inv x" using less.prems(1) by (simp_all add: exec_inv_def)
    with False obtain y where y: "thread_step abi sink config dtor x y"
      using no_deadlock [of x abi sink config dtor] by blast
    note t = thread_rank [OF less.prems y]
    then obtain z r where "(thread_step abi sink config dtor)\<^sup>*\<^sup>* y z" "x_dispatcher z = D_done r"
      using less.hyps [of y] by blast
    with y show ?thesis by (meson converse_rtranclp_into_rtranclp)
  qed
qed

lemma terminates:
  assumes "exec_inv slot view cleared s0 (f 0)" and "\<not> x_spinning (f 0)"
  shows "\<exists>i. \<not> thread_step abi sink config dtor (f i) (f (Suc i))"
proof (rule ccontr)
  assume "\<nexists>i. \<not> thread_step abi sink config dtor (f i) (f (Suc i))"
  then have step: "thread_step abi sink config dtor (f i) (f (Suc i))" for i by blast
  have ok: "exec_inv slot view cleared s0 (f i) \<and> \<not> x_spinning (f i)" for i
    by (induction i) (use assms step thread_rank in blast)+
  have "shutdown_rank (f i) + i \<le> shutdown_rank (f 0)" for i
  proof (induction i)
    case (Suc i)
    have "shutdown_rank (f (Suc i)) < shutdown_rank (f i)"
      using thread_rank ok step by blast
    with Suc show ?case by linarith
  qed simp
  from this [of "Suc (shutdown_rank (f 0))"] show False by simp
qed

end

section \<open>A concrete run\<close>

text \<open>
  One message-aware callback on the pinned map: group 1, message 5, metadata (job 7, release 100), a
  deadline of 50 ns, admitted at time 120 on worker 42. \<open>Inl\<close> schedules the dispatcher, \<open>Inr\<close> the
  worker.
\<close>

definition example_abi :: fresh_abi where
  "example_abi = \<lparr>FRESH_STAGE_UNSPECIFIED = 255, FRESH_CLASS_BACKGROUND = 0,
     FRESH_CLASS_DEADLINE = 1, FRESH_CLASS_URGENT = 2\<rparr>"

definition example_profile :: callback_profile where
  "example_profile = \<lparr>p_stage_id = 1, p_class_id = 1, p_relative_deadline_ns = 50, p_stale_ns = 0,
     p_budget_ns = 0, p_slice_ns = 0, p_weight = 0, p_reject_expired = True\<rparr>"

definition example_executor :: "(u64 \<Rightarrow> fresh_task_hint option) executor" where
  "example_executor = \<lparr>x_pending = None, x_worker_ready = False, x_worker_idle = False,
     x_hint_needs_clear = False, x_stop = False, x_worker_id = 0, x_worker_error = None,
     x_profiles = [1 \<mapsto> \<lparr>pb_profile = example_profile,
       pb_metadata_extractor = Some (\<lambda>m. Inr \<lparr>md_job_id = 7, md_release_ts_ns = 100\<rparr>),
       pb_observer = None\<rparr>],
     x_next_job_id = 1, x_spinning = False, x_sink = (\<lambda>_. None), x_taken = {}, x_messages = [],
     x_dispatcher = D_done (Inr ()), x_worker = W_done, x_dsleep = False, x_wsleep = False\<rparr>"

definition example_dispatcher :: dispatcher_env where
  "example_dispatcher = \<lparr>de_ok = True,
     de_next = Next \<lparr>ex_callback_group = Some 1, ex_subscription = Some ROS_MESSAGE\<rparr> True,
     de_create = Inr 5, de_take = Inr True, de_now_hint = Inr 0, de_now_expiry = Inr 120\<rparr>"

definition example_worker :: worker_env where
  "example_worker = \<lparr>we_setaffinity = (\<lambda>_. 0), we_setattr = (\<lambda>_. None), we_setname = (\<lambda>_. 0),
     we_self = 42, we_now = Inr 130, we_handled = Inr (), we_executed = Inr (),
     we_released = True, we_cancelled = True\<rparr>"

definition example_config :: worker_config where
  "example_config = \<lparr>wc_sched_ext_policy = 7, wc_cpu = 2\<rparr>"

definition example_dtor :: "nat option \<Rightarrow> nat set \<Rightarrow> nat set" where
  "example_dtor g T = T - set_option g"

fun schedule ::
  "bool list \<Rightarrow> (u64 \<Rightarrow> fresh_task_hint option) executor \<Rightarrow>
   (u64 \<Rightarrow> fresh_task_hint option) executor option" where
  "schedule [] x = Some x"
| "schedule (True # bs) x =
     (case dispatcher_step example_abi (pinned_sink example_abi map_write) example_dispatcher x of
        None \<Rightarrow> None | Some y \<Rightarrow> schedule bs y)"
| "schedule (False # bs) x =
     (case worker_step (pinned_sink example_abi map_write) example_config example_dtor
             example_worker x of
        None \<Rightarrow> None | Some y \<Rightarrow> schedule bs y)"

definition example_hint :: fresh_task_hint where
  "example_hint = hint_zero\<lparr>h_stage_id := 1, h_class_id := 1, h_job_id := 7,
     h_release_ts_ns := 100, h_deadline_ts_ns := 150\<rparr>"

definition example_work :: pending_work where
  "example_work = \<lparr>w_executable = \<lparr>ex_callback_group = Some 1, ex_subscription = Some ROS_MESSAGE\<rparr>,
     w_hint = example_hint, w_message = Some 5, w_message_info = True, w_observer = None,
     w_reject_expired = True\<rparr>"

text \<open>From the entry of \<open>spin()\<close> to the running callback.\<close>

definition to_running :: "bool list" where
  "to_running = [False, False, False, False, True, True, True, True, True, True, True, False]"

abbreviation example_reach ::
  "(u64 \<Rightarrow> fresh_task_hint option) executor \<Rightarrow> bool" where
  "example_reach \<equiv> reach (spin_entry (\<lambda>_. None)) (exec_step example_abi
     (pinned_sink example_abi map_write) example_config example_dtor)"

lemma schedule_reach: "example_reach x \<Longrightarrow> schedule bs x = Some y \<Longrightarrow> example_reach y"
  by (induction bs x rule: schedule.induct)
    (auto split: option.splits dest: reach_step thread_step.intros exec_step.thread)

lemma example_entry: "example_reach (snd (spin_begin (Inr ()) example_executor))"
  by (rule reach_init)
    (auto simp: spin_entry_def spin_begin_def example_executor_def
      intro!: exI [of _ "Inr ()"] exI [of _ example_executor])

lemma example_contract: "hint_sink (pinned_sink example_abi map_write) (\<lambda>m. m) Some
    (Some (clear_hint example_abi))"
  by (rule pinned_contract [OF map_write_writes])

lemma example_releases: "releases_group example_dtor"
  by (simp add: releases_group_def example_dtor_def)

lemmas example_defs = example_abi_def example_profile_def example_executor_def
  example_dispatcher_def example_worker_def example_config_def example_dtor_def example_hint_def
  example_work_def to_running_def

lemmas exec_eval = spin_begin_def dispatcher_step_def worker_step_def configure_worker_def
  CPU_SETSIZE_def notify_all_def select_next_def prepare_def admit_def binding_for_def new_work_def
  make_hint_def add_saturating_def observe_def expired_def hint_expired_def pinned_sink_def
  pinned_publish_def pinned_clear_def map_write_def hint_zero_def word_less_nat_alt Let_def

lemma example_running_state:
  "schedule to_running (snd (spin_begin (Inr ()) example_executor)) =
     Some (example_executor\<lparr>x_worker_ready := True, x_hint_needs_clear := True, x_worker_id := 42,
       x_spinning := True, x_sink := [42 \<mapsto> example_hint], x_taken := {1}, x_messages := [5],
       x_dispatcher := D_test, x_worker := W_run example_work\<rparr>)"
  by (simp add: example_defs exec_eval)

section \<open>Properties\<close>

context executor_run
begin

lemma reachable_inv:
  "reach (spin_entry s0) (exec_step abi sink config dtor) x \<Longrightarrow> exec_inv slot view cleared s0 x"
  by (rule spin.reach_invar)

text \<open>Who writes the slot, and when.\<close>

lemma slot_writers:
  assumes inv: "exec_inv slot view cleared s0 x" and "exec_step abi sink config dtor x y"
    and ch: "slot (x_sink y) \<noteq> slot (x_sink x)"
  shows "(\<exists>w. x_dispatcher x = D_publish w) \<and> parked x \<or>
         (\<exists>err. x_dispatcher x = D_shutdown err) \<and> x_worker_idle x \<and> x_hint_needs_clear x \<or>
         (\<exists>e. x_worker x = W_failed e)"
proof -
  have i: "control_inv x" "resource_inv x" "worker_inv x"
    using inv by (simp_all add: exec_inv_def control_inv_def)
  from assms(2) show ?thesis
  proof cases
    case thread
    then show ?thesis
    proof cases
      case (dispatch denv)
      with i(1,2) show ?thesis
        by (cases rule: dispatcher_cases)
          (use ch i idle_facts(1) [OF i(3)] in
            \<open>auto simp: control_inv_def dispatcher_inv_def notify_all_def\<close>)
    next
      case (work wenv)
      with i(1,2) destructor show ?thesis
        by (cases rule: worker_cases) (use ch in \<open>auto simp: notify_all_def\<close>)
    qed
  next
    case (client call)
    have "x_sink y = x_sink x" using client_frame [of abi call x] client by (metis executor.select_convs(11)
      executor.surjective executor.update_convs(8))
    with ch show ?thesis by simp
  qed (use ch in simp_all)
qed

end

lemmas executor_runI = executor_run.intro [OF _ executor_run_axioms.intro]

text \<open>
  C1: From the moment a callback is handed to the worker until the worker has finished it, the
  worker's slot in the hint map shows that callback's hint, whatever the dispatcher, other threads
  and the environment do; and no slot but this worker's own ever changes.
\<close>

theorem hint_visible_in_flight:
  assumes "hint_sink sink slot view cleared" and "releases_group dtor"
    and "reach (spin_entry s0) (exec_step abi sink config dtor) x"
    and "x_pending x = Some w \<or> x_worker x = W_run w"
  shows "own_slot slot x = view (w_hint w) \<and>
         (\<forall>v. v \<noteq> x_worker_id x \<longrightarrow> slot (x_sink x) v = slot s0 v)"
  using executor_run.reachable_inv [OF executor_runI [OF assms(1,2)] assms(3)] assms(4)
  by (auto simp: exec_inv_def slot_inv_def)

definition example_running :: "(u64 \<Rightarrow> fresh_task_hint option) executor" where
  "example_running = example_executor\<lparr>x_worker_ready := True, x_hint_needs_clear := True,
     x_worker_id := 42, x_spinning := True, x_sink := [42 \<mapsto> example_hint], x_taken := {1},
     x_messages := [5], x_dispatcher := D_test, x_worker := W_run example_work\<rparr>"

lemma example_running_reach: "example_reach example_running"
  using schedule_reach [OF example_entry example_running_state]
  by (simp add: example_running_def)

theorem hint_visible_in_flight_witness:
  "own_slot (\<lambda>m. m) example_running = Some example_hint \<and> x_sink example_running 7 = None"
  using hint_visible_in_flight [OF example_contract example_releases example_running_reach,
      of example_work]
  by (auto simp: example_running_def example_work_def)

text \<open>
  The hint map is written in three situations only: by the dispatcher while the worker is parked
  with nothing handed over, by the dispatcher at shutdown once the worker is idle and a clear is owed,
  and by the worker itself after its callback threw. In particular no step of any thread replaces the
  hint of a callback that is handed over or running.
\<close>

theorem slot_written_only_between_callbacks:
  assumes "hint_sink sink slot view cleared" and "releases_group dtor"
    and "reach (spin_entry s0) (exec_step abi sink config dtor) x"
    and "exec_step abi sink config dtor x y" and "slot (x_sink y) \<noteq> slot (x_sink x)"
  shows "x_pending x = None \<and> (\<forall>w. x_worker x \<noteq> W_run w) \<and>
         ((\<exists>w. x_dispatcher x = D_publish w) \<and> parked x \<or>
          (\<exists>err. x_dispatcher x = D_shutdown err) \<and> x_worker_idle x \<and> x_hint_needs_clear x \<or>
          (\<exists>e. x_worker x = W_failed e))"
proof -
  note run = executor_runI [OF assms(1,2)]
  note inv = executor_run.reachable_inv [OF run assms(3)]
  note who = executor_run.slot_writers [OF run inv assms(4,5)]
  have "worker_inv x" using inv by (simp add: exec_inv_def control_inv_def)
  with who have "x_pending x = None \<and> (\<forall>w. x_worker x \<noteq> W_run w)"
    by (cases "x_worker x") (auto simp: worker_inv_def parked_def)
  with who show ?thesis by blast
qed

definition example_selected :: "(u64 \<Rightarrow> fresh_task_hint option) executor" where
  "example_selected = example_executor\<lparr>x_worker_ready := True, x_worker_idle := True,
     x_worker_id := 42, x_spinning := True, x_taken := {1}, x_messages := [5],
     x_dispatcher := D_publish example_work, x_worker := W_wait\<rparr>"

lemma example_selected_reach: "example_reach example_selected"
proof -
  have "schedule (take 8 to_running) (snd (spin_begin (Inr ()) example_executor)) = Some example_selected"
    by (simp add: example_selected_def example_defs exec_eval)
  then show ?thesis by (rule schedule_reach [OF example_entry])
qed

lemma example_publish_step:
  "exec_step example_abi (pinned_sink example_abi map_write) example_config example_dtor
     example_selected (example_selected\<lparr>x_sink := [42 \<mapsto> example_hint],
       x_dispatcher := D_handoff example_work\<rparr>)"
  by (rule exec_step.thread, rule thread_step.dispatch [where denv = example_dispatcher])
    (simp add: example_selected_def example_defs exec_eval)

theorem slot_written_only_between_callbacks_witness:
  "x_pending example_selected = None \<and> parked example_selected"
proof -
  have "([42 \<mapsto> example_hint] :: u64 \<Rightarrow> fresh_task_hint option) \<noteq> (\<lambda>_. None)"
    by (metis fun_upd_same option.distinct(1))
  then have ch: "x_sink (example_selected\<lparr>x_sink := [42 \<mapsto> example_hint],
      x_dispatcher := D_handoff example_work\<rparr>) \<noteq> x_sink example_selected"
    by (simp add: example_selected_def example_executor_def)
  show ?thesis
    using slot_written_only_between_callbacks [OF example_contract example_releases
        example_selected_reach example_publish_step] ch
    by (simp add: example_selected_def)
qed

text \<open>
  C2: When \<open>spin()\<close> returns or throws, the worker thread has ended, every callback group it took can
  be taken again and every message it created has been returned, and the executor no longer counts as
  spinning. If it returns normally, the worker met no exception and its slot is cleared (or was never
  written); if the worker failed or the final clear did, \<open>spin()\<close> throws.
\<close>

theorem spin_result:
  assumes "hint_sink sink slot view cleared" and "releases_group dtor"
    and "reach (spin_entry s0) (exec_step abi sink config dtor) x"
    and "x_dispatcher x = D_done r"
  shows "x_worker x = W_done \<and> \<not> x_spinning x \<and> x_taken x = {} \<and> x_messages x = [] \<and>
         (r = Inr () \<longrightarrow> x_worker_error x = None \<and>
            (own_slot slot x = cleared \<or> own_slot slot x = slot s0 (x_worker_id x)))"
proof -
  have inv: "exec_inv slot view cleared s0 x"
    using executor_run.reachable_inv [OF executor_runI [OF assms(1,2)] assms(3)] .
  then have fin: "x_worker x = W_done"
    using assms(4) by (simp add: exec_inv_def control_inv_def dispatcher_inv_def)
  then have none: "x_pending x = None"
    using inv by (simp add: exec_inv_def control_inv_def worker_inv_def)
  have "x_taken x = {} \<and> x_messages x = []"
    using inv fin none assms(4) by (simp add: exec_inv_def resource_inv_def in_progress_def)
  moreover have "\<not> x_spinning x"
    "x_hint_needs_clear x \<or> x_worker_error x \<noteq> None \<longrightarrow> (\<exists>e. r = Inl e)"
    using inv assms(4) by (simp_all add: exec_inv_def result_inv_def)
  moreover have "\<not> x_hint_needs_clear x \<longrightarrow>
      own_slot slot x = cleared \<or> own_slot slot x = slot s0 (x_worker_id x)"
    using inv assms(4) by (simp add: exec_inv_def slot_inv_def)
  ultimately show ?thesis using fin by auto
qed

text \<open>The run goes on: the callback ends, \<open>cancel()\<close> is called, the executor shuts down.\<close>

definition example_cancelled :: "(u64 \<Rightarrow> fresh_task_hint option) executor" where
  "example_cancelled = example_running\<lparr>x_spinning := False\<rparr>"

lemma example_cancelled_reach: "example_reach example_cancelled"
  unfolding example_cancelled_def by (rule reach_step [OF example_running_reach exec_step.cancel])

definition example_returned :: "(u64 \<Rightarrow> fresh_task_hint option) executor" where
  "example_returned = example_executor\<lparr>x_worker_ready := True, x_worker_idle := True,
     x_stop := True, x_worker_id := 42, x_sink := [42 \<mapsto> clear_hint example_abi]\<rparr>"

lemma example_returned_reach: "example_reach example_returned"
proof -
  have "schedule [False, False, False, True, True, True, True, False, True] example_cancelled =
      Some example_returned"
    by (simp add: example_cancelled_def example_running_def example_returned_def example_defs
      exec_eval run_work_def execute_taken_subscription_def give_up_eq clear_completed_hint_def)
  then show ?thesis by (rule schedule_reach [OF example_cancelled_reach])
qed

theorem spin_result_witness:
  "x_taken example_returned = {} \<and> x_messages example_returned = [] \<and>
   x_worker_error example_returned = None"
  using spin_result [OF example_contract example_releases example_returned_reach,
      of "Inr ()"]
  by (simp add: example_returned_def example_executor_def)

text \<open>
  C3: No deadlock and no lost wake-up: in every reachable state in which \<open>spin()\<close> has not returned, the
  dispatcher or the worker can take a step without any spurious wake-up. A thread sleeps in
  \<open>condition.wait\<close> only while the other thread still owes it the notification.
\<close>

theorem spin_no_deadlock:
  assumes "hint_sink sink slot view cleared" and "releases_group dtor"
    and "reach (spin_entry s0) (exec_step abi sink config dtor) x"
    and "\<forall>r. x_dispatcher x \<noteq> D_done r"
  shows "\<exists>y. thread_step abi sink config dtor x y"
  using executor_run.reachable_inv [OF executor_runI [OF assms(1,2)] assms(3)] assms(4)
  by (intro no_deadlock) (simp_all add: exec_inv_def)

theorem spin_no_deadlock_witness:
  "\<exists>y. thread_step example_abi (pinned_sink example_abi map_write) example_config example_dtor
     example_running y"
  using spin_no_deadlock [OF example_contract example_releases example_running_reach]
  by (simp add: example_running_def)

text \<open>
  C4: Once \<open>cancel()\<close> has been called (or the loop has been left), \<open>spin()\<close> returns: some schedule of the
  two threads reaches its end, and no schedule of the two threads is infinite, so every one does.
\<close>

theorem spin_returns_after_cancel:
  assumes "hint_sink sink slot view cleared" and "releases_group dtor"
    and "reach (spin_entry s0) (exec_step abi sink config dtor) x" and "\<not> x_spinning x"
  shows "(\<exists>y r. (thread_step abi sink config dtor)\<^sup>*\<^sup>* x y \<and> x_dispatcher y = D_done r) \<and>
         (\<forall>f. f 0 = x \<longrightarrow> (\<exists>i. \<not> thread_step abi sink config dtor (f i) (f (Suc i))))"
proof -
  note run = executor_runI [OF assms(1,2)]
  note inv = executor_run.reachable_inv [OF run assms(3)]
  show ?thesis
    using executor_run.returns [OF run inv assms(4)] executor_run.terminates [OF run] inv assms(4)
    by blast
qed

theorem spin_returns_after_cancel_witness:
  "\<exists>y r. (thread_step example_abi (pinned_sink example_abi map_write) example_config
     example_dtor)\<^sup>*\<^sup>* example_cancelled y \<and> x_dispatcher y = D_done r"
  using spin_returns_after_cancel [OF example_contract example_releases example_cancelled_reach]
  by (simp add: example_cancelled_def)



text \<open>
  While the executor counts as spinning every registry call fails and leaves the registry (and
  everything else) as it was.
\<close>

theorem registry_guarded:
  assumes "x_spinning x"
  shows "\<exists>e. client abi call x = (Inl e, x)"
  using assms
  by (cases call)
    (auto simp: add_subscription_callback_group_with_erased_metadata_def
      add_callback_group_with_profile_def remove_callback_group_def split: option.splits)

theorem registry_guarded_witness:
  "\<exists>e. client example_abi (Remove_group (Inr ()) (Some 1)) example_running =
     (Inl e, example_running)"
  by (rule registry_guarded) (simp add: example_running_def)

definition valid_class :: "fresh_abi \<Rightarrow> u32 \<Rightarrow> bool" where
  "valid_class abi c \<longleftrightarrow> c = FRESH_CLASS_BACKGROUND abi \<or> c = FRESH_CLASS_DEADLINE abi \<or>
     c = FRESH_CLASS_URGENT abi"

definition registry_ok :: "fresh_abi \<Rightarrow> (nat \<Rightarrow> profile_binding option) \<Rightarrow> bool" where
  "registry_ok abi ps \<longleftrightarrow> (\<forall>g b. ps g = Some b \<longrightarrow> valid_class abi (p_class_id (pb_profile b)))"

lemma registry_ok_update:
  assumes "registry_ok abi ps" and "valid_class abi (p_class_id (pb_profile b))"
  shows "registry_ok abi (ps(g \<mapsto> b))"
  using assms by (simp add: registry_ok_def)

lemma registry_ok_client:
  assumes "registry_ok abi (x_profiles x)"
  shows "registry_ok abi (x_profiles (snd (client abi call x)))"
proof (cases call)
  case (Add_group base g n p)
  with assms show ?thesis
    by (auto simp: add_callback_group_with_profile_def valid_class_def
        intro!: registry_ok_update split: option.splits sum.splits)
next
  case (Add_subscription base g n p ext ob)
  with assms show ?thesis
    by (auto simp: add_subscription_callback_group_with_erased_metadata_def profiles_at_def
        add_callback_group_with_profile_def valid_class_def
        intro!: registry_ok_update split: option.splits sum.splits)
next
  case (Remove_group base g)
  with assms show ?thesis
    by (auto simp: remove_callback_group_def registry_ok_def split: option.splits sum.splits)
qed

text \<open>
  A registry built from an empty one by a sequence of registrations and removals, none of them while
  the executor spins; and what it should hold for a group: the binding of the last registration of the
  group that succeeded, unless the group was removed after it.
\<close>

definition registered ::
  "fresh_abi \<Rightarrow> client_call list \<Rightarrow> 's executor \<Rightarrow> nat \<Rightarrow> profile_binding option" where
  "registered abi calls x = x_profiles (fold (\<lambda>c y. snd (client abi c y)) calls
     (x\<lparr>x_profiles := Map.empty, x_spinning := False\<rparr>))"

fun registration ::
  "fresh_abi \<Rightarrow> nat \<Rightarrow> client_call \<Rightarrow> profile_binding option \<Rightarrow> profile_binding option" where
  "registration abi g (Add_group base k n p) old =
     (if k = Some g \<and> n \<and> valid_class abi (p_class_id p) \<and> base = Inr ()
      then Some \<lparr>pb_profile = p, pb_metadata_extractor = None, pb_observer = None\<rparr> else old)"
| "registration abi g (Add_subscription base k n p ext ob) old =
     (if k = Some g \<and> n \<and> valid_class abi (p_class_id p) \<and> base = Inr () \<and> ext \<noteq> None
      then Some \<lparr>pb_profile = p, pb_metadata_extractor = ext, pb_observer = ob\<rparr> else old)"
| "registration abi g (Remove_group base k) old = (if k = Some g \<and> base = Inr () then None else old)"

lemma client_spinning [simp]: "x_spinning (snd (client abi call x)) = x_spinning x"
  using arg_cong [OF client_frame, of x_spinning abi call x] by simp

lemma client_registration:
  assumes "\<not> x_spinning x"
  shows "x_profiles (snd (client abi call x)) g = registration abi g call (x_profiles x g)"
  using assms
  by (cases call)
    (auto simp: add_callback_group_with_profile_def profiles_at_def remove_callback_group_def
      add_subscription_callback_group_with_erased_metadata_def valid_class_def
      split: option.splits sum.splits)

lemma registered_last: "registered abi calls x g = fold (registration abi g) calls None"
proof -
  have "\<not> x_spinning y \<Longrightarrow> x_profiles (fold (\<lambda>c y. snd (client abi c y)) calls y) g =
      fold (registration abi g) calls (x_profiles y g)" for y
    by (induction calls arbitrary: y) (simp_all add: client_registration)
  from this [of "x\<lparr>x_profiles := Map.empty, x_spinning := False\<rparr>"]
  show ?thesis unfolding registered_def by simp
qed

text \<open>The binding that holds for what \<open>get_next_executable\<close> returned, after those calls.\<close>

definition last_binding :: "fresh_abi \<Rightarrow> client_call list \<Rightarrow> any_executable \<Rightarrow> profile_binding" where
  "last_binding abi calls e =
     (case Option.bind (ex_callback_group e) (\<lambda>g. fold (registration abi g) calls None) of
        None \<Rightarrow> default_binding abi
      | Some b \<Rightarrow> b)"

lemma binding_for_registered:
  "x_profiles x = registered abi calls x0 \<Longrightarrow> binding_for abi e x = last_binding abi calls e"
  by (cases "ex_callback_group e") (simp_all add: binding_for_def last_binding_def registered_last)

lemma registered_ok: "registry_ok abi (registered abi calls x)"
proof -
  have "registry_ok abi (x_profiles y) \<Longrightarrow>
      registry_ok abi (x_profiles (fold (\<lambda>c y. snd (client abi c y)) calls y))" for y
    by (induction calls arbitrary: y) (simp_all add: registry_ok_client)
  from this [of "x\<lparr>x_profiles := Map.empty, x_spinning := False\<rparr>"]
  show ?thesis unfolding registered_def by (simp add: registry_ok_def)
qed

lemma binding_class:
  assumes "registry_ok abi (x_profiles x)"
  shows "valid_class abi (p_class_id (pb_profile (binding_for abi e x)))"
  using assms
  by (auto simp: binding_for_def registry_ok_def default_binding_def default_profile_def
      valid_class_def split: option.splits)

text \<open>
  C6: However the registry was built up by registrations and removals, what the dispatcher hands on
  carries exactly the hint of the binding that holds for its group, the last registration of the group
  that succeeded and was not removed, or else the default profile: stage, a valid service class,
  freshness limit, budget, slice and weight of the profile, no flags, the deadline at the relative
  deadline after the release (0 for none, saturating). Without an extractor the job number is the
  executor's own and the release the clock's; a message-aware subscription has the nonzero identity
  and release time of its message, the registered observer, and with \<open>reject_expired\<close> it is not expired
  at the admission test.
\<close>

theorem prepare_admits:
  assumes reg: "x_profiles x = registered abi calls x0" and "prepare abi env e x = (P_publish w, y)"
  shows "w_executable w = e \<and>
    (let b = last_binding abi calls e; p = pb_profile b; job = h_job_id (w_hint w);
         release = h_release_ts_ns (w_hint w); deadline = h_deadline_ts_ns (w_hint w)
     in valid_class abi (p_class_id p) \<and>
        w_hint w = \<lparr>h_stage_id = p_stage_id p, h_class_id = p_class_id p, h_job_id = job,
          h_release_ts_ns = release, h_deadline_ts_ns = deadline, h_stale_ns = p_stale_ns p,
          h_budget_ns = p_budget_ns p, h_slice_ns = p_slice_ns p, h_weight = p_weight p, h_flags = 0\<rparr> \<and>
        unat deadline = (if p_relative_deadline_ns p = 0 then 0
          else min (unat release + unat (p_relative_deadline_ns p)) (2 ^ 64 - 1)) \<and>
        (case pb_metadata_extractor b of
           None \<Rightarrow> w_message w = None \<and> job = x_next_job_id x \<and> de_now_hint env = Inr release \<and>
             x_next_job_id y = x_next_job_id x + 1
         | Some ext \<Rightarrow> (\<exists>m md. w_message w = Some m \<and> ext m = Inr md \<and>
             job = md_job_id md \<and> release = md_release_ts_ns md \<and> job \<noteq> 0 \<and> release \<noteq> 0 \<and>
             x_next_job_id y = x_next_job_id x) \<and>
             w_observer w = pb_observer b \<and> w_reject_expired w = p_reject_expired p \<and>
             (p_reject_expired p \<longrightarrow>
                (\<exists>t. de_now_expiry env = Inr t \<and> \<not> hint_expired t (w_hint w)))))"
proof -
  have b: "binding_for abi e x = last_binding abi calls e" by (rule binding_for_registered [OF reg])
  have cls: "valid_class abi (p_class_id (pb_profile (last_binding abi calls e)))"
    unfolding b [symmetric] by (rule binding_class) (simp add: reg registered_ok)
  show ?thesis
  proof (cases "pb_metadata_extractor (last_binding abi calls e)")
    case None
    with assms(2) cls b show ?thesis
      by (auto simp: prepare_def Let_def fail_def make_hint_def new_work_def hint_zero_def
        add_saturating_value split: sum.splits)
  next
    case (Some ext)
    from assms(2) Some b obtain m md where "ext m = Inr md"
      and adm: "admit env (last_binding abi calls e) md ((new_work e)\<lparr>w_message := Some m,
          w_message_info := True\<rparr>) (x\<lparr>x_messages := m # x_messages x\<rparr>) = (P_publish w, y)"
      by (auto simp: prepare_def Let_def fail_def
        split: option.splits sum.splits bool.splits delivered_kind.splits)
    with Some cls show ?thesis
      by (auto simp: admit_def Let_def fail_def make_hint_def new_work_def hint_zero_def
          add_saturating_value expired_def drop_work_def split_beta
        split: if_splits sum.splits bool.splits)
  qed
qed

theorem prepare_admits_witness:
  "\<exists>w y. prepare example_abi example_dispatcher \<lparr>ex_callback_group = Some 1,
       ex_subscription = Some ROS_MESSAGE\<rparr> example_executor = (P_publish w, y) \<and>
     valid_class example_abi (h_class_id (w_hint w)) \<and> unat (h_deadline_ts_ns (w_hint w)) = 150 \<and>
     \<not> hint_expired 120 (w_hint w)"
proof -
  let ?e = "\<lparr>ex_callback_group = Some 1, ex_subscription = Some ROS_MESSAGE\<rparr>"
  let ?c = "[Add_subscription (Inr ()) (Some 1) True example_profile
      (Some (\<lambda>m. Inr \<lparr>md_job_id = 7, md_release_ts_ns = 100\<rparr>)) None]"
  have p: "prepare example_abi example_dispatcher ?e example_executor =
      (P_publish example_work, example_executor\<lparr>x_messages := [5]\<rparr>)"
    by (simp add: example_defs exec_eval)
  have r: "x_profiles example_executor = registered example_abi ?c example_executor"
    by (simp add: registered_def add_subscription_callback_group_with_erased_metadata_def
      add_callback_group_with_profile_def profiles_at_def example_defs)
  have b: "last_binding example_abi ?c ?e = \<lparr>pb_profile = example_profile,
      pb_metadata_extractor = Some (\<lambda>m. Inr \<lparr>md_job_id = 7, md_release_ts_ns = 100\<rparr>), pb_observer = None\<rparr>"
    by (simp add: last_binding_def valid_class_def example_defs)
  have h: "h_class_id example_hint = p_class_id example_profile" "h_release_ts_ns example_hint = 100"
    "p_relative_deadline_ns example_profile = 50" "p_reject_expired example_profile"
    "w_hint example_work = example_hint" "de_now_expiry example_dispatcher = Inr 120"
    by (simp_all add: example_defs hint_zero_def)
  note pa = prepare_admits [OF r p, unfolded b Let_def profile_binding.select_convs option.case h(5,6)]
  have "valid_class example_abi (h_class_id example_hint)" using pa h(1) by simp
  moreover have "unat (h_deadline_ts_ns example_hint) = 150" using pa h(2,3) by simp
  moreover have "\<not> hint_expired 120 example_hint" using pa h(4) by simp
  ultimately show ?thesis using p h(5) by auto
qed

text \<open>
  A thread that could not be started leaves \<open>spinning\<close> set: every later call of \<open>spin()\<close> and of the
  registry is refused, until somebody calls \<open>cancel()\<close>.
\<close>

theorem failed_start_blocks:
  assumes "\<not> x_spinning x" and "spin_begin (Inl e) x = (r, y)"
  shows "r = Inl e \<and> fst (spin_begin start y) =
      Inl (Runtime_error ''FreshnessExecutor::spin() called while already spinning'') \<and>
    (\<exists>err. client abi call y = (Inl err, y)) \<and> fst (spin_begin (Inr ()) (cancel_call y)) = Inr ()"
proof -
  have y: "r = Inl e" "x_spinning y" using assms by (auto simp: spin_begin_def Let_def)
  have "\<exists>err. client abi call y = (Inl err, y)" by (rule registry_guarded [OF y(2)])
  with y show ?thesis by (simp add: spin_begin_def Let_def)
qed

text \<open>
  C25: The guard of \<open>spin()\<close> and of the registry is the flag \<open>spinning\<close>, which \<open>cancel()\<close> resets before
  the running \<open>spin()\<close> has shut down. At every reachable state in which a callback runs and nobody
  has cancelled, \<open>spin()\<close> is refused and changes nothing; \<open>cancel()\<close> alone leads to a reachable state
  in which the callback still runs, its hint is in the slot and the clear is owed, and yet \<open>spin()\<close> is
  admitted: it forgets the worker's identity and the owed clear, and keeps the group, the message and
  the hint of the callback of the first call.
\<close>

theorem spin_guard_reset_by_cancel:
  assumes "hint_sink sink slot view cleared" and "releases_group dtor"
    and run: "reach (spin_entry s0) (exec_step abi sink config dtor) x"
    and "x_spinning x" and w: "x_worker x = W_run w"
  shows "spin_begin start x =
      (Inl (Runtime_error ''FreshnessExecutor::spin() called while already spinning''), x) \<and>
    (let z = cancel_call x in
       reach (spin_entry s0) (exec_step abi sink config dtor) z \<and> x_worker z = W_run w \<and>
       x_hint_needs_clear z \<and> own_slot slot z = view (w_hint w) \<and>
       (\<exists>y. spin_begin (Inr ()) z = (Inr (), y) \<and> \<not> x_hint_needs_clear y \<and> x_worker_id y = 0 \<and>
          slot (x_sink y) (x_worker_id z) = view (w_hint w) \<and> x_taken y = x_taken z \<and>
          x_messages y = (case w_message w of None \<Rightarrow> [] | Some m \<Rightarrow> [m])))"
proof -
  have inv: "exec_inv slot view cleared s0 x"
    by (rule executor_run.reachable_inv [OF executor_runI [OF assms(1,2)] run])
  then have own: "own_slot slot x = view (w_hint w)" using w by (auto simp: exec_inv_def slot_inv_def)
  have cl: "x_hint_needs_clear x" "x_pending x = None"
    using inv w by (auto simp: exec_inv_def control_inv_def worker_inv_def)
  have "x_messages x = (case w_message w of None \<Rightarrow> [] | Some m \<Rightarrow> [m])"
    using inv w cl(2) by (auto simp: exec_inv_def resource_inv_def in_progress_def owns_def
      split: option.splits)
  moreover have "reach (spin_entry s0) (exec_step abi sink config dtor) (cancel_call x)"
    by (rule reach_step [OF run exec_step.cancel])
  ultimately show ?thesis using assms(4) w own cl by (simp add: spin_begin_def own_slot_def Let_def)
qed

theorem spin_guard_reset_by_cancel_witness:
  "fst (spin_begin (Inr ()) example_running) \<noteq> Inr () \<and>
   x_worker (cancel_call example_running) = W_run example_work \<and>
   fst (spin_begin (Inr ()) (cancel_call example_running)) = Inr ()"
proof -
  have s: "x_spinning example_running" "x_worker example_running = W_run example_work"
    by (simp_all add: example_running_def)
  from spin_guard_reset_by_cancel [OF example_contract example_releases example_running_reach s, of "Inr ()"]
  show ?thesis by (auto simp: Let_def)
qed

end
