(* ===== verification/Worker.thy ===== *)
theory Worker
  imports Hints
begin

text \<open>
  The worker threads of the dependent workload, class \<open>Worker\<close> of
  \<^verbatim>\<open>src/demo/dependent_workload.cpp\<close>: the owner's bounded queue, the one-job handoff slot, the
  thread that executes it, the result the owner collects, and the shutdown. Every operation is one
  critical section of the worker's mutex (or owner-local); any interleaving of the owner's calls with
  the thread's steps is a sequence of them. The completion closure of a job is a value \<open>'c\<close> that
  \<open>collect\<close> hands back for its caller to run, which is the last thing the method does. Clock
  readings, scheduler calls and \<open>freshqos\<close> are inputs.
\<close>

section \<open>Jobs, results, workers\<close>

record 'c job =
  j_id :: u64
  j_release :: u64
  j_deadline :: u64
  j_work :: u64
  j_complete :: 'c
  j_assigned :: u64
  j_budget :: u64
  j_outcome :: int

record 'c job_result =
  r_job :: "'c job"
  r_start :: u64
  r_end :: u64
  r_cpu :: u64

record trace_row =
  t_id :: u64
  t_release :: u64
  t_assigned :: u64
  t_start :: u64
  t_end :: u64
  t_observed :: u64
  t_deadline :: u64
  t_cpu :: u64
  t_work :: u64
  t_budget :: u64
  t_outcome :: int

datatype 'c thread_pc = T_start | T_wait | T_exec "'c job" | T_ended

record ('c, 's) worker =
  wk_slot :: "'c job option"
  wk_result :: "'c job_result option"
  wk_stopping :: bool
  wk_ready :: bool
  wk_tid :: u64
  wk_error :: "exn option"
  wk_qos :: bool
  wk_cls :: u32
  wk_stage :: u32
  wk_fifo :: bool
  wk_offered :: u64
  wk_dropped :: u64
  wk_completed :: u64
  wk_late :: u64
  wk_cpu_time :: u64
  wk_max_start :: u64
  wk_max_age :: u64
  wk_enrollment_begin :: u64
  wk_enrollment_end :: u64
  wk_shutdown_begin :: u64
  wk_shutdown_end :: u64
  wk_actual_policy :: int
  wk_actual_priority :: int
  wk_traces :: "trace_row list"
  wk_tracing :: bool
  wk_queue :: "'c job list"
  wk_busy :: bool
  wk_thread :: "'c thread_pc"
  wk_asleep :: bool
  wk_enrolled :: bool
  wk_joinable :: bool
  wk_hints :: 's

section \<open>Clock\<close>

text \<open>\<open>clock_gettime\<close> fails, or gives seconds and nanoseconds.\<close>

definition clock_ns :: "(u64 \<times> u64) option \<Rightarrow> u64 res" where
  "clock_ns r = (case r of None \<Rightarrow> Inl (Runtime_error ''clock_gettime failed'')
                 | Some (sec, nsec) \<Rightarrow> Inr (sec * 1000000000 + nsec))"

definition pin_cpu :: "int \<Rightarrow> unit res" where
  "pin_cpu error = (if error \<noteq> 0 then Inl (Runtime_error ''CPU affinity failed'') else Inr ())"

section \<open>The thread\<close>

definition worker_new ::
  "bool \<Rightarrow> u32 \<Rightarrow> u32 \<Rightarrow> bool \<Rightarrow> 's \<Rightarrow> ('c, 's) worker" where
  "worker_new qos cls stage fifo s =
     \<lparr>wk_slot = None, wk_result = None, wk_stopping = False, wk_ready = False, wk_tid = 0,
      wk_error = None, wk_qos = qos, wk_cls = cls, wk_stage = stage, wk_fifo = fifo,
      wk_offered = 0, wk_dropped = 0, wk_completed = 0, wk_late = 0, wk_cpu_time = 0,
      wk_max_start = 0, wk_max_age = 0, wk_enrollment_begin = 0, wk_enrollment_end = 0,
      wk_shutdown_begin = 0, wk_shutdown_end = 0, wk_actual_policy = 0, wk_actual_priority = 0,
      wk_traces = [], wk_tracing = False, wk_queue = [], wk_busy = False, wk_thread = T_start,
      wk_asleep = False, wk_enrolled = False, wk_joinable = True, wk_hints = s\<rparr>"

text \<open>The handler of \<open>run\<close>: the exception is kept, the owner released from its wait.\<close>

definition worker_fail :: "exn \<Rightarrow> ('c, 's) worker \<Rightarrow> ('c, 's) worker" where
  "worker_fail e w = w\<lparr>wk_error := Some e, wk_ready := True, wk_thread := T_ended\<rparr>"

definition SCHED_OTHER :: int where "SCHED_OTHER = 0"
definition SCHED_FIFO :: int where "SCHED_FIFO = 1"

text \<open>The system as seen by the thread's start.\<close>

record 's startup_env =
  su_pin :: int
  su_tid :: u64
  su_begin :: "u64 res"
  su_clear :: "u64 \<Rightarrow> 's \<Rightarrow> int \<times> 's"
  su_setscheduler :: "int \<Rightarrow> int \<Rightarrow> int"
  su_end :: "u64 res"
  su_getscheduler :: int
  su_getparam :: "int option"

definition fifo_priority :: "fresh_abi \<Rightarrow> bool \<Rightarrow> u32 \<Rightarrow> u32 \<Rightarrow> int" where
  "fifo_priority abi fifo cls stage =
     (if fifo then (if cls = FRESH_CLASS_URGENT abi then 70 else if stage = 0 then 60 else 50) else 0)"

text \<open>Enrollment (lines 56 to 64): \<open>Inl\<close> the exception, with the worker as it is then.\<close>

definition worker_enroll ::
  "fresh_abi \<Rightarrow> 's startup_env \<Rightarrow> ('c, 's) worker \<Rightarrow> unit res \<times> ('c, 's) worker" where
  "worker_enroll abi env w =
     (if \<not> (wk_qos w \<or> (wk_fifo w \<and> wk_cls w \<noteq> FRESH_CLASS_BACKGROUND abi)) then (Inr (), w)
      else case su_begin env of
        Inl e \<Rightarrow> (Inl e, w)
      | Inr tb \<Rightarrow>
          (let w1 = w\<lparr>wk_enrollment_begin := tb\<rparr>;
               (cl, s) = (if wk_qos w then su_clear env (wk_tid w) (wk_hints w) else (0, wk_hints w));
               w2 = w1\<lparr>wk_hints := s\<rparr>
           in if cl \<noteq> 0 then (Inl (Runtime_error ''initial hint clear failed''), w2)
              else if su_setscheduler env (if wk_fifo w then SCHED_FIFO else 7)
                        (fifo_priority abi (wk_fifo w) (wk_cls w) (wk_stage w)) \<noteq> 0 then
                (Inl (Runtime_error ''worker enrollment failed''), w2)
              else case su_end env of
                Inl e \<Rightarrow> (Inl e, w2\<lparr>wk_enrolled := True\<rparr>)
              | Inr te \<Rightarrow> (Inr (), w2\<lparr>wk_enrolled := True, wk_enrollment_end := te\<rparr>)))"

text \<open>
  The start of \<open>run\<close> up to the sleep in the first wait, which holds the mutex throughout: nothing is in
  the slot yet.
\<close>

definition worker_startup ::
  "fresh_abi \<Rightarrow> 's startup_env \<Rightarrow> ('c, 's) worker \<Rightarrow> ('c, 's) worker" where
  "worker_startup abi env w =
     (case pin_cpu (su_pin env) of
        Inl e \<Rightarrow> worker_fail e w
      | Inr _ \<Rightarrow>
          (case worker_enroll abi env (w\<lparr>wk_tid := su_tid env\<rparr>) of
             (Inl e, w1) \<Rightarrow> worker_fail e w1
           | (Inr _, w1) \<Rightarrow>
               (let w2 = w1\<lparr>wk_actual_policy := su_getscheduler env\<rparr>
                in case (if su_getscheduler env < 0 then None else su_getparam env) of
                     None \<Rightarrow> worker_fail (Runtime_error ''read worker policy failed'') w2
                   | Some prio \<Rightarrow>
                       w2\<lparr>wk_actual_priority := prio, wk_ready := True, wk_thread := T_wait, wk_asleep := True\<rparr>)))"

text \<open>
  The busy loop: thread CPU clock readings are consumed until the work is done; the next reading
  gives the time used. \<open>None\<close>: the readings ended before.
\<close>

fun burn :: "u64 \<Rightarrow> u64 \<Rightarrow> u64 list \<Rightarrow> u64 option" where
  "burn before work [] = None"
| "burn before work (c # cs) =
     (if c - before < work then burn before work cs
      else case cs of [] \<Rightarrow> None | used # _ \<Rightarrow> Some (used - before))"

record 's thread_env =
  te_start :: "u64 res"
  te_before :: "u64 res"
  te_readings :: "u64 list"
  te_failed_reading :: "exn option"
  te_end :: "u64 res"
  te_shutdown_begin :: "u64 res"
  te_setscheduler :: "int \<Rightarrow> int"
  te_clear :: "u64 \<Rightarrow> 's \<Rightarrow> int \<times> 's"
  te_shutdown_end :: "u64 res"

text \<open>After \<open>stopping\<close>: restore the scheduler, clear the hint (lines 81 to 88).\<close>

definition worker_shutdown :: "'s thread_env \<Rightarrow> ('c, 's) worker \<Rightarrow> ('c, 's) worker" where
  "worker_shutdown env w =
     (case te_shutdown_begin env of
        Inl e \<Rightarrow> worker_fail e w
      | Inr tb \<Rightarrow>
          (let w1 = w\<lparr>wk_shutdown_begin := tb\<rparr>
           in if wk_enrolled w \<and> te_setscheduler env SCHED_OTHER \<noteq> 0 then
                worker_fail (Runtime_error ''scheduler restore failed'') w1
              else
                (let (cl, s) = (if wk_qos w then te_clear env (wk_tid w) (wk_hints w)
                                else (0, wk_hints w));
                     w2 = w1\<lparr>wk_hints := s\<rparr>
                 in if cl \<noteq> 0 then worker_fail (Runtime_error ''hint clear failed'') w2
                    else case te_shutdown_end env of
                      Inl e \<Rightarrow> worker_fail e w2
                    | Inr te \<Rightarrow> w2\<lparr>wk_shutdown_end := te, wk_thread := T_ended\<rparr>)))"

text \<open>
  One step of the thread, \<open>None\<close> while it sleeps in \<open>cv.wait\<close>, while a job's work is not yet done, or
  when it has ended. Woken in \<open>T_wait\<close> by a notification (or without one, \<open>spurious_wake\<close>) the thread tests
  the predicate of the wait and goes back to sleep if that does not hold; after a job it tests it in the
  critical section that stores the result. A clock that fails while the job runs is \<open>te_failed_reading\<close>.
\<close>

definition thread_run :: "'s thread_env \<Rightarrow> ('c, 's) worker \<Rightarrow> ('c, 's) worker option" where
  "thread_run env w =
     (case wk_thread w of
        T_wait \<Rightarrow>
          if wk_asleep w then None
          else if wk_stopping w then Some (worker_shutdown env w)
          else (case wk_slot w of
                  None \<Rightarrow> Some (w\<lparr>wk_asleep := True\<rparr>)
                | Some j \<Rightarrow> Some (w\<lparr>wk_slot := None, wk_thread := T_exec j\<rparr>))
      | T_exec j \<Rightarrow>
          (case te_start env of
             Inl e \<Rightarrow> Some (worker_fail e w)
           | Inr start \<Rightarrow>
               (case te_before env of
                  Inl e \<Rightarrow> Some (worker_fail e w)
                | Inr before \<Rightarrow>
                    (case te_failed_reading env of
                       Some e \<Rightarrow> Some (worker_fail e w)
                     | None \<Rightarrow>
                         (case burn before (j_work j) (te_readings env) of
                            None \<Rightarrow> None
                          | Some used \<Rightarrow>
                              (case te_end env of
                                 Inl e \<Rightarrow> Some (worker_fail e w)
                               | Inr fin \<Rightarrow>
                                   Some (w\<lparr>wk_result := Some \<lparr>r_job = j, r_start = start,
                                             r_end = fin, r_cpu = used\<rparr>,
                                           wk_thread := T_wait,
                                           wk_asleep := (\<not> wk_stopping w \<and> wk_slot w = None)\<rparr>))))))
      | _ \<Rightarrow> None)"

definition spurious_wake :: "('c, 's) worker \<Rightarrow> ('c, 's) worker" where
  "spurious_wake w = w\<lparr>wk_asleep := False\<rparr>"

text \<open>
  \<open>cv.notify_one()\<close> and \<open>cv.notify_all()\<close>: after the construction only the thread waits on \<open>cv\<close>.
\<close>

definition notify_thread :: "('c, 's) worker \<Rightarrow> ('c, 's) worker" where
  "notify_thread w = w\<lparr>wk_asleep := False\<rparr>"

declare spurious_wake_def [simp] notify_thread_def [simp]

section \<open>The owner\<close>

text \<open>\<open>offer\<close>: reject the new job when 32 are queued.\<close>

definition worker_offer :: "'c job \<Rightarrow> ('c, 's) worker \<Rightarrow> bool \<times> ('c, 's) worker" where
  "worker_offer j w =
     (let w1 = w\<lparr>wk_offered := wk_offered w + 1\<rparr>
      in if vsize (wk_queue w) = 32 then (False, w1\<lparr>wk_dropped := wk_dropped w + 1\<rparr>)
         else (True, w1\<lparr>wk_queue := wk_queue w @ [j]\<rparr>))"

text \<open>The arguments of \<open>freshqos_publish_job_for\<close>, and the call, as one hint.\<close>

definition job_hint :: "u32 \<Rightarrow> u32 \<Rightarrow> 'c job \<Rightarrow> fresh_task_hint" where
  "job_hint stage cls j = hint_zero\<lparr>h_stage_id := stage, h_class_id := cls, h_job_id := j_id j,
     h_release_ts_ns := j_release j, h_deadline_ts_ns := j_deadline j, h_budget_ns := j_budget j\<rparr>"

definition worker_dispatch ::
  "(u64 \<Rightarrow> fresh_task_hint \<Rightarrow> 's \<Rightarrow> int \<times> 's) \<Rightarrow> u64 res \<Rightarrow> ('c, 's) worker \<Rightarrow>
   unit res \<times> ('c, 's) worker" where
  "worker_dispatch pub now w =
     (case wk_error w of
        Some e \<Rightarrow> (Inl e, w)
      | None \<Rightarrow>
          if wk_busy w then (Inr (), w)
          else case wk_queue w of
            [] \<Rightarrow> (Inr (), w)
          | j # js \<Rightarrow>
              (let (error, s) = (if wk_qos w
                                 then pub (wk_tid w) (job_hint (wk_stage w) (wk_cls w) j) (wk_hints w)
                                 else (0, wk_hints w));
                   w1 = w\<lparr>wk_hints := s\<rparr>
               in if error \<noteq> 0 then (Inl (Runtime_error ''hint publication failed''), w1)
                  else case now of
                    Inl e \<Rightarrow> (Inl e, w1\<lparr>wk_slot := Some j\<rparr>)
                  | Inr t \<Rightarrow> (Inr (), notify_thread (w1\<lparr>wk_slot := Some (j\<lparr>j_assigned := t\<rparr>), wk_queue := js,
                                         wk_busy := True\<rparr>))))"

definition trace_of :: "u64 \<Rightarrow> 'c job_result \<Rightarrow> trace_row" where
  "trace_of observed r = \<lparr>t_id = j_id (r_job r), t_release = j_release (r_job r),
     t_assigned = j_assigned (r_job r), t_start = r_start r, t_end = r_end r,
     t_observed = observed, t_deadline = j_deadline (r_job r), t_cpu = r_cpu r,
     t_work = j_work (r_job r), t_budget = j_budget (r_job r), t_outcome = j_outcome (r_job r)\<rparr>"

text \<open>\<open>collect\<close>: account for the result and hand back its completion with the end time.\<close>

definition worker_collect ::
  "u64 res \<Rightarrow> ('c, 's) worker \<Rightarrow> ('c \<times> u64) option res \<times> ('c, 's) worker" where
  "worker_collect now w =
     (case wk_error w of
        Some e \<Rightarrow> (Inl e, w)
      | None \<Rightarrow>
          (case wk_result w of
             None \<Rightarrow> (Inr None, w)
           | Some r \<Rightarrow>
               (let w1 = w\<lparr>wk_result := None\<rparr>
                in case (if wk_tracing w then now else Inr 0) of
                     Inl e \<Rightarrow> (Inl e, w1)
                   | Inr observed \<Rightarrow>
                       (Inr (Some (j_complete (r_job r), r_end r)),
                        w1\<lparr>wk_traces := (if wk_tracing w then wk_traces w @ [trace_of observed r]
                                         else wk_traces w),
                           wk_busy := False,
                           wk_completed := wk_completed w + 1,
                           wk_cpu_time := wk_cpu_time w + r_cpu r,
                           wk_max_start := max (wk_max_start w) (r_start r - j_release (r_job r)),
                           wk_max_age := max (wk_max_age w) (r_end r - j_release (r_job r)),
                           wk_late := wk_late w + (if r_end r > j_deadline (r_job r) then 1 else 0)\<rparr>))))"

text \<open>
  \<open>finish\<close> up to the wake-up (lines 118 to 127): the completed hint is retired only when nothing is
  owned by the worker. The retirement publishes a background hint without times.
\<close>

definition retired_hint :: "fresh_abi \<Rightarrow> u32 \<Rightarrow> fresh_task_hint" where
  "retired_hint abi stage =
     hint_zero\<lparr>h_stage_id := stage, h_class_id := FRESH_CLASS_BACKGROUND abi\<rparr>"

definition worker_finish ::
  "fresh_abi \<Rightarrow> (u64 \<Rightarrow> fresh_task_hint \<Rightarrow> 's \<Rightarrow> int \<times> 's) \<Rightarrow> ('c, 's) worker \<Rightarrow> ('c, 's) worker" where
  "worker_finish abi pub w =
     (if \<not> wk_joinable w then w
      else
        (let (error, s) =
           (if wk_qos w \<and> \<not> wk_busy w \<and> wk_slot w = None \<and> wk_result w = None \<and> wk_error w = None
            then pub (wk_tid w) (retired_hint abi (wk_stage w)) (wk_hints w)
            else (0, wk_hints w));
          w1 = notify_thread (w\<lparr>wk_hints := s, wk_stopping := True\<rparr>)
         in if error \<noteq> 0
            then w1\<lparr>wk_error := Some (Runtime_error ''shutdown hint retirement failed'')\<rparr> else w1))"

text \<open>\<open>thread.join()\<close>: possible once the thread has ended.\<close>

definition worker_join :: "('c, 's) worker \<Rightarrow> ('c, 's) worker option" where
  "worker_join w = (if wk_thread w = T_ended then Some (w\<lparr>wk_joinable := False\<rparr>) else None)"

definition worker_check :: "('c, 's) worker \<Rightarrow> unit res" where
  "worker_check w = (case wk_error w of Some e \<Rightarrow> Inl e | None \<Rightarrow> Inr ())"

text \<open>The constructor's end: wait for \<open>ready\<close>, join and rethrow a failed start.\<close>

definition worker_constructed :: "('c, 's) worker \<Rightarrow> (unit res \<times> ('c, 's) worker) option" where
  "worker_constructed w =
     (if \<not> wk_ready w then None
      else case wk_error w of
        Some e \<Rightarrow> Some (Inl e, w\<lparr>wk_joinable := False\<rparr>)
      | None \<Rightarrow> Some (Inr (), w))"

section \<open>Sequences of operations\<close>

text \<open>
  Everything that may happen to a constructed worker: calls of its owner, steps and spurious wake-ups of its thread, and
  the two public counters the owner moves itself when it skips a release
  (\<open>++control.offered; ++control.dropped\<close>).
\<close>

definition worker_skip :: "('c, 's) worker \<Rightarrow> ('c, 's) worker" where
  "worker_skip w = w\<lparr>wk_offered := wk_offered w + 1, wk_dropped := wk_dropped w + 1\<rparr>"

datatype ('c, 's) worker_op =
    Op_offer "'c job"
  | Op_skip
  | Op_dispatch "u64 res"
  | Op_collect "u64 res"
  | Op_thread "'s thread_env"
  | Op_wake
  | Op_finish

fun worker_apply ::
  "fresh_abi \<Rightarrow> (u64 \<Rightarrow> fresh_task_hint \<Rightarrow> 's \<Rightarrow> int \<times> 's) \<Rightarrow> ('c, 's) worker_op \<Rightarrow>
   ('c, 's) worker \<Rightarrow> unit res \<times> ('c, 's) worker" where
  "worker_apply abi pub (Op_offer j) w = (Inr (), snd (worker_offer j w))"
| "worker_apply abi pub Op_skip w = (Inr (), worker_skip w)"
| "worker_apply abi pub (Op_dispatch now) w = worker_dispatch pub now w"
| "worker_apply abi pub (Op_collect now) w =
     (case worker_collect now w of (Inl e, v) \<Rightarrow> (Inl e, v) | (Inr _, v) \<Rightarrow> (Inr (), v))"
| "worker_apply abi pub (Op_thread env) w =
     (Inr (), case thread_run env w of None \<Rightarrow> w | Some v \<Rightarrow> v)"
| "worker_apply abi pub Op_wake w = (Inr (), spurious_wake w)"
| "worker_apply abi pub Op_finish w = (Inr (), worker_finish abi pub w)"

text \<open>The owner leaves its loop at the first exception, so a run goes on only after normal returns.\<close>

definition worker_moves ::
  "fresh_abi \<Rightarrow> (u64 \<Rightarrow> fresh_task_hint \<Rightarrow> 's \<Rightarrow> int \<times> 's) \<Rightarrow> ('c, 's) worker \<Rightarrow> ('c, 's) worker \<Rightarrow>
   bool" where
  "worker_moves abi pub w v \<longleftrightarrow> (\<exists>op. worker_apply abi pub op w = (Inr (), v))"

definition worker_init :: "('c, 's) worker \<Rightarrow> bool" where
  "worker_init w \<longleftrightarrow> (\<exists>abi env qos cls stage fifo s.
     worker_constructed (worker_startup abi env (worker_new qos cls stage fifo s)) = Some (Inr (), w))"

section \<open>Invariant\<close>

text \<open>The job the worker owns between dispatch and collection.\<close>

definition executing :: "'c thread_pc \<Rightarrow> 'c job list" where
  "executing pc = (case pc of T_exec j \<Rightarrow> [j] | _ \<Rightarrow> [])"

definition pipeline :: "('c, 's) worker \<Rightarrow> 'c job list" where
  "pipeline w = (case wk_slot w of None \<Rightarrow> [] | Some j \<Rightarrow> [j]) @ executing (wk_thread w) @
     (case wk_result w of None \<Rightarrow> [] | Some r \<Rightarrow> [r_job r])"

definition counted :: "('c, 's) worker \<Rightarrow> bool" where
  "counted w \<longleftrightarrow> wk_offered w = wk_dropped w + wk_completed w + vsize (wk_queue w) +
     (if wk_busy w then 1 else 0)"

definition handed_over :: "('c, 's) worker \<Rightarrow> bool" where
  "handed_over w \<longleftrightarrow> (wk_error w = None \<longrightarrow> length (pipeline w) = (if wk_busy w then 1 else 0)) \<and>
     (wk_error w \<noteq> None \<longrightarrow> wk_thread w = T_ended \<or> wk_stopping w \<and> executing (wk_thread w) = [])"

text \<open>No lost wake-up: a thread asleep has nothing to do.\<close>

definition rests :: "('c, 's) worker \<Rightarrow> bool" where
  "rests w \<longleftrightarrow> (wk_asleep w \<longrightarrow> wk_slot w = None \<and> \<not> wk_stopping w \<and> executing (wk_thread w) = [])"

definition worker_ok :: "('c, 's) worker \<Rightarrow> bool" where
  "worker_ok w \<longleftrightarrow> counted w \<and> handed_over w \<and> length (wk_queue w) \<le> 32 \<and> wk_thread w \<noteq> T_start \<and> rests w"

lemma executing_simps [simp]:
  "executing T_wait = []" "executing T_ended = []" "executing (T_exec j) = [j]" "executing T_start = []"
  by (simp_all add: executing_def)

lemma queue_full_iff:
  "length (wk_queue w) \<le> 32 \<Longrightarrow> vsize (wk_queue w) = 32 \<longleftrightarrow> length (wk_queue w) = 32"
  using vsize_eq_iff [of "wk_queue w" 32] by simp

lemma counted_accept:
  "counted w \<Longrightarrow> counted (w\<lparr>wk_offered := wk_offered w + 1, wk_queue := wk_queue w @ [j]\<rparr>)"
  by (simp add: counted_def)

lemma counted_skip: "counted w \<Longrightarrow> counted (worker_skip w)"
  by (simp add: counted_def worker_skip_def)

lemma wk_offer_cases:
  assumes "length (wk_queue w) \<le> 32"
  obtains (accept) "length (wk_queue w) < 32" "worker_offer j w =
      (True, w\<lparr>wk_offered := wk_offered w + 1, wk_queue := wk_queue w @ [j]\<rparr>)"
  | (reject) "length (wk_queue w) = 32" "worker_offer j w = (False, worker_skip w)"
  using assms queue_full_iff [OF assms]
  by (cases "length (wk_queue w) = 32") (simp_all add: worker_offer_def worker_skip_def Let_def)

lemma wk_skip_ok: "worker_ok w \<Longrightarrow> worker_ok (worker_skip w)"
  using counted_skip [of w]
  by (simp add: worker_ok_def handed_over_def rests_def pipeline_def worker_skip_def)

lemma wk_offer_ok:
  assumes "worker_ok w"
  shows "worker_ok (snd (worker_offer j w))"
proof -
  have "length (wk_queue w) \<le> 32" using assms by (simp add: worker_ok_def)
  then show ?thesis
  proof (cases rule: wk_offer_cases [where j = j])
    case accept
    with assms counted_accept [of w j] show ?thesis
      by (simp add: worker_ok_def handed_over_def rests_def pipeline_def)
  next
    case reject
    with assms wk_skip_ok show ?thesis by simp
  qed
qed

lemma wk_dispatch_cases:
  assumes "worker_dispatch pub now w = (r, v)"
  obtains (failed) e where "wk_error w = Some e" "r = Inl e" "v = w"
  | (nothing) "wk_error w = None" "wk_busy w \<or> wk_queue w = []" "r = Inr ()" "v = w"
  | (publication) j js s where "wk_error w = None" "\<not> wk_busy w" "wk_queue w = j # js"
      "r = Inl (Runtime_error ''hint publication failed'')" "v = w\<lparr>wk_hints := s\<rparr>" "wk_qos w"
      "pub (wk_tid w) (job_hint (wk_stage w) (wk_cls w) j) (wk_hints w) \<noteq> (0, s)"
  | (clock) e j js s where "wk_error w = None" "\<not> wk_busy w" "wk_queue w = j # js" "now = Inl e"
      "r = Inl e" "v = w\<lparr>wk_hints := s, wk_slot := Some j\<rparr>"
  | (dispatched) t j js s where "wk_error w = None" "\<not> wk_busy w" "wk_queue w = j # js"
      "now = Inr t" "r = Inr ()"
      "v = w\<lparr>wk_hints := s, wk_slot := Some (j\<lparr>j_assigned := t\<rparr>), wk_queue := js, wk_busy := True,
             wk_asleep := False\<rparr>"
      "if wk_qos w then pub (wk_tid w) (job_hint (wk_stage w) (wk_cls w) j) (wk_hints w) = (0, s)
       else s = wk_hints w"
proof (cases "wk_error w")
  case (Some e)
  with assms show ?thesis by (intro failed [of e]) (simp_all add: worker_dispatch_def)
next
  case none: None
  show ?thesis
  proof (cases "wk_busy w \<or> wk_queue w = []")
    case True
    then have "worker_dispatch pub now w = (Inr (), w)"
      using none by (cases "wk_queue w") (simp_all add: worker_dispatch_def)
    with assms have "r = Inr ()" "v = w" by simp_all
    with none True show ?thesis by (rule nothing)
  next
    case False
    then obtain j js where q: "wk_queue w = j # js" "\<not> wk_busy w" by (cases "wk_queue w") auto
    obtain err s where p: "(if wk_qos w
        then pub (wk_tid w) (job_hint (wk_stage w) (wk_cls w) j) (wk_hints w)
        else (0, wk_hints w)) = (err, s)" by fastforce
    show ?thesis
    proof (cases "err = 0")
      case ok: True
      show ?thesis
      proof (cases now)
        case (Inl e)
        with assms none q p ok show ?thesis
          by (intro clock [where e = e and j = j and js = js and s = s]) (simp_all add: worker_dispatch_def)
      next
        case (Inr t)
        with assms none q p ok show ?thesis
          by (intro dispatched [where j = j and js = js and t = t and s = s]) (simp_all add: worker_dispatch_def notify_thread_def split: if_splits)
      qed
    next
      case False
      with p have "wk_qos w" by (auto split: if_splits)
      with False assms none q p show ?thesis
        by (intro publication [where j = j and js = js and s = s]) (simp_all add: worker_dispatch_def)
    qed
  qed
qed

lemma wk_dispatch_ok:
  assumes "worker_ok w" and "worker_dispatch pub now w = (Inr (), v)"
  shows "worker_ok v"
  using assms(2)
proof (cases rule: wk_dispatch_cases)
  case (dispatched t j js s)
  have "pipeline w = []" using assms(1) dispatched by (simp add: worker_ok_def handed_over_def rests_def)
  then have "executing (wk_thread w) = []" "wk_result w = None"
    by (auto simp: pipeline_def split: option.splits)
  moreover have "counted v"
    using assms(1) dispatched by (simp add: worker_ok_def counted_def)
  ultimately show ?thesis
    using assms(1) dispatched by (simp add: worker_ok_def handed_over_def rests_def pipeline_def)
qed (use assms(1) in simp_all)

definition credit :: "u64 res \<Rightarrow> 'c job_result \<Rightarrow> ('c, 's) worker \<Rightarrow> ('c, 's) worker" where
  "credit now r w =
     w\<lparr>wk_result := None,
       wk_traces := (if wk_tracing w then wk_traces w @ [trace_of (projr now) r] else wk_traces w),
       wk_busy := False,
       wk_completed := wk_completed w + 1,
       wk_cpu_time := wk_cpu_time w + r_cpu r,
       wk_max_start := max (wk_max_start w) (r_start r - j_release (r_job r)),
       wk_max_age := max (wk_max_age w) (r_end r - j_release (r_job r)),
       wk_late := wk_late w + (if r_end r > j_deadline (r_job r) then 1 else 0)\<rparr>"

lemma wk_collect_cases:
  assumes "worker_collect now w = (r, v)"
  obtains (failed) e where "wk_error w = Some e" "r = Inl e" "v = w"
  | (nothing) "wk_error w = None" "wk_result w = None" "r = Inr None" "v = w"
  | (clock) e q where "wk_error w = None" "wk_result w = Some q" "r = Inl e"
      "v = w\<lparr>wk_result := None\<rparr>"
  | (collected) q where "wk_error w = None" "wk_result w = Some q"
      "r = Inr (Some (j_complete (r_job q), r_end q))" "v = credit now q w"
proof (cases "wk_error w")
  case (Some e)
  with assms show ?thesis by (intro failed [of e]) (simp_all add: worker_collect_def)
next
  case none: None
  show ?thesis
  proof (cases "wk_result w")
    case None
    have "r = Inr None" "v = w" using assms none None by (simp_all add: worker_collect_def)
    with none None show ?thesis by (rule nothing)
  next
    case (Some q)
    show ?thesis
    proof (cases "if wk_tracing w then now else Inr 0")
      case (Inl e)
      with assms none Some show ?thesis
        by (intro clock [where e = e and q = q]) (simp_all add: worker_collect_def)
    next
      case (Inr t)
      with assms none Some show ?thesis
        by (intro collected [where q = q])
          (auto simp: worker_collect_def credit_def split: if_splits)
    qed
  qed
qed

lemma wk_collect_ok:
  assumes "worker_ok w" and "worker_collect now w = (Inr a, v)"
  shows "worker_ok v"
  using assms(2)
proof (cases rule: wk_collect_cases)
  case (collected q)
  have b: "wk_busy w" using assms(1) collected(1,2)
    by (auto simp: worker_ok_def handed_over_def rests_def pipeline_def split: if_splits)
  have "counted v"
    using assms(1) b collected(4) by (simp add: worker_ok_def counted_def credit_def)
  with assms(1) b collected show ?thesis
    by (auto simp: worker_ok_def handed_over_def rests_def pipeline_def credit_def split: option.splits)
qed (use assms(1) in simp_all)

lemma worker_fail_ok: "worker_ok w \<Longrightarrow> worker_ok (worker_fail e w)"
  by (simp add: worker_ok_def worker_fail_def handed_over_def rests_def counted_def)

lemma worker_shutdown_cases:
  obtains (failed) e tb s where "worker_shutdown env w = worker_fail e (w\<lparr>wk_shutdown_begin := tb, wk_hints := s\<rparr>)"
  | (ended) tb te s where "worker_shutdown env w =
      w\<lparr>wk_shutdown_begin := tb, wk_hints := s, wk_shutdown_end := te, wk_thread := T_ended\<rparr>"
proof (cases "te_shutdown_begin env")
  case (Inl e)
  then have "worker_shutdown env w = worker_fail e (w\<lparr>wk_shutdown_begin := wk_shutdown_begin w,
      wk_hints := wk_hints w\<rparr>)" by (simp add: worker_shutdown_def)
  then show ?thesis by (rule failed)
next
  case (Inr tb)
  obtain cl s where c: "(if wk_qos w then te_clear env (wk_tid w) (wk_hints w) else (0, wk_hints w)) =
      (cl, s)" by fastforce
  show ?thesis
  proof (cases "wk_enrolled w \<and> te_setscheduler env SCHED_OTHER \<noteq> 0")
    case True
    then have "worker_shutdown env w = worker_fail (Runtime_error ''scheduler restore failed'')
        (w\<lparr>wk_shutdown_begin := tb, wk_hints := wk_hints w\<rparr>)"
      by (simp add: worker_shutdown_def Inr)
    then show ?thesis by (rule failed)
  next
    case restored: False
    show ?thesis
    proof (cases "cl = 0")
      case False
      then have "worker_shutdown env w = worker_fail (Runtime_error ''hint clear failed'')
          (w\<lparr>wk_shutdown_begin := tb, wk_hints := s\<rparr>)"
        using c restored by (auto simp: worker_shutdown_def Inr)
      then show ?thesis by (rule failed)
    next
      case True
      with c restored show ?thesis
        by (cases "te_shutdown_end env")
          (auto simp: worker_shutdown_def Inr intro: failed ended)
    qed
  qed
qed

lemma thread_cases:
  assumes "thread_run env w = Some v"
  obtains (shutdown) "wk_thread w = T_wait" "\<not> wk_asleep w" "wk_stopping w" "v = worker_shutdown env w"
  | (sleep) "wk_thread w = T_wait" "\<not> wk_asleep w" "\<not> wk_stopping w" "wk_slot w = None"
      "v = w\<lparr>wk_asleep := True\<rparr>"
  | (start) j where "wk_thread w = T_wait" "\<not> wk_asleep w" "\<not> wk_stopping w" "wk_slot w = Some j"
      "v = w\<lparr>wk_slot := None, wk_thread := T_exec j\<rparr>"
  | (failed) j e where "wk_thread w = T_exec j" "v = worker_fail e w"
  | (finished) j start before used fin where "wk_thread w = T_exec j"
      "te_before env = Inr before" "burn before (j_work j) (te_readings env) = Some used"
      "te_start env = Inr start" "te_end env = Inr fin"
      "v = w\<lparr>wk_result := Some \<lparr>r_job = j, r_start = start, r_end = fin, r_cpu = used\<rparr>,
             wk_thread := T_wait, wk_asleep := (\<not> wk_stopping w \<and> wk_slot w = None)\<rparr>"
  using assms
  by (auto simp: thread_run_def split: thread_pc.splits if_splits option.splits sum.splits)

lemma wk_thread_ok:
  assumes "worker_ok w" and "thread_run env w = Some v"
  shows "worker_ok v"
  using assms(2)
proof (cases rule: thread_cases)
  case shutdown
  show ?thesis
    by (cases rule: worker_shutdown_cases [of env w])
      (use assms(1) shutdown in \<open>simp_all add: worker_ok_def worker_fail_def handed_over_def rests_def
        counted_def pipeline_def\<close>)
next
  case sleep
  with assms(1) show ?thesis
    by (simp add: worker_ok_def handed_over_def rests_def counted_def pipeline_def)
next
  case (start j)
  with assms(1) show ?thesis
    by (simp add: worker_ok_def handed_over_def rests_def counted_def pipeline_def)
next
  case (failed j e)
  with assms(1) worker_fail_ok show ?thesis by simp
next
  case (finished j start before used fin)
  with assms(1) show ?thesis
    by (auto simp: worker_ok_def handed_over_def rests_def counted_def pipeline_def split: if_splits)
qed

lemma wk_finish_cases:
  obtains (joined) "worker_finish abi pub w = w"
  | (stopped) s where "worker_finish abi pub w = w\<lparr>wk_hints := s, wk_stopping := True, wk_asleep := False\<rparr>"
      "s = wk_hints w \<or> \<not> wk_busy w \<and> wk_error w = None"
  | (failed) s e where "worker_finish abi pub w =
      w\<lparr>wk_hints := s, wk_stopping := True, wk_asleep := False, wk_error := Some e\<rparr>" "\<not> wk_busy w" "wk_error w = None"
proof (cases "wk_joinable w")
  case False
  then show ?thesis by (intro joined) (simp add: worker_finish_def)
next
  case True
  let ?c = "wk_qos w \<and> \<not> wk_busy w \<and> wk_slot w = None \<and> wk_result w = None \<and> wk_error w = None"
  obtain err s where p: "(if ?c then pub (wk_tid w) (retired_hint abi (wk_stage w)) (wk_hints w)
      else (0, wk_hints w)) = (err, s)" by fastforce
  have fin: "worker_finish abi pub w = (if err \<noteq> 0 then w\<lparr>wk_hints := s, wk_stopping := True,
      wk_asleep := False, wk_error := Some (Runtime_error ''shutdown hint retirement failed'')\<rparr>
      else w\<lparr>wk_hints := s, wk_stopping := True, wk_asleep := False\<rparr>)"
    unfolding worker_finish_def p using True by (simp add: notify_thread_def)
  show ?thesis
  proof (cases "err = 0")
    case True
    with fin p show ?thesis by (intro stopped [of s]) (auto split: if_splits)
  next
    case False
    with p have ?c by (auto split: if_splits)
    with False fin show ?thesis by (intro failed) auto
  qed
qed

lemma wk_finish_ok:
  assumes "worker_ok w"
  shows "worker_ok (worker_finish abi pub w)"
proof (cases rule: wk_finish_cases [of abi pub w])
  case (failed s e)
  then have "executing (wk_thread w) = []"
    using assms by (auto simp: worker_ok_def handed_over_def rests_def pipeline_def)
  with failed assms show ?thesis
    by (simp add: worker_ok_def handed_over_def rests_def pipeline_def counted_def)
qed (use assms in \<open>auto simp: worker_ok_def handed_over_def rests_def pipeline_def counted_def\<close>)

lemma wk_wake_ok: "worker_ok w \<Longrightarrow> worker_ok (spurious_wake w)"
  by (simp add: worker_ok_def handed_over_def rests_def counted_def pipeline_def)

lemma wk_apply_ok:
  assumes "worker_ok w" and "worker_apply abi pub op w = (Inr (), v)"
  shows "worker_ok v"
proof (cases op)
  case (Op_collect now)
  with assms wk_collect_ok show ?thesis by (auto split: prod.splits sum.splits)
next
  case (Op_thread env)
  with assms wk_thread_ok show ?thesis by (auto split: option.splits)
qed (use assms wk_offer_ok wk_skip_ok wk_dispatch_ok wk_finish_ok wk_wake_ok in \<open>auto simp del: spurious_wake_def\<close>)

text \<open>A constructed worker has accepted nothing and counted nothing.\<close>

definition unused :: "('c, 's) worker \<Rightarrow> bool" where
  "unused w \<longleftrightarrow> wk_error w = None \<and> wk_slot w = None \<and> wk_result w = None \<and> wk_queue w = [] \<and>
     \<not> wk_busy w \<and> wk_offered w = 0 \<and> wk_dropped w = 0 \<and> wk_completed w = 0 \<and> \<not> wk_stopping w \<and>
     wk_cpu_time w = 0 \<and> wk_late w = 0 \<and> wk_max_age w = 0"

lemma enroll_unused: "unused w \<Longrightarrow> unused (snd (worker_enroll abi env w))"
  by (simp add: worker_enroll_def Let_def unused_def split: prod.splits sum.splits)

lemma wk_init_unused:
  fixes w :: "('c, 's) worker"
  assumes "worker_init w"
  shows "unused w \<and> wk_thread w = T_wait"
proof -
  obtain abi env qos cls stage fifo s where
    c: "worker_constructed (worker_startup abi env (worker_new qos cls stage fifo s)) = Some (Inr (), w)"
    using assms by (auto simp: worker_init_def)
  let ?n = "(worker_new qos cls stage fifo s)\<lparr>wk_tid := su_tid env\<rparr> :: ('c, 's) worker"
  obtain r v where e: "worker_enroll abi env ?n = (r, v)" by fastforce
  have "unused ?n" by (simp add: unused_def worker_new_def)
  then have v: "unused v" using enroll_unused [of ?n abi env] e by simp
  from c have "w = worker_startup abi env (worker_new qos cls stage fifo s)" and "wk_error w = None"
    by (auto simp: worker_constructed_def split: if_splits option.splits)
  with e v show ?thesis
    by (auto simp: worker_startup_def worker_fail_def unused_def Let_def
        split: sum.splits option.splits if_splits)
qed

lemma wk_init_ok: "worker_init w \<Longrightarrow> worker_ok w"
  using wk_init_unused [of w]
  by (simp add: worker_ok_def counted_def handed_over_def rests_def pipeline_def unused_def)

interpretation worker_inv: invariant_system worker_init "worker_moves abi pub" worker_ok
  for abi :: fresh_abi and pub :: "u64 \<Rightarrow> fresh_task_hint \<Rightarrow> 's \<Rightarrow> int \<times> 's"
  by unfold_locales (auto simp: worker_moves_def intro: wk_init_ok wk_apply_ok)

section \<open>History\<close>

text \<open>
  A run of operations with what it accepted and what it collected; \<open>None\<close> if a call threw.
\<close>

definition accepted :: "('c, 's) worker_op \<Rightarrow> ('c, 's) worker \<Rightarrow> 'c job list" where
  "accepted op w = (case op of Op_offer j \<Rightarrow> if fst (worker_offer j w) then [j] else [] | _ \<Rightarrow> [])"

definition collected :: "('c, 's) worker_op \<Rightarrow> ('c, 's) worker \<Rightarrow> 'c job_result list" where
  "collected op w = (case op of Op_collect now \<Rightarrow>
     (case wk_result w of None \<Rightarrow> [] | Some r \<Rightarrow> [r]) | _ \<Rightarrow> [])"

fun worker_history ::
  "fresh_abi \<Rightarrow> (u64 \<Rightarrow> fresh_task_hint \<Rightarrow> 's \<Rightarrow> int \<times> 's) \<Rightarrow> ('c, 's) worker_op list \<Rightarrow>
   ('c, 's) worker \<Rightarrow> ('c job list \<times> 'c job_result list \<times> ('c, 's) worker) option" where
  "worker_history abi pub [] w = Some ([], [], w)"
| "worker_history abi pub (op # ops) w =
     (case worker_apply abi pub op w of
        (Inl e, v) \<Rightarrow> None
      | (Inr _, v) \<Rightarrow>
          (case worker_history abi pub ops v of
             None \<Rightarrow> None
           | Some (acc, rs, u) \<Rightarrow> Some (accepted op w @ acc, collected op w @ rs, u)))"

text \<open>A job apart from the time it was assigned.\<close>

definition unassigned :: "'c job \<Rightarrow> 'c job" where
  "unassigned j = j\<lparr>j_assigned := 0\<rparr>"

lemma unassigned_assigned [simp]: "unassigned (j\<lparr>j_assigned := t\<rparr>) = unassigned j"
  by (simp add: unassigned_def)

definition backlog :: "('c, 's) worker \<Rightarrow> 'c job list" where
  "backlog w = map unassigned (pipeline w @ wk_queue w)"

lemma error_sticky:
  assumes "worker_apply abi pub op w = (Inr (), v)" and "wk_error v = None"
  shows "wk_error w = None"
proof (cases op)
  case (Op_dispatch now)
  from assms(1) Op_dispatch have "worker_dispatch pub now w = (Inr (), v)" by simp
  then show ?thesis by (cases rule: wk_dispatch_cases) (use assms(2) in auto)
next
  case (Op_collect now)
  with assms show ?thesis by (auto simp: worker_collect_def split: option.splits)
next
  case (Op_thread env)
  show ?thesis
  proof (cases "thread_run env w")
    case None
    with assms Op_thread show ?thesis by simp
  next
    case (Some u)
    have u: "v = u" using Some assms(1) Op_thread by simp
    from Some show ?thesis
    proof (cases rule: thread_cases)
      case shutdown
      then show ?thesis
        by (cases rule: worker_shutdown_cases [of env w]) (use u assms(2) in \<open>auto simp: worker_fail_def\<close>)
    qed (use u assms(2) in \<open>auto simp: worker_fail_def\<close>)
  qed
next
  case Op_finish
  have v: "v = worker_finish abi pub w" using Op_finish assms(1) by simp
  show ?thesis
    by (cases rule: wk_finish_cases [of abi pub w]) (use v assms(2) in simp_all)
qed (use assms in \<open>auto simp: worker_skip_def worker_offer_def Let_def split: if_splits\<close>)

text \<open>One operation moves jobs along the line: accepted at its end, collected from its front.\<close>

lemma wk_apply_line:
  assumes ok: "worker_ok w" and ap: "worker_apply abi pub op w = (Inr (), v)" and err: "wk_error v = None"
  shows "backlog w @ map unassigned (accepted op w) = map (unassigned \<circ> r_job) (collected op w) @ backlog v"
proof -
  have noerr: "wk_error w = None" using error_sticky [OF ap err] .
  show ?thesis
  proof (cases op)
    case (Op_offer j)
    have "length (wk_queue w) \<le> 32" using ok by (simp add: worker_ok_def)
    then show ?thesis
      by (cases rule: wk_offer_cases [where j = j])
        (use ap Op_offer in \<open>auto simp: accepted_def collected_def backlog_def pipeline_def worker_skip_def\<close>)
  next
    case Op_skip
    with ap show ?thesis
      by (auto simp: accepted_def collected_def backlog_def pipeline_def worker_skip_def)
  next
    case (Op_dispatch now)
    then have "worker_dispatch pub now w = (Inr (), v)" using ap by simp
    then show ?thesis
    proof (cases rule: wk_dispatch_cases)
      case (dispatched t j js s)
      have "pipeline w = []" using ok dispatched by (simp add: worker_ok_def handed_over_def rests_def)
      then have "executing (wk_thread w) = []" "wk_result w = None" "wk_slot w = None"
        by (auto simp: pipeline_def split: option.splits)
      with dispatched Op_dispatch show ?thesis
        by (simp add: accepted_def collected_def backlog_def pipeline_def)
    qed (use Op_dispatch in \<open>simp_all add: accepted_def collected_def\<close>)
  next
    case (Op_collect now)
    then obtain a where "worker_collect now w = (Inr a, v)" using ap by (auto split: prod.splits sum.splits)
    then show ?thesis
    proof (cases rule: wk_collect_cases)
      case (collected q)
      then have "length (pipeline w) \<le> 1" using ok noerr
        by (simp add: worker_ok_def handed_over_def rests_def)
      with collected have "wk_slot w = None" "executing (wk_thread w) = []"
        by (auto simp: pipeline_def split: option.splits)
      with collected Op_collect show ?thesis
        by (simp add: accepted_def collected_def backlog_def pipeline_def credit_def)
    qed (use Op_collect in \<open>simp_all add: accepted_def collected_def\<close>)
  next
    case (Op_thread env)
    show ?thesis
    proof (cases "thread_run env w")
      case None
      with ap Op_thread show ?thesis by (simp add: accepted_def collected_def)
    next
      case (Some u)
      then have v: "v = u" using ap Op_thread by simp
      from Some show ?thesis
      proof (cases rule: thread_cases)
        case shutdown
        then show ?thesis
          by (cases rule: worker_shutdown_cases [of env w])
            (use v err Op_thread shutdown in \<open>auto simp: worker_fail_def accepted_def collected_def
              backlog_def pipeline_def\<close>)
      next
        case (failed j e)
        with v err show ?thesis by (simp add: worker_fail_def)
      next
        case sleep
        with v Op_thread show ?thesis
          by (simp add: accepted_def collected_def backlog_def pipeline_def)
      next
        case (start j)
        with v Op_thread show ?thesis
          by (simp add: accepted_def collected_def backlog_def pipeline_def)
      next
        case (finished j s b us f)
        then have "length (pipeline w) \<le> 1" using ok noerr
          by (simp add: worker_ok_def handed_over_def rests_def)
        with finished have "wk_slot w = None" "wk_result w = None"
          by (auto simp: pipeline_def split: option.splits)
        with finished v Op_thread show ?thesis
          by (simp add: accepted_def collected_def backlog_def pipeline_def)
      qed
    qed
  next
    case Op_finish
    have v: "v = worker_finish abi pub w" using Op_finish ap by simp
    show ?thesis
      by (cases rule: wk_finish_cases [of abi pub w])
        (use v err Op_finish in \<open>simp_all add: accepted_def collected_def backlog_def pipeline_def\<close>)
  next
    case Op_wake
    then show ?thesis using ap by (auto simp: accepted_def collected_def backlog_def pipeline_def)
  qed
qed

lemma worker_history_line:
  assumes "worker_ok w" and "worker_history abi pub ops w = Some (acc, rs, v)" and "wk_error v = None"
  shows "backlog w @ map unassigned acc = map (unassigned \<circ> r_job) rs @ backlog v"
  using assms
proof (induction ops arbitrary: w acc rs)
  case (Cons op ops)
  obtain u acc' rs' where ap: "worker_apply abi pub op w = (Inr (), u)"
    and h: "worker_history abi pub ops u = Some (acc', rs', v)"
    and eqs: "acc = accepted op w @ acc'" "rs = collected op w @ rs'"
    using Cons.prems(2) by (auto split: prod.splits sum.splits option.splits)
  have ok: "worker_ok u" using wk_apply_ok [OF Cons.prems(1) ap] .
  have err: "wk_error u = None"
    using h Cons.prems(3)
  proof (induction ops arbitrary: u acc' rs')
    case (Cons o2 os)
    then obtain u2 a2 r2 where "worker_apply abi pub o2 u = (Inr (), u2)"
      "worker_history abi pub os u2 = Some (a2, r2, v)"
      by (auto split: prod.splits sum.splits option.splits)
    with Cons error_sticky show ?case by blast
  qed simp
  have "backlog u @ map unassigned acc' = map (unassigned \<circ> r_job) rs' @ backlog v"
    using Cons.IH ok h Cons.prems(3) by simp
  with wk_apply_line [OF Cons.prems(1) ap err] show ?case
    unfolding eqs map_append append_assoc by (metis append_assoc)
qed simp

text \<open>Statistics: what the public counters say of the collected results.\<close>

definition statistics :: "'c job_result list \<Rightarrow> ('c, 's) worker \<Rightarrow> bool" where
  "statistics rs w \<longleftrightarrow> wk_completed w = vsize rs \<and> wk_cpu_time w = sum_list (map r_cpu rs) \<and>
     wk_late w = vsize (filter (\<lambda>r. r_end r > j_deadline (r_job r)) rs) \<and>
     wk_max_age w = fold max (map (\<lambda>r. r_end r - j_release (r_job r)) rs) 0"

lemma statistics_frame:
  assumes "statistics rs w" and "wk_completed v = wk_completed w" and "wk_cpu_time v = wk_cpu_time w"
    and "wk_late v = wk_late w" and "wk_max_age v = wk_max_age w"
  shows "statistics rs v"
  using assms by (simp add: statistics_def)

lemma statistics_credit:
  assumes "statistics rs w"
  shows "statistics (rs @ [r]) (credit now r w)"
  using assms by (simp add: statistics_def credit_def max.commute)

lemma statistics_apply:
  assumes "statistics rs w" and "worker_apply abi pub op w = (Inr (), v)"
  shows "statistics (rs @ collected op w) v"
proof (cases op)
  case (Op_collect now)
  then obtain a where "worker_collect now w = (Inr a, v)"
    using assms(2) by (auto split: prod.splits sum.splits)
  then show ?thesis
    by (cases rule: wk_collect_cases)
      (use assms(1) Op_collect statistics_credit in \<open>simp_all add: collected_def\<close>)
next
  case (Op_dispatch now)
  then have "worker_dispatch pub now w = (Inr (), v)" using assms(2) by simp
  then show ?thesis
    by (cases rule: wk_dispatch_cases)
      (use assms(1) Op_dispatch in \<open>simp_all add: collected_def statistics_def\<close>)
next
  case (Op_thread env)
  show ?thesis
  proof (cases "thread_run env w")
    case None
    with assms Op_thread show ?thesis by (simp add: collected_def)
  next
    case (Some u)
    then have v: "v = u" using assms(2) Op_thread by simp
    have "statistics rs u"
      using Some
    proof (cases rule: thread_cases)
      case shutdown
      show ?thesis
        by (cases rule: worker_shutdown_cases [of env w])
          (use assms(1) shutdown in \<open>simp_all add: statistics_def worker_fail_def\<close>)
    qed (use assms(1) in \<open>simp_all add: statistics_def worker_fail_def\<close>)
    with v Op_thread show ?thesis by (simp add: collected_def)
  qed
next
  case Op_finish
  have v: "v = worker_finish abi pub w" using Op_finish assms(2) by simp
  show ?thesis
    by (cases rule: wk_finish_cases [of abi pub w])
      (use v assms(1) Op_finish in \<open>simp_all add: collected_def statistics_def\<close>)
qed (use assms in \<open>auto simp: collected_def statistics_def worker_skip_def worker_offer_def Let_def
      split: if_splits\<close>)

lemma worker_history_statistics:
  assumes "statistics rs0 w" and "worker_history abi pub ops w = Some (acc, rs, v)"
  shows "statistics (rs0 @ rs) v"
  using assms
proof (induction ops arbitrary: w acc rs rs0)
  case (Cons op ops)
  obtain u acc' rs' where "worker_apply abi pub op w = (Inr (), u)"
    and "worker_history abi pub ops u = Some (acc', rs', v)" and "rs = collected op w @ rs'"
    using Cons.prems(2) by (auto split: prod.splits sum.splits option.splits)
  with Cons.IH [of "rs0 @ collected op w" u acc' rs'] statistics_apply [OF Cons.prems(1)] show ?case
    by simp
qed simp

section \<open>The hint of the running job\<close>

text \<open>
  Also after a call that threw: the thread runs on until the destructor has stopped it. Any operation may
  follow any other, whether it throws or not, except that a clock reading of \<open>dispatch\<close> does not fail after
  the slot was filled.
\<close>

definition worker_lives ::
  "fresh_abi \<Rightarrow> (u64 \<Rightarrow> fresh_task_hint \<Rightarrow> 's \<Rightarrow> int \<times> 's) \<Rightarrow> ('c, 's) worker \<Rightarrow> ('c, 's) worker \<Rightarrow>
   bool" where
  "worker_lives abi pub w v \<longleftrightarrow> (\<exists>op r. worker_apply abi pub op w = (r, v) \<and>
     (\<forall>e. op = Op_dispatch (Inl e) \<longrightarrow> r = Inr ()))"

definition shown ::
  "('s \<Rightarrow> u64 \<Rightarrow> fresh_task_hint option) \<Rightarrow> ('c, 's) worker \<Rightarrow> bool" where
  "shown slot w \<longleftrightarrow> (\<forall>j. wk_qos w \<and>
     (wk_thread w = T_exec j \<or> wk_thread w = T_wait \<and> wk_slot w = Some j) \<longrightarrow>
     slot (wk_hints w) (wk_tid w) = Some (job_hint (wk_stage w) (wk_cls w) j))"

text \<open>What is left of the accounting after a throw: a job handed over, running or done keeps \<open>busy\<close> set.\<close>

definition owned_busy :: "('c, 's) worker \<Rightarrow> bool" where
  "owned_busy w \<longleftrightarrow> (wk_slot w \<noteq> None \<or> executing (wk_thread w) \<noteq> [] \<or> wk_result w \<noteq> None \<longrightarrow> wk_busy w) \<and>
     (executing (wk_thread w) \<noteq> [] \<longrightarrow> wk_slot w = None \<and> wk_result w = None) \<and>
     (wk_result w \<noteq> None \<longrightarrow> wk_slot w = None)"

text \<open>What the owner relies on in \<open>freshqos\<close>: an accepted publication is what the slot shows.\<close>

locale hint_channel =
  fixes pub :: "u64 \<Rightarrow> fresh_task_hint \<Rightarrow> 's \<Rightarrow> int \<times> 's"
    and slot :: "'s \<Rightarrow> u64 \<Rightarrow> fresh_task_hint option"
  assumes accepted_shown: "pub tid h s = (0, s') \<Longrightarrow> slot s' tid = Some h"
begin

lemma shown_dispatch:
  assumes "owned_busy w" and "shown slot w" and "worker_dispatch pub now w = (r, v)"
    and "isl now \<longrightarrow> r = Inr ()"
  shows "owned_busy v \<and> shown slot v"
  using assms(3)
proof (cases rule: wk_dispatch_cases)
  case (dispatched t j js s)
  then have "executing (wk_thread w) = []" "wk_result w = None" using assms(1) by (auto simp: owned_busy_def)
  with dispatched accepted_shown show ?thesis
    by (auto simp: shown_def job_hint_def owned_busy_def split: if_splits)
next
  case (publication j js s)
  then have "wk_slot w = None" "executing (wk_thread w) = []" using assms(1) by (auto simp: owned_busy_def)
  with publication assms(1) show ?thesis by (auto simp: shown_def owned_busy_def)
next
  case (clock e j js s)
  with assms(4) show ?thesis by simp
qed (use assms(1,2) in simp_all)

lemma shown_thread:
  assumes "owned_busy w" and "shown slot w" and "thread_run env w = Some v"
  shows "owned_busy v \<and> shown slot v"
  using assms(3)
proof (cases rule: thread_cases)
  case shutdown
  show ?thesis
    by (cases rule: worker_shutdown_cases [of env w])
      (use shutdown assms(1) in \<open>simp_all add: shown_def worker_fail_def owned_busy_def\<close>)
next
  case (finished j st b us f)
  then have "wk_slot w = None" using assms(1) by (simp add: owned_busy_def)
  with finished assms(1) show ?thesis by (simp add: shown_def owned_busy_def)
qed (use assms(1,2) in \<open>auto simp: shown_def worker_fail_def owned_busy_def\<close>)

lemma shown_finish:
  assumes "owned_busy w" and "shown slot w"
  shows "owned_busy (worker_finish abi pub w) \<and> shown slot (worker_finish abi pub w)"
proof (cases rule: wk_finish_cases [of abi pub w])
  case (stopped s)
  show ?thesis
  proof (cases "s = wk_hints w")
    case False
    with stopped assms(1) have "wk_slot w = None" "executing (wk_thread w) = []"
      by (auto simp: owned_busy_def)
    with stopped assms(1) show ?thesis by (auto simp: shown_def owned_busy_def)
  qed (use stopped assms in \<open>simp add: shown_def owned_busy_def\<close>)
next
  case (failed s e)
  with assms(1) have "wk_slot w = None" "executing (wk_thread w) = []" by (auto simp: owned_busy_def)
  with failed assms(1) show ?thesis by (auto simp: shown_def owned_busy_def)
qed (use assms in simp)

lemma shown_collect:
  assumes "owned_busy w" and "shown slot w" and "worker_collect now w = (r, v)"
  shows "owned_busy v \<and> shown slot v"
  using assms(3)
  by (cases rule: wk_collect_cases) (use assms(1,2) in \<open>auto simp: shown_def credit_def owned_busy_def\<close>)

lemma shown_apply:
  assumes "owned_busy w" and "shown slot w" and "worker_lives abi pub w v"
  shows "owned_busy v \<and> shown slot v"
proof -
  obtain op r where op: "worker_apply abi pub op w = (r, v)" "\<forall>e. op = Op_dispatch (Inl e) \<longrightarrow> r = Inr ()"
    using assms(3) by (auto simp: worker_lives_def)
  show ?thesis
  proof (cases op)
    case (Op_collect now)
    with op(1) obtain a where "worker_collect now w = (a, v)" by (auto split: prod.splits sum.splits)
    with assms(1,2) show ?thesis by (rule shown_collect)
  next
    case (Op_dispatch now)
    with op have "worker_dispatch pub now w = (r, v)" "isl now \<longrightarrow> r = Inr ()" by (auto simp: isl_def)
    with assms(1,2) show ?thesis by (rule shown_dispatch)
  next
    case (Op_thread env)
    with op(1) assms(1,2) shown_thread show ?thesis by (auto split: option.splits)
  next
    case Op_finish
    with op(1) assms(1,2) shown_finish show ?thesis by auto
  qed (use assms(1,2) op(1) in
    \<open>auto simp: shown_def owned_busy_def worker_skip_def worker_offer_def Let_def split: if_splits\<close>)
qed

end

sublocale hint_channel \<subseteq> channel: invariant_system worker_init "worker_lives abi pub"
  "\<lambda>w. owned_busy w \<and> shown slot w"
proof unfold_locales
  fix w :: "('b, 's) worker"
  assume "worker_init w"
  then show "owned_busy w \<and> shown slot w"
    using wk_init_unused [of w] by (simp add: owned_busy_def shown_def unused_def)
qed (auto dest: shown_apply)

context hint_channel
begin

lemma channel_reach:
  "reach worker_init (worker_lives abi pub) w \<Longrightarrow> owned_busy w \<and> shown slot w"
  by (rule channel.reach_invar)

end

interpretation map_channel: hint_channel map_write "\<lambda>m. m"
  by unfold_locales (simp add: map_write_def)

section \<open>The queue\<close>

definition offer_result :: "'c job \<Rightarrow> ('c, 's) worker \<Rightarrow> bool res \<times> ('c, 's) worker" where
  "offer_result j w = (case worker_offer j w of (b, v) \<Rightarrow> (Inr b, v))"

definition queue_get ::
  "fresh_abi \<Rightarrow> (u64 \<Rightarrow> fresh_task_hint \<Rightarrow> 's \<Rightarrow> int \<times> 's) \<Rightarrow> ('c, 's) worker_op \<Rightarrow>
   ('c, 's) worker \<Rightarrow> 'c job list \<times> ('c, 's) worker" where
  "queue_get abi pub op w =
     (case op of
        Op_offer j \<Rightarrow> ([], w)
      | _ \<Rightarrow> (let v = snd (worker_apply abi pub op w)
              in (take (length (wk_queue w) - length (wk_queue v)) (wk_queue w), v)))"

lemma apply_queue:
  assumes "\<forall>j. op \<noteq> Op_offer j"
  shows "\<exists>xs. wk_queue w = xs @ wk_queue (snd (worker_apply abi pub op w))"
proof (cases op)
  case (Op_dispatch now)
  obtain r v where d: "worker_dispatch pub now w = (r, v)" by fastforce
  then show ?thesis
    by (cases rule: wk_dispatch_cases) (use Op_dispatch d in auto)
next
  case (Op_collect now)
  obtain r v where d: "worker_collect now w = (r, v)" by fastforce
  then have "wk_queue v = wk_queue w"
    by (cases rule: wk_collect_cases) (simp_all add: credit_def)
  with Op_collect d show ?thesis by (auto split: sum.splits)
next
  case (Op_thread env)
  have "wk_queue v = wk_queue w" if "thread_run env w = Some v" for v
    using that
  proof (cases rule: thread_cases)
    case shutdown
    then show ?thesis
      by (cases rule: worker_shutdown_cases [of env w]) (simp_all add: worker_fail_def)
  qed (simp_all add: worker_fail_def)
  with Op_thread show ?thesis by (auto split: option.splits)
next
  case Op_finish
  show ?thesis
    by (cases rule: wk_finish_cases [of abi pub w]) (use Op_finish in simp_all)
next
  case Op_skip
  then show ?thesis by (simp add: worker_skip_def)
next
  case Op_wake
  then show ?thesis by simp
qed (use assms in simp)

lemma queue_get_prefix: "queue_get abi pub op w = (xs, v) \<Longrightarrow> wk_queue w = xs @ wk_queue v"
proof (cases "\<exists>j. op = Op_offer j")
  case False
  assume g: "queue_get abi pub op w = (xs, v)"
  from False obtain ys where q: "wk_queue w = ys @ wk_queue (snd (worker_apply abi pub op w))"
    using apply_queue by blast
  have "v = snd (worker_apply abi pub op w)"
    "xs = take (length (wk_queue w) - length (wk_queue v)) (wk_queue w)"
    using g False by (auto simp: queue_get_def Let_def split: worker_op.splits)
  with q show ?thesis by (metis append_eq_conv_conj diff_add_inverse2 length_append)
qed (auto simp: queue_get_def)

interpretation worker_queue: reject_new_fifo offer_result "queue_get abi pub" "\<lambda>_. True" "\<lambda>j. j"
  wk_queue "\<lambda>_. 32" "\<lambda>w. length (wk_queue w) \<le> 32"
  for abi :: fresh_abi and pub :: "u64 \<Rightarrow> fresh_task_hint \<Rightarrow> 's \<Rightarrow> int \<times> 's"
proof unfold_locales
  fix s t :: "('c, 's) worker" and x r e and xs :: "'c job list" and c
  assume len: "length (wk_queue s) \<le> 32"
  show "offer_result x s = (Inr True, t) \<Longrightarrow> wk_queue t = wk_queue s @ [x] \<and> length (wk_queue s) < 32"
    using len by (cases rule: wk_offer_cases [where j = x]) (auto simp: offer_result_def)
  show "offer_result x s = (Inr False, t) \<Longrightarrow> wk_queue t = wk_queue s \<and> length (wk_queue s) = 32"
    using len by (cases rule: wk_offer_cases [where j = x]) (auto simp: offer_result_def worker_skip_def)
  show "offer_result x s = (Inl e, t) \<Longrightarrow> wk_queue t = wk_queue s"
    by (auto simp: offer_result_def split: prod.splits)
  show "offer_result x s = (r, t) \<Longrightarrow> length (wk_queue t) \<le> 32"
    using len by (cases rule: wk_offer_cases [where j = x]) (auto simp: offer_result_def worker_skip_def)
  show "queue_get abi pub c s = (xs, t) \<Longrightarrow> wk_queue s = xs @ wk_queue t"
    by (rule queue_get_prefix)
  show "queue_get abi pub c s = (xs, t) \<Longrightarrow> length (wk_queue t) \<le> 32"
    using len queue_get_prefix [of abi pub c s xs t] by simp
qed simp_all

section \<open>A concrete worker\<close>

definition demo_abi :: fresh_abi where
  "demo_abi = \<lparr>FRESH_STAGE_UNSPECIFIED = 255, FRESH_CLASS_BACKGROUND = 0,
     FRESH_CLASS_DEADLINE = 1, FRESH_CLASS_URGENT = 2\<rparr>"

definition demo_startup :: "(u64 \<Rightarrow> fresh_task_hint option) startup_env" where
  "demo_startup = \<lparr>su_pin = 0, su_tid = 9, su_begin = Inr 10, su_clear = (\<lambda>t s. (0, s)),
     su_setscheduler = (\<lambda>_ _. 0), su_end = Inr 11, su_getscheduler = 7, su_getparam = Some 0\<rparr>"

definition demo_worker :: "(nat, u64 \<Rightarrow> fresh_task_hint option) worker" where
  "demo_worker = worker_startup demo_abi demo_startup (worker_new True 1 0 False (\<lambda>_. None))"

definition demo_job :: "nat job" where
  "demo_job = \<lparr>j_id = 1, j_release = 100, j_deadline = 200, j_work = 30, j_complete = 5,
     j_assigned = 0, j_budget = 0, j_outcome = -1\<rparr>"

definition demo_thread :: "(u64 \<Rightarrow> fresh_task_hint option) thread_env" where
  "demo_thread = \<lparr>te_start = Inr 120, te_before = Inr 1000, te_readings = [1010, 1035, 1036],
     te_failed_reading = None, te_end = Inr 250, te_shutdown_begin = Inr 300,
     te_setscheduler = (\<lambda>_. 0), te_clear = (\<lambda>t s. (0, s)), te_shutdown_end = Inr 301\<rparr>"

definition demo_ops :: "(nat, u64 \<Rightarrow> fresh_task_hint option) worker_op list" where
  "demo_ops = [Op_offer demo_job, Op_dispatch (Inr 110), Op_thread demo_thread]"

definition demo_result :: "nat job_result" where
  "demo_result = \<lparr>r_job = demo_job\<lparr>j_assigned := 110\<rparr>, r_start = 120, r_end = 250, r_cpu = 36\<rparr>"

lemmas demo_defs = demo_abi_def demo_startup_def demo_worker_def demo_job_def demo_thread_def
  demo_ops_def demo_result_def worker_startup_def worker_new_def worker_enroll_def pin_cpu_def
  SCHED_OTHER_def SCHED_FIFO_def fifo_priority_def Let_def

lemma demo_init: "worker_init demo_worker"
proof -
  have "worker_constructed demo_worker = Some (Inr (), demo_worker)"
    by (simp add: demo_defs worker_constructed_def)
  then show ?thesis unfolding worker_init_def demo_worker_def by blast
qed

definition demo_running :: "(nat, u64 \<Rightarrow> fresh_task_hint option) worker" where
  "demo_running = demo_worker\<lparr>wk_offered := 1, wk_busy := True,
     wk_hints := [9 \<mapsto> job_hint 0 1 demo_job], wk_thread := T_exec (demo_job\<lparr>j_assigned := 110\<rparr>),
     wk_asleep := False\<rparr>"

definition demo_finished :: "(nat, u64 \<Rightarrow> fresh_task_hint option) worker" where
  "demo_finished = demo_running\<lparr>wk_busy := False, wk_completed := 1, wk_late := 1, wk_cpu_time := 36,
     wk_max_start := 20, wk_max_age := 150, wk_thread := T_wait, wk_asleep := True\<rparr>"

lemma demo_running_history:
  "worker_history demo_abi map_write demo_ops demo_worker = Some ([demo_job], [], demo_running)"
  by (simp add: demo_running_def demo_defs worker_offer_def worker_dispatch_def map_write_def
    thread_run_def accepted_def collected_def job_hint_def)

lemma demo_finished_history:
  "worker_history demo_abi map_write [Op_thread demo_thread, Op_collect (Inr 260)] demo_running =
     Some ([], [demo_result], demo_finished)"
  by (simp add: demo_running_def demo_finished_def demo_defs thread_run_def worker_collect_def
    accepted_def collected_def word_less_nat_alt max_def word_le_nat_alt)

lemma history_append:
  assumes "worker_history abi pub xs w = Some (a1, r1, v)"
    and "worker_history abi pub ys v = Some (a2, r2, u)"
  shows "worker_history abi pub (xs @ ys) w = Some (a1 @ a2, r1 @ r2, u)"
  using assms
  by (induction xs arbitrary: w a1 r1) (auto split: prod.splits sum.splits option.splits)

lemma history_reach:
  assumes "reach worker_init (worker_moves abi pub) w"
    and "worker_history abi pub ops w = Some (acc, rs, v)"
  shows "reach worker_init (worker_moves abi pub) v"
  using assms
proof (induction ops arbitrary: w acc rs)
  case (Cons op ops)
  then obtain u a r where "worker_apply abi pub op w = (Inr (), u)"
    "worker_history abi pub ops u = Some (a, r, v)"
    by (auto split: prod.splits sum.splits option.splits)
  moreover from this have "worker_moves abi pub w u" unfolding worker_moves_def by blast
  then have "reach worker_init (worker_moves abi pub) u" by (rule reach_step [OF Cons.prems(1)])
  ultimately show ?case using Cons.IH by blast
qed simp

section \<open>Properties\<close>

text \<open>
  At every moment every job ever offered to a worker is accounted for exactly once: dropped,
  completed, queued, or the single one the worker owns. The queue never holds more than 32 jobs, and
  while the thread is alive the owner's flag \<open>busy\<close> says exactly whether a job is in the slot, being
  executed, or waiting as a result; it is never in two of these places.
\<close>

theorem worker_conservation:
  assumes "reach worker_init (worker_moves abi pub) w"
  shows "wk_offered w = wk_dropped w + wk_completed w + vsize (wk_queue w) +
           (if wk_busy w then 1 else 0) \<and>
         length (wk_queue w) \<le> 32 \<and>
         (wk_error w = None \<longrightarrow> length (pipeline w) = (if wk_busy w then 1 else 0))"
  using worker_inv.reach_invar [OF assms] by (simp add: worker_ok_def counted_def handed_over_def rests_def)

theorem worker_conservation_witness:
  "length (pipeline demo_running) = 1 \<and> length (wk_queue demo_running) \<le> 32"
proof -
  have r: "reach worker_init (worker_moves demo_abi map_write) demo_running"
    by (rule history_reach [OF _ demo_running_history]) (rule reach_init, rule demo_init)
  from worker_conservation [OF r] show ?thesis
    by (simp add: demo_running_def demo_defs)
qed

text \<open>
  C21: A worker completes the jobs it accepted exactly once and in the order they were offered: in any
  interleaving of its owner's calls with its thread, as long as nothing has failed, the accepted jobs
  are the collected ones, followed by the one the worker owns, followed by the queue.
\<close>

theorem worker_exactly_once:
  assumes "worker_init w" and "worker_history abi pub ops w = Some (acc, rs, v)"
    and "wk_error v = None"
  shows "map unassigned acc = map (unassigned \<circ> r_job) rs @ map unassigned (pipeline v @ wk_queue v)"
proof -
  have "backlog w = []"
    using wk_init_unused [OF assms(1)] by (simp add: backlog_def pipeline_def unused_def)
  with worker_history_line [OF wk_init_ok [OF assms(1)] assms(2,3)] show ?thesis
    by (simp add: backlog_def)
qed

theorem worker_exactly_once_witness:
  "map unassigned [demo_job] = map (unassigned \<circ> r_job) [demo_result] @
     map unassigned (pipeline demo_finished @ wk_queue demo_finished)"
  using worker_exactly_once [OF demo_init
      history_append [OF demo_running_history demo_finished_history]]
  by (simp add: demo_finished_def demo_running_def demo_defs)

text \<open>
  The counters a worker reports are those of the results it collected: how many, their total CPU
  time, how many ended after their deadline, and the largest age at completion.
\<close>

theorem worker_statistics:
  assumes "worker_init w" and "worker_history abi pub ops w = Some (acc, rs, v)"
  shows "wk_completed v = vsize rs \<and> wk_cpu_time v = sum_list (map r_cpu rs) \<and>
         wk_late v = vsize (filter (\<lambda>r. r_end r > j_deadline (r_job r)) rs) \<and>
         wk_max_age v = fold max (map (\<lambda>r. r_end r - j_release (r_job r)) rs) 0"
proof -
  have "statistics [] w"
    using wk_init_unused [OF assms(1)] by (simp add: statistics_def unused_def)
  from worker_history_statistics [OF this assms(2)] show ?thesis
    by (simp add: statistics_def)
qed

theorem worker_statistics_witness: "wk_completed demo_finished = 1 \<and> wk_cpu_time demo_finished = 36"
  using worker_statistics [OF demo_init
      history_append [OF demo_running_history demo_finished_history]]
  by (simp add: demo_result_def)

text \<open>
  C22: With hints enabled, a job's identity, release, deadline and budget are in the worker's slot of
  the hint map before the thread can take the job, and stay there while it executes: through every
  sequence of calls, thread steps and spurious wake-ups, also after calls that threw and during the
  destruction. The one exception is a dispatch whose clock reading failed (\<open>unwind_retires_running_job\<close> in \<open>Workload_Unwind\<close>).
\<close>

theorem job_hint_visible:
  assumes "\<forall>tid h s s'. pub tid h s = (0, s') \<longrightarrow> slot s' tid = Some h"
    and "reach worker_init (worker_lives abi pub) w" and "wk_qos w"
    and "wk_thread w = T_exec j \<or> wk_thread w = T_wait \<and> wk_slot w = Some j"
  shows "slot (wk_hints w) (wk_tid w) = Some (job_hint (wk_stage w) (wk_cls w) j)"
proof -
  have "hint_channel pub slot" using assms(1) by (simp add: hint_channel_def)
  from hint_channel.channel_reach [OF this assms(2)] assms(3,4) show ?thesis
    by (auto simp: shown_def)
qed

text \<open>Runs without a throw are among these.\<close>

lemma moves_lives: "reach worker_init (worker_moves abi pub) w \<Longrightarrow> reach worker_init (worker_lives abi pub) w"
proof (induction rule: reach.induct)
  case (reach_step w v)
  then have "worker_lives abi pub w v" by (auto simp: worker_moves_def worker_lives_def)
  with reach_step show ?case by (blast intro: reach.reach_step)
qed blast

theorem job_hint_visible_witness:
  "wk_hints demo_running (wk_tid demo_running) =
     Some (job_hint 0 1 (demo_job\<lparr>j_assigned := 110\<rparr>))"
proof -
  have r: "reach worker_init (worker_lives demo_abi map_write) demo_running"
    by (rule moves_lives, rule history_reach [OF _ demo_running_history]) (rule reach_init, rule demo_init)
  have p: "\<forall>tid h s s'. map_write tid h s = (0, s') \<longrightarrow> s' tid = Some h"
    by (simp add: map_write_def)
  have q: "wk_qos demo_running" "wk_stage demo_running = 0" "wk_cls demo_running = 1"
    "wk_thread demo_running = T_exec (demo_job\<lparr>j_assigned := 110\<rparr>)"
    by (simp_all add: demo_running_def demo_defs)
  show ?thesis using job_hint_visible [OF p r] q by simp
qed

text \<open>
  A job that is reported as executed has used at least the CPU time it asked for, for every
  sequence of readings of a clock that does not run backwards; and the loop ends once some reading
  has advanced that far.
\<close>

theorem burn_enough:
  assumes "sorted (before # cs)"
  shows "(\<forall>used. burn before work cs = Some used \<longrightarrow> work \<le> used) \<and>
         ((\<exists>i. Suc i < length cs \<and> work \<le> cs ! i - before) \<longrightarrow> (\<exists>used. burn before work cs = Some used))"
  using assms
proof (induction cs)
  case (Cons c cs)
  have ih: "sorted (before # cs)" using Cons.prems by auto
  show ?case
  proof (cases "c - before < work")
    case True
    have "\<exists>i. Suc i < length cs \<and> work \<le> cs ! i - before"
      if i: "Suc i < length (c # cs)" "work \<le> (c # cs) ! i - before" for i
      using i True by (cases i) (auto intro: exI)
    with True Cons.IH [OF ih] show ?thesis by auto
  next
    case False
    have "work \<le> d - before" if "cs = d # ds" for d ds
    proof -
      have "before \<le> c" "c \<le> d" using Cons.prems that by simp_all
      then have "c - before \<le> d - before" by (simp add: word_le_minus_mono_left)
      with False show ?thesis by simp
    qed
    with False show ?thesis by (auto split: list.splits)
  qed
qed simp

theorem burn_enough_witness: "burn 1000 30 [1010, 1035, 1036] = Some 36 \<and> (30 :: u64) \<le> 36"
proof -
  have s: "sorted (1000 # [1010, 1035, 1036 :: u64])" by (simp add: word_le_nat_alt)
  have b: "burn 1000 30 [1010, 1035, 1036] = Some 36" by (simp add: word_less_nat_alt)
  from burn_enough [OF s, of 30] b show ?thesis by simp
qed

text \<open>
  \<open>finish\<close> replaces the worker's hint only when the worker owns no job, never under a job that is
  handed over, running or uncollected; and it stops the thread: a waiting thread ends in one step,
  whatever its clocks and system calls answer, so that \<open>join\<close> returns, and a running job is finished
  first, after which the thread waits no longer than that.
\<close>

theorem finish_contract:
  assumes "reach worker_init (worker_moves abi pub) w" and "wk_joinable w"
    and "v = worker_finish abi pub w"
  shows "(wk_hints v \<noteq> wk_hints w \<longrightarrow> pipeline w = []) \<and> wk_stopping v \<and>
         (wk_thread v = T_wait \<longrightarrow> (\<forall>env. \<exists>u. thread_run env v = Some u \<and> worker_join u \<noteq> None)) \<and>
         (\<forall>j env u. wk_thread v = T_exec j \<and> thread_run env v = Some u \<longrightarrow>
            wk_stopping u \<and> (wk_thread u = T_wait \<or> wk_thread u = T_ended))"
proof (intro conjI allI impI)
  have ok: "worker_ok w" by (rule worker_inv.reach_invar [OF assms(1)])
  show stop: "wk_stopping v"
    using assms(2,3) by (simp add: worker_finish_def Let_def split: prod.splits)
  have awake: "\<not> wk_asleep v"
    using assms(2,3) by (simp add: worker_finish_def Let_def split: prod.splits)
  show "pipeline w = []" if "wk_hints v \<noteq> wk_hints w"
    by (cases rule: wk_finish_cases [of abi pub w])
      (use that ok assms(3) in \<open>auto simp: worker_ok_def handed_over_def rests_def\<close>)
  show "\<exists>u. thread_run env v = Some u \<and> worker_join u \<noteq> None" if "wk_thread v = T_wait" for env
    by (cases rule: worker_shutdown_cases [of env v])
      (use that stop awake in \<open>simp_all add: thread_run_def worker_join_def worker_fail_def\<close>)
  show "wk_stopping u" and "wk_thread u = T_wait \<or> wk_thread u = T_ended"
    if "wk_thread v = T_exec j \<and> thread_run env v = Some u" for j env u
    using that stop by (auto elim!: thread_cases simp: worker_fail_def)
qed

theorem finish_contract_witness:
  "wk_stopping (worker_finish demo_abi map_write demo_worker) \<and>
   (\<exists>u. thread_run demo_thread (worker_finish demo_abi map_write demo_worker) = Some u)"
proof -
  have r: "reach worker_init (worker_moves demo_abi map_write) demo_worker"
    by (rule reach_init, rule demo_init)
  have j: "wk_joinable demo_worker" by (simp add: demo_defs)
  have t: "wk_thread (worker_finish demo_abi map_write demo_worker) = T_wait"
    by (simp add: demo_defs worker_finish_def map_write_def)
  show ?thesis using finish_contract [OF r j refl] t by blast
qed

end
