(* ===== verification/Window_Metrics.thy ===== *)
theory Window_Metrics
  imports Prelude
begin

text \<open>
  Accounting at the end of a measurement window: the CPU bounds and queue counters of
  \<^verbatim>\<open>src/demo/window_metrics.h\<close>, and the iteration count of
  \<^verbatim>\<open>src/ros2/scx_slam_workload/include/scx_slam_workload/hog_metrics.hpp\<close>, with
  \<open>std::lower_bound\<close> as the halving search of the standard library.
\<close>

section \<open>CPU time at a cutoff\<close>

record cpu_window_bounds =
  cw_cutoff_ns :: u64
  cw_lower_ns :: u64
  cw_upper_ns :: u64
  cw_closed :: bool

definition cpu_window :: "u64 \<Rightarrow> cpu_window_bounds" where
  "cpu_window cutoff = \<lparr>cw_cutoff_ns = cutoff, cw_lower_ns = 0, cw_upper_ns = 0, cw_closed = False\<rparr>"

definition window_sample :: "u64 \<Rightarrow> u64 \<Rightarrow> u64 \<Rightarrow> cpu_window_bounds \<Rightarrow> cpu_window_bounds" where
  "window_sample cpu_elapsed wall_before wall_after b =
     (if cw_closed b then b
      else
        (let b1 = (if wall_after \<le> cw_cutoff_ns b then b\<lparr>cw_lower_ns := cpu_elapsed\<rparr> else b)
         in if wall_before \<ge> cw_cutoff_ns b
            then b1\<lparr>cw_upper_ns := cpu_elapsed, cw_closed := True\<rparr> else b1))"

definition window_finish :: "u64 \<Rightarrow> cpu_window_bounds \<Rightarrow> cpu_window_bounds" where
  "window_finish total_ns b = (if \<not> cw_closed b then b\<lparr>cw_upper_ns := total_ns\<rparr> else b)"

section \<open>Stage and queue counters\<close>

record window_stage_stats =
  ws_started :: u64
  ws_completed :: u64
  ws_late :: u64
  ws_stale_seen :: u64
  ws_dropped_stale :: u64
  ws_cpu_ns :: u64
  ws_cpu_uncertainty_ns :: u64

record window_queue_stats =
  wq_offered :: u64
  wq_dequeued :: u64
  wq_evicted :: u64

definition window_pending :: "window_queue_stats \<Rightarrow> u64" where
  "window_pending q = wq_offered q - wq_dequeued q - wq_evicted q"

section \<open>Iterations in a window\<close>

text \<open>
  \<open>std::lower_bound\<close>: \<open>first\<close> and \<open>len\<close> delimit the elements still undecided. The index stays in
  range.
\<close>

function lower_bound :: "u64 list \<Rightarrow> u64 \<Rightarrow> nat \<Rightarrow> nat \<Rightarrow> nat" where
  "lower_bound xs v first len =
     (if len = 0 then first
      else
        (let half = len div 2; middle = first + half
         in if xs ! middle < v then lower_bound xs v (middle + 1) (len - half - 1)
            else lower_bound xs v first half))"
  by auto
termination
  by (relation "measure (\<lambda>(xs, v, first, len). len)") auto

declare lower_bound.simps [simp del]

definition window_iterations :: "u64 list \<Rightarrow> u64 \<Rightarrow> u64 \<Rightarrow> u64" where
  "window_iterations completions start fin =
     of_nat (lower_bound completions fin 0 (length completions)) -
     of_nat (lower_bound completions start 0 (length completions))"

section \<open>Lemmas\<close>

text \<open>
  \<open>cpu\<close> is the CPU time used as a function of wall time; a sample is truthful when its CPU reading
  lies between the values at the two wall readings around it.
\<close>

definition truthful :: "(u64 \<Rightarrow> u64) \<Rightarrow> u64 \<times> u64 \<times> u64 \<Rightarrow> bool" where
  "truthful cpu smp = (case smp of (c, before, after) \<Rightarrow> cpu before \<le> c \<and> c \<le> cpu after)"

definition bracket :: "(u64 \<Rightarrow> u64) \<Rightarrow> cpu_window_bounds \<Rightarrow> bool" where
  "bracket cpu b \<longleftrightarrow> cw_lower_ns b \<le> cpu (cw_cutoff_ns b) \<and>
     (cw_closed b \<longrightarrow> cpu (cw_cutoff_ns b) \<le> cw_upper_ns b)"

definition take_sample :: "u64 \<times> u64 \<times> u64 \<Rightarrow> cpu_window_bounds \<Rightarrow> cpu_window_bounds" where
  "take_sample smp b = (case smp of (c, before, after) \<Rightarrow> window_sample c before after b)"

lemma bracket_sample:
  assumes "mono cpu" and "truthful cpu smp" and "bracket cpu b"
  shows "bracket cpu (take_sample smp b)" and "cw_cutoff_ns (take_sample smp b) = cw_cutoff_ns b"
proof -
  obtain c before after where s: "smp = (c, before, after)" by (cases smp)
  have t: "cpu before \<le> c" "c \<le> cpu after" using assms(2) by (simp_all add: s truthful_def)
  have lo: "after \<le> x \<Longrightarrow> c \<le> cpu x" and hi: "x \<le> before \<Longrightarrow> cpu x \<le> c" for x
    using t monoD [OF assms(1)] by (meson order_trans)+
  show "bracket cpu (take_sample smp b)"
    using assms(3) lo hi by (simp add: s take_sample_def window_sample_def bracket_def Let_def)
  show "cw_cutoff_ns (take_sample smp b) = cw_cutoff_ns b"
    by (simp add: s take_sample_def window_sample_def Let_def)
qed

lemma bracket_samples:
  assumes "mono cpu" and "\<forall>smp \<in> set smps. truthful cpu smp" and "bracket cpu b"
  shows "bracket cpu (fold take_sample smps b) \<and> cw_cutoff_ns (fold take_sample smps b) = cw_cutoff_ns b"
  using assms(2,3)
  by (induction smps arbitrary: b) (simp_all add: bracket_sample [OF assms(1)])

lemma bracket_finish:
  assumes "mono cpu" and "\<forall>smp \<in> set smps. truthful cpu smp" and "cpu cutoff \<le> final_ns"
  shows "cw_lower_ns (window_finish final_ns (fold take_sample smps (cpu_window cutoff))) \<le> cpu cutoff \<and>
    cpu cutoff \<le> cw_upper_ns (window_finish final_ns (fold take_sample smps (cpu_window cutoff)))"
proof -
  have "bracket cpu (cpu_window cutoff)" by (simp add: bracket_def cpu_window_def)
  from bracket_samples [OF assms(1,2) this] assms(3) show ?thesis
    by (auto simp: bracket_def window_finish_def cpu_window_def)
qed

lemma lower_bound_spec:
  assumes "sorted xs" and "first + len \<le> length xs"
    and "\<forall>i < first. xs ! i < v" and "\<forall>i < length xs. first + len \<le> i \<longrightarrow> v \<le> xs ! i"
  shows "lower_bound xs v first len = length (filter (\<lambda>x. x < v) xs)"
  using assms
proof (induction xs v first len rule: lower_bound.induct)
  case (1 xs v first len)
  note ord = "1.prems"(1)
  show ?case
  proof (cases "len = 0")
    case True
    have "filter (\<lambda>x. x < v) (take first xs) = take first xs"
      "filter (\<lambda>x. x < v) (drop first xs) = []"
      using "1.prems" True by (auto simp: filter_id_conv filter_empty_conv in_set_conv_nth not_less)
    then have "filter (\<lambda>x. x < v) xs = take first xs"
      by (metis append_Nil2 append_take_drop_id filter_append)
    with True "1.prems"(2) show ?thesis by (subst lower_bound.simps) simp
  next
    case False
    let ?m = "first + len div 2"
    have m: "?m < length xs" "len div 2 < len" using "1.prems"(2) False by linarith+
    show ?thesis
    proof (cases "xs ! ?m < v")
      case True
      have "xs ! i < v" if "i < ?m + 1" for i
        using sorted_nth_mono [OF ord, of i ?m] that m(1) True by simp
      then have "\<forall>i < ?m + 1. xs ! i < v" by blast
      moreover have "?m + 1 + (len - len div 2 - 1) = first + len" using m by simp
      ultimately show ?thesis
        using "1.IH"(1) [OF False refl refl True] "1.prems" False True
        by (subst lower_bound.simps) simp
    next
      case out: False
      have "v \<le> xs ! i" if "i < length xs" "?m \<le> i" for i
        using sorted_nth_mono [OF ord that(2) that(1)] out by simp
      then have "\<forall>i < length xs. ?m \<le> i \<longrightarrow> v \<le> xs ! i" by blast
      with "1.IH"(2) [OF False refl refl out] "1.prems" False out m show ?thesis
        by (subst lower_bound.simps) simp
    qed
  qed
qed

section \<open>Properties\<close>

text \<open>
  The CPU bounds are sound whatever the samples are and wherever the thread was preempted: if each
  CPU reading lies between the true values at the two wall readings around it, CPU time never
  decreases and the final total is at least the value at the cutoff, then the lower bound is at most,
  and the upper bound at least, the CPU time used at the cutoff; their difference does not wrap.
\<close>

theorem window_bounds_sound:
  assumes "mono cpu" and "\<forall>smp \<in> set smps. truthful cpu smp" and "cpu cutoff \<le> final_ns"
    and "b = window_finish final_ns (fold take_sample smps (cpu_window cutoff))"
  shows "cw_lower_ns b \<le> cpu cutoff \<and> cpu cutoff \<le> cw_upper_ns b \<and>
         unat (cw_upper_ns b - cw_lower_ns b) = unat (cw_upper_ns b) - unat (cw_lower_ns b)"
proof -
  have "cw_lower_ns b \<le> cpu cutoff \<and> cpu cutoff \<le> cw_upper_ns b"
    unfolding assms(4) by (rule bracket_finish [OF assms(1-3)])
  then show ?thesis by (meson order_trans unat_sub_u64)
qed

theorem window_bounds_sound_witness:
  "cw_lower_ns (window_finish 60 (fold take_sample [(20, 20, 30), (40, 35, 50), (55, 55, 60)]
     (cpu_window 45))) \<le> 45"
proof -
  have t: "\<forall>smp \<in> set [(20, 20, 30), (40, 35, 50), (55, 55, 60)]. truthful (\<lambda>x. x) smp"
    by (simp add: truthful_def word_le_nat_alt)
  have c: "(45 :: u64) \<le> 60" by (simp add: word_le_nat_alt)
  show ?thesis
    using window_bounds_sound [of "\<lambda>x. x", OF _ t c refl] by (simp add: mono_def)
qed

text \<open>
  C23: The iterations counted for a window are exactly the completion times in it, start included and
  end excluded; two searches and one subtraction, for every ascending list.
\<close>

theorem window_iterations_exact:
  assumes "sorted completions" and "start \<le> fin" and "length completions < 18446744073709551616"
  shows "unat (window_iterations completions start fin) =
         length (filter (\<lambda>t. start \<le> t \<and> t < fin) completions)"
proof -
  have lb: "lower_bound completions v 0 (length completions) =
      length (filter (\<lambda>x. x < v) completions)" for v
    by (rule lower_bound_spec) (use assms(1) in simp_all)
  have part: "length (filter (\<lambda>x. x < fin) completions) =
      length (filter (\<lambda>x. x < start) completions) +
      length (filter (\<lambda>t. start \<le> t \<and> t < fin) completions)"
    using assms(2) by (induction completions) auto
  have small: "length (filter P completions) < 18446744073709551616" for P
    using assms(3) length_filter_le [of P completions] by linarith
  show ?thesis
    unfolding window_iterations_def lb part
    using small [of "\<lambda>t. start \<le> t \<and> t < fin"] by (simp add: unat_of_nat_u64)
qed

theorem window_iterations_exact_witness:
  "unat (window_iterations [1, 5, 5, 9] 5 9) = 2"
proof -
  have s: "sorted [1, 5, 5, 9 :: u64]" "(5 :: u64) \<le> 9" "length [1, 5, 5, 9 :: u64] < 18446744073709551616"
    by (simp_all add: word_le_nat_alt)
  show ?thesis
    using window_iterations_exact [OF s] by (simp add: word_le_nat_alt word_less_nat_alt)
qed

end
