(* ===== verification/Blocking_Queue.thy ===== *)
theory Blocking_Queue
  imports Hints Window_Metrics "HOL-Library.Sublist"
begin

text \<open>
  The wake-safe queues of \<^verbatim>\<open>src/demo/slam_pipeline_demo.cpp\<close>: work items, stage configurations,
  staleness, and \<open>BlockingQueue\<close> with its producers and its single consumer. Each operation runs
  under the queue's mutex; the consumer's sleep in \<open>cv_.wait\<close> is part of the state. Times read by
  \<open>now_ns\<close>, the measurement cutoff \<open>metrics_end_ns\<close> and \<open>freshqos_publish_job_for\<close> are arguments.
\<close>

section \<open>Items and stages\<close>

record work_item =
  wi_seq :: u64
  wi_ts_ns :: u64
  wi_kind :: u32
  wi_points :: u32
  wi_burst_id :: u32

record stage_cfg =
  sc_name :: string
  sc_stage_id :: u32
  sc_class_id :: u32
  sc_deadline_rel_ns :: u64
  sc_stale_ns :: u64
  sc_budget_ns :: u64
  sc_slice_ns :: u64
  sc_weight :: u32

definition now_ns :: "u64 \<Rightarrow> u64 \<Rightarrow> u64" where
  "now_ns sec nsec = sec * 1000000000 + nsec"

definition inside_window :: "u64 \<Rightarrow> u64 \<Rightarrow> bool" where
  "inside_window cutoff timestamp \<longleftrightarrow> cutoff \<noteq> 0 \<and> timestamp < cutoff"

definition deadline_abs :: "work_item \<Rightarrow> stage_cfg \<Rightarrow> u64" where
  "deadline_abs w cfg = (if sc_deadline_rel_ns cfg = 0 then 0 else wi_ts_ns w + sc_deadline_rel_ns cfg)"

definition is_stale :: "u64 \<Rightarrow> work_item \<Rightarrow> stage_cfg \<Rightarrow> bool" where
  "is_stale now w cfg \<longleftrightarrow>
     sc_stale_ns cfg \<noteq> 0 \<and> now > wi_ts_ns w \<and> now - wi_ts_ns w > sc_stale_ns cfg"

section \<open>The queue\<close>

text \<open>
  \<open>ht_open\<close>: the publisher is there and its map is open; the key is the consumer's published
  \<open>pid_tgid\<close>, zero until it registers.
\<close>

record hint_target =
  ht_open :: bool
  ht_pid_tgid :: "u64 option"
  ht_cfg :: "stage_cfg option"

record 's blocking_queue =
  bq_q :: "work_item list"
  bq_stop :: bool
  bq_waiting :: bool
  bq_evict_stale :: bool
  bq_queue_evicted_stale :: u64
  bq_window :: window_queue_stats
  bq_ht :: hint_target
  bq_hints :: 's

text \<open>The arguments of the publication call for an item, as a hint.\<close>

definition item_hint :: "stage_cfg \<Rightarrow> work_item \<Rightarrow> fresh_task_hint" where
  "item_hint c v = hint_zero\<lparr>h_stage_id := sc_stage_id c, h_class_id := sc_class_id c,
     h_job_id := wi_seq v, h_release_ts_ns := wi_ts_ns v,
     h_deadline_ts_ns := (if sc_deadline_rel_ns c \<noteq> 0 then wi_ts_ns v + sc_deadline_rel_ns c else 0),
     h_stale_ns := sc_stale_ns c, h_budget_ns := sc_budget_ns c, h_slice_ns := sc_slice_ns c,
     h_weight := sc_weight c\<rparr>"

type_synonym 's publisher = "u64 \<Rightarrow> fresh_task_hint \<Rightarrow> 's \<Rightarrow> int \<times> 's"

definition publish_hint :: "'s publisher \<Rightarrow> work_item \<Rightarrow> 's blocking_queue \<Rightarrow> 's blocking_queue" where
  "publish_hint pub v b =
     (if \<not> ht_open (bq_ht b) then b
      else case (ht_pid_tgid (bq_ht b), ht_cfg (bq_ht b)) of
        (Some key, Some c) \<Rightarrow>
          if key = 0 then b else b\<lparr>bq_hints := snd (pub key (item_hint c v) (bq_hints b))\<rparr>
      | _ \<Rightarrow> b)"

text \<open>The loop of \<open>evict_stale_locked\<close>: what is kept, and how many were erased.\<close>

fun evict_loop :: "u64 \<Rightarrow> stage_cfg \<Rightarrow> work_item list \<Rightarrow> work_item list \<times> u64" where
  "evict_loop now c [] = ([], 0)"
| "evict_loop now c (w # ws) =
     (let (kept, n) = evict_loop now c ws
      in if is_stale now w c then (kept, n + 1) else (w # kept, n))"

definition evict_stale_locked :: "u64 \<Rightarrow> u64 \<Rightarrow> 's blocking_queue \<Rightarrow> 's blocking_queue" where
  "evict_stale_locked cutoff now b =
     (case ht_cfg (bq_ht b) of
        None \<Rightarrow> b
      | Some c \<Rightarrow>
          if \<not> bq_evict_stale b \<or> sc_stale_ns c = 0 then b
          else
            (let (kept, n) = evict_loop now c (bq_q b)
             in b\<lparr>bq_q := kept,
                  bq_queue_evicted_stale := bq_queue_evicted_stale b + n,
                  bq_window := (if inside_window cutoff now
                    then (bq_window b)\<lparr>wq_evicted := wq_evicted (bq_window b) + n\<rparr>
                    else bq_window b)\<rparr>))"

definition queue_push ::
  "u64 \<Rightarrow> u64 \<Rightarrow> 's publisher \<Rightarrow> work_item \<Rightarrow> 's blocking_queue \<Rightarrow> 's blocking_queue" where
  "queue_push cutoff now pub v b =
     (let b1 = evict_stale_locked cutoff now b;
          b2 = (if inside_window cutoff now
                then b1\<lparr>bq_window := (bq_window b1)\<lparr>wq_offered := wq_offered (bq_window b1) + 1\<rparr>\<rparr>
                else b1);
          b3 = (if bq_waiting b2 then (publish_hint pub v b2)\<lparr>bq_waiting := False\<rparr> else b2)
      in b3\<lparr>bq_q := bq_q b3 @ [v]\<rparr>)"

text \<open>
  \<open>pop\<close> from the loop test on: it goes to sleep, finds the queue stopped, or takes the front item.
  \<open>queue_wake\<close> is the same after \<open>cv_.wait\<close> returned.
\<close>

datatype pop_result = Pop_wait | Pop_stopped | Pop_item work_item

definition queue_pop ::
  "u64 \<Rightarrow> u64 \<Rightarrow> 's publisher \<Rightarrow> 's blocking_queue \<Rightarrow> pop_result \<times> 's blocking_queue" where
  "queue_pop cutoff now pub b =
     (if \<not> bq_stop b \<and> bq_q b = [] then (Pop_wait, b\<lparr>bq_waiting := True\<rparr>)
      else if bq_stop b then (Pop_stopped, b)
      else
        (let out = hd (bq_q b);
             b1 = (if inside_window cutoff now
                   then b\<lparr>bq_window := (bq_window b)\<lparr>wq_dequeued := wq_dequeued (bq_window b) + 1\<rparr>\<rparr>
                   else b)
         in (Pop_item out, publish_hint pub out (b1\<lparr>bq_q := tl (bq_q b1)\<rparr>))))"

definition queue_wake ::
  "u64 \<Rightarrow> u64 \<Rightarrow> 's publisher \<Rightarrow> 's blocking_queue \<Rightarrow> pop_result \<times> 's blocking_queue" where
  "queue_wake cutoff now pub b = queue_pop cutoff now pub (b\<lparr>bq_waiting := False\<rparr>)"

definition queue_stop :: "'s blocking_queue \<Rightarrow> 's blocking_queue" where
  "queue_stop b = b\<lparr>bq_stop := True\<rparr>"

definition set_hint_target :: "hint_target \<Rightarrow> 's blocking_queue \<Rightarrow> 's blocking_queue" where
  "set_hint_target t b = b\<lparr>bq_ht := t\<rparr>"

definition set_stale_eviction :: "bool \<Rightarrow> 's blocking_queue \<Rightarrow> 's blocking_queue" where
  "set_stale_eviction enabled b = b\<lparr>bq_evict_stale := enabled\<rparr>"

definition queue_pending :: "'s blocking_queue \<Rightarrow> u64" where
  "queue_pending b = vsize (bq_q b)"

definition queue_new :: "'s \<Rightarrow> 's blocking_queue" where
  "queue_new s = \<lparr>bq_q = [], bq_stop = False, bq_waiting = False, bq_evict_stale = False,
     bq_queue_evicted_stale = 0,
     bq_window = \<lparr>wq_offered = 0, wq_dequeued = 0, wq_evicted = 0\<rparr>,
     bq_ht = \<lparr>ht_open = False, ht_pid_tgid = None, ht_cfg = None\<rparr>, bq_hints = s\<rparr>"

section \<open>The queue with its consumer\<close>

text \<open>
  The consumer is outside \<open>pop\<close> (with the item it last took, if any), asleep in \<open>cv_.wait\<close> (and
  notified or not), or has left its loop.
\<close>

datatype consumer = Outside "work_item option" | Asleep bool | Left

record 's channel =
  ch_queue :: "'s blocking_queue"
  ch_consumer :: consumer

datatype channel_op = Ch_push u64 work_item | Ch_pop u64 | Ch_wake u64 | Ch_stop

definition notify :: "consumer \<Rightarrow> consumer" where
  "notify c = (case c of Asleep _ \<Rightarrow> Asleep True | _ \<Rightarrow> c)"

definition consumer_after :: "pop_result \<Rightarrow> consumer" where
  "consumer_after r = (case r of Pop_wait \<Rightarrow> Asleep False | Pop_stopped \<Rightarrow> Left
     | Pop_item w \<Rightarrow> Outside (Some w))"

text \<open>\<open>Ch_wake\<close> also covers a spurious wake-up. Calls that are not possible leave the state alone.\<close>

fun channel_apply :: "u64 \<Rightarrow> 's publisher \<Rightarrow> channel_op \<Rightarrow> 's channel \<Rightarrow> 's channel" where
  "channel_apply cutoff pub (Ch_push now v) c =
     c\<lparr>ch_queue := queue_push cutoff now pub v (ch_queue c), ch_consumer := notify (ch_consumer c)\<rparr>"
| "channel_apply cutoff pub (Ch_pop now) c =
     (case ch_consumer c of
        Outside _ \<Rightarrow>
          (let (r, b) = queue_pop cutoff now pub (ch_queue c)
           in c\<lparr>ch_queue := b, ch_consumer := consumer_after r\<rparr>)
      | _ \<Rightarrow> c)"
| "channel_apply cutoff pub (Ch_wake now) c =
     (case ch_consumer c of
        Asleep _ \<Rightarrow>
          (let (r, b) = queue_wake cutoff now pub (ch_queue c)
           in c\<lparr>ch_queue := b, ch_consumer := consumer_after r\<rparr>)
      | _ \<Rightarrow> c)"
| "channel_apply cutoff pub Ch_stop c =
     c\<lparr>ch_queue := queue_stop (ch_queue c), ch_consumer := notify (ch_consumer c)\<rparr>"

text \<open>A queue wired to its stage (and possibly to an open hint map), its consumer registered.\<close>

definition channel_new :: "hint_target \<Rightarrow> bool \<Rightarrow> 's \<Rightarrow> 's channel" where
  "channel_new t evict s = \<lparr>ch_queue = set_stale_eviction evict (set_hint_target t (queue_new s)),
     ch_consumer = Outside None\<rparr>"

section \<open>Lemmas\<close>

lemma evict_loop_filter:
  "evict_loop now c ws = (filter (\<lambda>w. \<not> is_stale now w c) ws,
     of_nat (length (filter (\<lambda>w. is_stale now w c) ws)))"
  by (induction ws) simp_all

text \<open>The items an eviction removes.\<close>

definition evictable :: "u64 \<Rightarrow> 's blocking_queue \<Rightarrow> work_item \<Rightarrow> bool" where
  "evictable now b w = (case ht_cfg (bq_ht b) of None \<Rightarrow> False
     | Some c \<Rightarrow> bq_evict_stale b \<and> is_stale now w c)"

lemma evict_eq:
  "evict_stale_locked cutoff now b =
     b\<lparr>bq_q := filter (\<lambda>w. \<not> evictable now b w) (bq_q b),
       bq_queue_evicted_stale := bq_queue_evicted_stale b + vsize (filter (evictable now b) (bq_q b)),
       bq_window := (if inside_window cutoff now
         then (bq_window b)\<lparr>wq_evicted := wq_evicted (bq_window b) + vsize (filter (evictable now b) (bq_q b))\<rparr>
         else bq_window b)\<rparr>"
proof (cases "ht_cfg (bq_ht b)")
  case None
  then show ?thesis by (simp add: evict_stale_locked_def evictable_def)
next
  case (Some c)
  show ?thesis
  proof (cases "bq_evict_stale b \<and> sc_stale_ns c \<noteq> 0")
    case True
    with Some have "evictable now b = (\<lambda>w. is_stale now w c)"
      by (simp add: evictable_def fun_eq_iff)
    with True Some show ?thesis
      by (simp add: evict_stale_locked_def evict_loop_filter vsize_def)
  next
    case False
    with Some have "evictable now b = (\<lambda>w. False)"
      by (auto simp: evictable_def fun_eq_iff is_stale_def)
    with False Some show ?thesis by (simp add: evict_stale_locked_def)
  qed
qed

definition hints_active :: "'s blocking_queue \<Rightarrow> bool" where
  "hints_active b \<longleftrightarrow> ht_open (bq_ht b) \<and> (\<exists>key c. ht_pid_tgid (bq_ht b) = Some key \<and> key \<noteq> 0 \<and>
     ht_cfg (bq_ht b) = Some c)"

lemma publish_hint_frame:
  "publish_hint pub v b = b\<lparr>bq_hints := bq_hints (publish_hint pub v b)\<rparr>"
  by (simp add: publish_hint_def split: option.splits)

lemma publish_hint_fields [simp]:
  "bq_q (publish_hint pub v b) = bq_q b" "bq_stop (publish_hint pub v b) = bq_stop b"
  "bq_waiting (publish_hint pub v b) = bq_waiting b" "bq_ht (publish_hint pub v b) = bq_ht b"
  "bq_window (publish_hint pub v b) = bq_window b"
  "bq_evict_stale (publish_hint pub v b) = bq_evict_stale b"
  "bq_queue_evicted_stale (publish_hint pub v b) = bq_queue_evicted_stale b"
  by (simp_all add: publish_hint_def split: option.splits)

lemma push_fields:
  "bq_q (queue_push cutoff now pub v b) = filter (\<lambda>w. \<not> evictable now b w) (bq_q b) @ [v]"
  "bq_stop (queue_push cutoff now pub v b) = bq_stop b"
  "bq_waiting (queue_push cutoff now pub v b) = False"
  "bq_ht (queue_push cutoff now pub v b) = bq_ht b"
  "bq_evict_stale (queue_push cutoff now pub v b) = bq_evict_stale b"
  "bq_queue_evicted_stale (queue_push cutoff now pub v b) =
     bq_queue_evicted_stale b + vsize (filter (evictable now b) (bq_q b))"
  "bq_window (queue_push cutoff now pub v b) =
     (if inside_window cutoff now
      then (bq_window b)\<lparr>wq_evicted := wq_evicted (bq_window b) + vsize (filter (evictable now b) (bq_q b)),
             wq_offered := wq_offered (bq_window b) + 1\<rparr>
      else bq_window b)"
  by (simp_all add: queue_push_def Let_def evict_eq)

lemma pop_cases:
  obtains (sleep) "\<not> bq_stop b" "bq_q b = []" "queue_pop cutoff now pub b = (Pop_wait, b\<lparr>bq_waiting := True\<rparr>)"
  | (stopped) "bq_stop b" "queue_pop cutoff now pub b = (Pop_stopped, b)"
  | (item) w ws where "\<not> bq_stop b" "bq_q b = w # ws"
      "fst (queue_pop cutoff now pub b) = Pop_item w"
      "snd (queue_pop cutoff now pub b) = publish_hint pub w (b\<lparr>bq_window :=
         (if inside_window cutoff now
          then (bq_window b)\<lparr>wq_dequeued := wq_dequeued (bq_window b) + 1\<rparr> else bq_window b),
         bq_q := ws\<rparr>)"
proof (cases "bq_stop b")
  case True
  then show ?thesis by (intro stopped) (simp_all add: queue_pop_def)
next
  case False
  show ?thesis
  proof (cases "bq_q b")
    case Nil
    with False show ?thesis by (intro sleep) (simp_all add: queue_pop_def)
  next
    case (Cons w ws)
    with False show ?thesis
      by (intro item [of w ws]) (simp_all add: queue_pop_def Let_def)
  qed
qed

section \<open>Wake-ups\<close>

text \<open>A consumer asleep and not notified has nothing to do, and the queue knows that it waits.\<close>

definition wake_inv :: "'s channel \<Rightarrow> bool" where
  "wake_inv c \<longleftrightarrow>
     (bq_waiting (ch_queue c) \<longrightarrow> bq_q (ch_queue c) = [] \<and> (\<exists>n. ch_consumer c = Asleep n)) \<and>
     (\<forall>n. ch_consumer c = Asleep n \<longrightarrow>
        (\<not> bq_waiting (ch_queue c) \<longrightarrow> bq_q (ch_queue c) \<noteq> []) \<and>
        (\<not> n \<longrightarrow> bq_waiting (ch_queue c) \<and> \<not> bq_stop (ch_queue c)))"

lemma wake_inv_apply:
  assumes "wake_inv c"
  shows "wake_inv (channel_apply cutoff pub op c)"
proof (cases op)
  case (Ch_push now v)
  then show ?thesis
    by (auto simp: wake_inv_def push_fields notify_def split: consumer.splits)
next
  case (Ch_pop now)
  show ?thesis
  proof (cases "ch_consumer c")
    case (Outside w)
    then have nw: "\<not> bq_waiting (ch_queue c)" using assms by (auto simp: wake_inv_def)
    show ?thesis
      by (cases rule: pop_cases [of "ch_queue c" cutoff now pub])
        (use Ch_pop Outside nw in \<open>auto simp: wake_inv_def consumer_after_def split_beta\<close>)
  qed (use assms Ch_pop in simp_all)
next
  case (Ch_wake now)
  show ?thesis
  proof (cases "ch_consumer c")
    case (Asleep n)
    show ?thesis
      by (cases rule: pop_cases [of "(ch_queue c)\<lparr>bq_waiting := False\<rparr>" cutoff now pub])
        (use Ch_wake Asleep in \<open>auto simp: wake_inv_def consumer_after_def split_beta queue_wake_def\<close>)
  qed (use assms Ch_wake in simp_all)
next
  case Ch_stop
  with assms show ?thesis by (auto simp: wake_inv_def notify_def queue_stop_def split: consumer.splits)
qed

section \<open>Hints\<close>

text \<open>
  \<open>reliable\<close>: every publication is written (the demo ignores the result of the call). Then the slot
  shows the item being processed, and, for a consumer about to wake, the head of the queue.
\<close>

definition reliable :: "'s publisher \<Rightarrow> ('s \<Rightarrow> u64 \<Rightarrow> fresh_task_hint option) \<Rightarrow> bool" where
  "reliable pub slot \<longleftrightarrow> (\<forall>k h s. slot (snd (pub k h s)) = (slot s)(k := Some h))"

definition shown_for :: "('s \<Rightarrow> u64 \<Rightarrow> fresh_task_hint option) \<Rightarrow> 's blocking_queue \<Rightarrow> work_item \<Rightarrow> bool" where
  "shown_for slot b w \<longleftrightarrow> (\<forall>key c. ht_open (bq_ht b) \<and> ht_pid_tgid (bq_ht b) = Some key \<and> key \<noteq> 0 \<and>
     ht_cfg (bq_ht b) = Some c \<longrightarrow> slot (bq_hints b) key = Some (item_hint c w))"

definition hint_inv :: "('s \<Rightarrow> u64 \<Rightarrow> fresh_task_hint option) \<Rightarrow> 's channel \<Rightarrow> bool" where
  "hint_inv slot c \<longleftrightarrow> wake_inv c \<and>
     (\<forall>w. ch_consumer c = Outside (Some w) \<longrightarrow> shown_for slot (ch_queue c) w) \<and>
     (\<forall>n w ws. ch_consumer c = Asleep n \<and> bq_q (ch_queue c) = w # ws \<and>
        \<not> bq_evict_stale (ch_queue c) \<longrightarrow> shown_for slot (ch_queue c) w)"

lemma publish_shown: "reliable pub slot \<Longrightarrow> shown_for slot (publish_hint pub v b) v"
  unfolding shown_for_def publish_hint_fields by (auto simp: publish_hint_def reliable_def)

lemma shown_for_frame:
  assumes "shown_for slot b w" and "bq_hints d = bq_hints b" and "bq_ht d = bq_ht b"
  shows "shown_for slot d w"
  using assms by (simp add: shown_for_def)

lemma push_hints:
  "bq_hints (queue_push cutoff now pub v b) =
     (if bq_waiting b then bq_hints (publish_hint pub v b) else bq_hints b)"
  by (simp add: queue_push_def Let_def evict_eq publish_hint_def split: option.splits)

lemma push_shown:
  assumes "reliable pub slot" and "bq_waiting b"
  shows "shown_for slot (queue_push cutoff now pub v b) v"
  by (rule shown_for_frame [OF publish_shown [OF assms(1), of v b]])
    (simp_all add: push_hints push_fields assms(2))

lemma push_keeps_shown:
  assumes "\<not> bq_waiting b" and "shown_for slot b w"
  shows "shown_for slot (queue_push cutoff now pub v b) w"
  by (rule shown_for_frame [OF assms(2)]) (simp_all add: push_hints push_fields assms(1))

lemma not_evictable: "\<not> bq_evict_stale b \<Longrightarrow> filter (\<lambda>w. \<not> evictable now b w) ws = ws"
  by (simp add: evictable_def filter_id_conv split: option.splits)

lemma hint_inv_pop:
  assumes "reliable pub slot" and "r = fst (queue_pop cutoff now pub b)"
    and "d = snd (queue_pop cutoff now pub b)"
  shows "(\<forall>w. consumer_after r = Outside (Some w) \<longrightarrow> shown_for slot d w) \<and>
         (\<forall>n. consumer_after r = Asleep n \<longrightarrow> bq_q d = [])"
  by (cases rule: pop_cases [of b cutoff now pub])
    (use assms publish_shown [OF assms(1)] in \<open>simp_all add: consumer_after_def\<close>)

lemma hint_inv_push:
  assumes "reliable pub slot" and "hint_inv slot c"
  shows "hint_inv slot (channel_apply cutoff pub (Ch_push now v) c)"
proof -
  let ?b = "ch_queue c"
  have wi: "wake_inv c" using assms(2) by (simp add: hint_inv_def)
  have "shown_for slot (queue_push cutoff now pub v ?b) w"
    if "ch_consumer c = Outside (Some w)" for w
  proof (rule push_keeps_shown)
    show "\<not> bq_waiting ?b" using wi that by (auto simp: wake_inv_def)
    show "shown_for slot ?b w" using assms(2) that by (simp add: hint_inv_def)
  qed
  moreover have "shown_for slot (queue_push cutoff now pub v ?b) w"
    if c: "ch_consumer c = Asleep n" and q: "bq_q (queue_push cutoff now pub v ?b) = w # ws"
      and e: "\<not> bq_evict_stale ?b" for n w ws
  proof (cases "bq_waiting ?b")
    case True
    then have "bq_q ?b = []" using wi by (simp add: wake_inv_def)
    with q have "w = v" by (simp add: push_fields)
    with push_shown [OF assms(1) True] show ?thesis by simp
  next
    case False
    then obtain u us where Cons: "bq_q ?b = u # us"
      using wi c by (cases "bq_q ?b") (auto simp: wake_inv_def)
    have "filter (\<lambda>w. \<not> evictable now ?b w) (bq_q ?b) = bq_q ?b" by (rule not_evictable [OF e])
    with q Cons have "w = u" unfolding push_fields by simp
    with Cons assms(2) c e False show ?thesis by (intro push_keeps_shown) (auto simp: hint_inv_def)
  qed
  ultimately show ?thesis
    using wake_inv_apply [OF wi, of cutoff pub "Ch_push now v"]
    by (auto simp: hint_inv_def push_fields notify_def split: consumer.splits)
qed

lemma hint_inv_apply:
  assumes "reliable pub slot" and "hint_inv slot c"
  shows "hint_inv slot (channel_apply cutoff pub op c)"
proof (cases op)
  case (Ch_push now v)
  with hint_inv_push [OF assms] show ?thesis by simp
next
  case (Ch_pop now)
  have wi: "wake_inv (channel_apply cutoff pub op c)"
    by (rule wake_inv_apply) (use assms(2) in \<open>simp add: hint_inv_def\<close>)
  show ?thesis
  proof (cases "ch_consumer c")
    case (Outside w)
    with wi Ch_pop hint_inv_pop [OF assms(1) refl refl, of cutoff now "ch_queue c"] show ?thesis
      by (auto simp: hint_inv_def split_beta)
  qed (use assms(2) Ch_pop in simp_all)
next
  case (Ch_wake now)
  have wi: "wake_inv (channel_apply cutoff pub op c)"
    by (rule wake_inv_apply) (use assms(2) in \<open>simp add: hint_inv_def\<close>)
  show ?thesis
  proof (cases "ch_consumer c")
    case (Asleep n)
    with wi Ch_wake hint_inv_pop [OF assms(1) refl refl, of cutoff now "(ch_queue c)\<lparr>bq_waiting := False\<rparr>"]
    show ?thesis by (auto simp: hint_inv_def split_beta queue_wake_def)
  qed (use assms(2) Ch_wake in simp_all)
next
  case Ch_stop
  have wi: "wake_inv (channel_apply cutoff pub op c)"
    by (rule wake_inv_apply) (use assms(2) in \<open>simp add: hint_inv_def\<close>)
  with assms(2) Ch_stop show ?thesis
    by (auto simp: hint_inv_def queue_stop_def notify_def shown_for_def split: consumer.splits)
qed

lemma hint_inv_new: "hint_inv slot (channel_new t evict s)"
  by (simp add: hint_inv_def wake_inv_def channel_new_def set_stale_eviction_def set_hint_target_def
    queue_new_def)

lemma wake_inv_new: "wake_inv (channel_new t evict s)"
  using hint_inv_new [of "\<lambda>_ _. None" t evict s] by (simp add: hint_inv_def)

definition channel_init :: "'s channel \<Rightarrow> bool" where
  "channel_init c \<longleftrightarrow> (\<exists>t evict s. c = channel_new t evict s)"

definition channel_step :: "u64 \<Rightarrow> 's publisher \<Rightarrow> 's channel \<Rightarrow> 's channel \<Rightarrow> bool" where
  "channel_step cutoff pub c d \<longleftrightarrow> (\<exists>op. d = channel_apply cutoff pub op c)"

locale reliable_hints =
  fixes pub :: "'s publisher" and slot :: "'s \<Rightarrow> u64 \<Rightarrow> fresh_task_hint option"
  assumes reliable: "reliable pub slot"

sublocale reliable_hints \<subseteq> wake_safe: invariant_system channel_init "channel_step cutoff pub" "hint_inv slot"
  by unfold_locales
    (auto simp: channel_init_def channel_step_def hint_inv_new intro: hint_inv_apply [OF reliable])

context reliable_hints
begin

lemma channel_reach: "reach channel_init (channel_step cutoff pub) c \<Longrightarrow> hint_inv slot c"
  by (rule wake_safe.reach_invar)

end

interpretation wake_ups: invariant_system channel_init "channel_step cutoff pub" wake_inv
  by unfold_locales (auto simp: channel_init_def channel_step_def wake_inv_new intro: wake_inv_apply)

interpretation map_hints: reliable_hints map_write "\<lambda>m. m"
  by unfold_locales (simp add: reliable_def map_write_def)

section \<open>History\<close>

definition popped_by :: "u64 \<Rightarrow> 's publisher \<Rightarrow> channel_op \<Rightarrow> 's channel \<Rightarrow> work_item list" where
  "popped_by cutoff pub op c =
     (case (op, ch_consumer c, ch_consumer (channel_apply cutoff pub op c)) of
        (Ch_pop _, Outside _, Outside (Some w)) \<Rightarrow> [w]
      | (Ch_wake _, Asleep _, Outside (Some w)) \<Rightarrow> [w]
      | _ \<Rightarrow> [])"

definition pushed_by :: "channel_op \<Rightarrow> work_item list" where
  "pushed_by op = (case op of Ch_push _ v \<Rightarrow> [v] | _ \<Rightarrow> [])"

fun channel_run ::
  "u64 \<Rightarrow> 's publisher \<Rightarrow> channel_op list \<Rightarrow> 's channel \<Rightarrow> work_item list \<times> work_item list \<times> 's channel" where
  "channel_run cutoff pub [] c = ([], [], c)"
| "channel_run cutoff pub (op # ops) c =
     (let (ins, outs, d) = channel_run cutoff pub ops (channel_apply cutoff pub op c)
      in (pushed_by op @ ins, popped_by cutoff pub op c @ outs, d))"

text \<open>One operation on the items: what is popped leaves in front, an eviction thins the queue.\<close>

lemma apply_items:
  shows "subseq (popped_by cutoff pub op c @ bq_q (ch_queue (channel_apply cutoff pub op c)))
           (bq_q (ch_queue c) @ pushed_by op) \<and>
         length (bq_q (ch_queue c)) + length (pushed_by op) =
           length (popped_by cutoff pub op c) + length (bq_q (ch_queue (channel_apply cutoff pub op c))) +
           (case op of Ch_push now v \<Rightarrow> length (filter (evictable now (ch_queue c)) (bq_q (ch_queue c)))
            | _ \<Rightarrow> 0)"
proof (cases op)
  case (Ch_push now v)
  then show ?thesis
    using length_filter_partition [of "evictable now (ch_queue c)" "bq_q (ch_queue c)"]
    by (auto simp: popped_by_def pushed_by_def push_fields intro: list_emb_append_mono subseq_filter_left)
next
  case (Ch_pop now)
  show ?thesis
  proof (cases "ch_consumer c")
    case (Outside w)
    show ?thesis
      by (cases rule: pop_cases [of "ch_queue c" cutoff now pub])
        (use Ch_pop Outside in \<open>auto simp: popped_by_def pushed_by_def split_beta consumer_after_def\<close>)
  qed (use Ch_pop in \<open>simp_all add: popped_by_def pushed_by_def\<close>)
next
  case (Ch_wake now)
  show ?thesis
  proof (cases "ch_consumer c")
    case (Asleep n)
    show ?thesis
      by (cases rule: pop_cases [of "(ch_queue c)\<lparr>bq_waiting := False\<rparr>" cutoff now pub])
        (use Ch_wake Asleep in \<open>auto simp: popped_by_def pushed_by_def split_beta consumer_after_def
          queue_wake_def\<close>)
  qed (use Ch_wake in \<open>simp_all add: popped_by_def pushed_by_def\<close>)
next
  case Ch_stop
  then show ?thesis by (simp add: popped_by_def pushed_by_def queue_stop_def)
qed

lemma apply_evicted:
  "bq_queue_evicted_stale (ch_queue (channel_apply cutoff pub op c)) = bq_queue_evicted_stale (ch_queue c) +
     of_nat (case op of Ch_push now v \<Rightarrow> length (filter (evictable now (ch_queue c)) (bq_q (ch_queue c)))
       | _ \<Rightarrow> 0)"
proof (cases op)
  case (Ch_push now v)
  then show ?thesis by (simp add: push_fields vsize_def)
next
  case (Ch_pop now)
  show ?thesis
    by (cases rule: pop_cases [of "ch_queue c" cutoff now pub])
      (use Ch_pop in \<open>simp_all add: split_beta split: consumer.splits\<close>)
next
  case (Ch_wake now)
  show ?thesis
    by (cases rule: pop_cases [of "(ch_queue c)\<lparr>bq_waiting := False\<rparr>" cutoff now pub])
      (use Ch_wake in \<open>simp_all add: split_beta queue_wake_def split: consumer.splits\<close>)
next
  case Ch_stop
  then show ?thesis by (simp add: queue_stop_def)
qed

lemma apply_config:
  "bq_evict_stale (ch_queue (channel_apply cutoff pub op c)) = bq_evict_stale (ch_queue c)"
proof (cases op)
  case (Ch_push now v)
  then show ?thesis by (simp add: push_fields)
next
  case (Ch_pop now)
  show ?thesis
    by (cases rule: pop_cases [of "ch_queue c" cutoff now pub])
      (use Ch_pop in \<open>simp_all add: split_beta split: consumer.splits\<close>)
next
  case (Ch_wake now)
  show ?thesis
    by (cases rule: pop_cases [of "(ch_queue c)\<lparr>bq_waiting := False\<rparr>" cutoff now pub])
      (use Ch_wake in \<open>simp_all add: split_beta queue_wake_def split: consumer.splits\<close>)
next
  case Ch_stop
  then show ?thesis by (simp add: queue_stop_def)
qed

definition balance :: "'s channel \<Rightarrow> u64" where
  "balance c = vsize (bq_q (ch_queue c)) + bq_queue_evicted_stale (ch_queue c)"

lemma apply_balance:
  "balance c + vsize (pushed_by op) =
     vsize (popped_by cutoff pub op c) + balance (channel_apply cutoff pub op c)"
proof -
  let ?d = "channel_apply cutoff pub op c"
  let ?e = "case op of Ch_push now v \<Rightarrow> length (filter (evictable now (ch_queue c)) (bq_q (ch_queue c))) | _ \<Rightarrow> 0"
  have "length (bq_q (ch_queue c)) + length (pushed_by op) =
      length (popped_by cutoff pub op c) + length (bq_q (ch_queue ?d)) + ?e"
    using apply_items [of cutoff pub op c] by blast
  then have "(of_nat (length (bq_q (ch_queue c)) + length (pushed_by op)) :: u64) =
      of_nat (length (popped_by cutoff pub op c) + length (bq_q (ch_queue ?d)) + ?e)"
    by simp
  then show ?thesis
    by (simp add: balance_def vsize_def apply_evicted ac_simps)
qed

lemma run_balance:
  "channel_run cutoff pub ops c = (ins, outs, d) \<Longrightarrow> balance c + vsize ins = vsize outs + balance d"
proof (induction ops arbitrary: c ins outs)
  case (Cons op ops)
  obtain i o' where r: "channel_run cutoff pub ops (channel_apply cutoff pub op c) = (i, o', d)"
    and eqs: "ins = pushed_by op @ i" "outs = popped_by cutoff pub op c @ o'"
    using Cons.prems by (auto simp: Let_def split: prod.splits)
  have "balance c + vsize ins = vsize (popped_by cutoff pub op c) +
      (balance (channel_apply cutoff pub op c) + vsize i)"
    using apply_balance [of c op cutoff pub] by (simp add: eqs add.assoc [symmetric])
  also have "\<dots> = vsize outs + balance d" using Cons.IH [OF r] by (simp add: eqs add.assoc)
  finally show ?case .
qed simp

lemma run_subseq:
  "channel_run cutoff pub ops c = (ins, outs, d) \<Longrightarrow>
   subseq (outs @ bq_q (ch_queue d)) (bq_q (ch_queue c) @ ins)"
proof (induction ops arbitrary: c ins outs)
  case (Cons op ops)
  let ?c = "channel_apply cutoff pub op c"
  obtain i o' where r: "channel_run cutoff pub ops ?c = (i, o', d)"
    and eqs: "ins = pushed_by op @ i" "outs = popped_by cutoff pub op c @ o'"
    using Cons.prems by (auto simp: Let_def split: prod.splits)
  have "subseq (outs @ bq_q (ch_queue d)) ((popped_by cutoff pub op c @ bq_q (ch_queue ?c)) @ i)"
    using Cons.IH [OF r] by (simp add: eqs list_emb_append_mono)
  also have "subseq ((popped_by cutoff pub op c @ bq_q (ch_queue ?c)) @ i)
      ((bq_q (ch_queue c) @ pushed_by op) @ i)"
    by (rule list_emb_append_mono [OF conjunct1 [OF apply_items] subseq_order.refl])
  finally show ?case by (simp add: eqs)
qed simp

lemma run_evictions:
  assumes "\<not> bq_evict_stale (ch_queue c)" and "channel_run cutoff pub ops c = (ins, outs, d)"
  shows "length (bq_q (ch_queue c)) + length ins = length outs + length (bq_q (ch_queue d))"
  using assms
proof (induction ops arbitrary: c ins outs)
  case (Cons op ops)
  let ?c = "channel_apply cutoff pub op c"
  obtain i o' where r: "channel_run cutoff pub ops ?c = (i, o', d)"
    and eqs: "ins = pushed_by op @ i" "outs = popped_by cutoff pub op c @ o'"
    using Cons.prems(2) by (auto simp: Let_def split: prod.splits)
  have "filter (evictable now (ch_queue c)) ws = []" for now ws
    using Cons.prems(1) by (simp add: evictable_def filter_empty_conv split: option.splits)
  then have "length (bq_q (ch_queue c)) + length (pushed_by op) =
      length (popped_by cutoff pub op c) + length (bq_q (ch_queue ?c))"
    using apply_items [of cutoff pub op c] by (simp split: channel_op.splits)
  moreover have "length (bq_q (ch_queue ?c)) + length i = length o' + length (bq_q (ch_queue d))"
    using Cons.IH [OF _ r] Cons.prems(1) by (simp add: apply_config)
  ultimately show ?case by (simp add: eqs)
qed simp

section \<open>The measurement window\<close>

fun op_inside :: "u64 \<Rightarrow> channel_op \<Rightarrow> bool" where
  "op_inside cutoff (Ch_push now v) = inside_window cutoff now"
| "op_inside cutoff (Ch_pop now) = inside_window cutoff now"
| "op_inside cutoff (Ch_wake now) = inside_window cutoff now"
| "op_inside cutoff Ch_stop = True"

fun op_outside :: "u64 \<Rightarrow> channel_op \<Rightarrow> bool" where
  "op_outside cutoff (Ch_push now v) = (\<not> inside_window cutoff now)"
| "op_outside cutoff (Ch_pop now) = (\<not> inside_window cutoff now)"
| "op_outside cutoff (Ch_wake now) = (\<not> inside_window cutoff now)"
| "op_outside cutoff Ch_stop = True"

definition window_exact :: "'s channel \<Rightarrow> bool" where
  "window_exact c \<longleftrightarrow> window_pending (bq_window (ch_queue c)) = vsize (bq_q (ch_queue c))"

lemma vsize_partition: "vsize (filter P ws) + vsize (filter (\<lambda>w. \<not> P w) ws) = vsize ws"
  unfolding vsize_def of_nat_add [symmetric] length_filter_partition ..

lemma window_push:
  assumes "window_exact c" and "inside_window cutoff now"
  shows "window_exact (channel_apply cutoff pub (Ch_push now v) c)"
proof -
  let ?q = "bq_q (ch_queue c)" and ?w = "bq_window (ch_queue c)"
  have "wq_offered ?w - wq_dequeued ?w - wq_evicted ?w =
      vsize (filter (evictable now (ch_queue c)) ?q) + vsize (filter (\<lambda>w. \<not> evictable now (ch_queue c) w) ?q)"
    using assms(1) by (simp add: window_exact_def window_pending_def vsize_partition)
  then show ?thesis
    using assms(2) by (simp add: window_exact_def window_pending_def push_fields algebra_simps)
qed

lemma window_inside:
  assumes "window_exact c" and "op_inside cutoff op"
  shows "window_exact (channel_apply cutoff pub op c)"
proof (cases op)
  case (Ch_push now v)
  with assms window_push show ?thesis by fastforce
next
  case (Ch_pop now)
  show ?thesis
    by (cases rule: pop_cases [of "ch_queue c" cutoff now pub])
      (use Ch_pop assms in \<open>auto simp: split_beta window_exact_def window_pending_def algebra_simps
        split: consumer.splits\<close>)
next
  case (Ch_wake now)
  show ?thesis
    by (cases rule: pop_cases [of "(ch_queue c)\<lparr>bq_waiting := False\<rparr>" cutoff now pub])
      (use Ch_wake assms in \<open>auto simp: split_beta queue_wake_def window_exact_def window_pending_def
        algebra_simps split: consumer.splits\<close>)
next
  case Ch_stop
  with assms show ?thesis by (simp add: window_exact_def queue_stop_def)
qed

lemma window_outside:
  assumes "op_outside cutoff op"
  shows "bq_window (ch_queue (channel_apply cutoff pub op c)) = bq_window (ch_queue c)"
proof (cases op)
  case (Ch_push now v)
  with assms show ?thesis by (simp add: push_fields)
next
  case (Ch_pop now)
  show ?thesis
    by (cases rule: pop_cases [of "ch_queue c" cutoff now pub])
      (use Ch_pop assms in \<open>simp_all add: split_beta split: consumer.splits\<close>)
next
  case (Ch_wake now)
  show ?thesis
    by (cases rule: pop_cases [of "(ch_queue c)\<lparr>bq_waiting := False\<rparr>" cutoff now pub])
      (use Ch_wake assms in \<open>simp_all add: split_beta queue_wake_def split: consumer.splits\<close>)
next
  case Ch_stop
  then show ?thesis by (simp add: queue_stop_def)
qed

definition channel_ops :: "u64 \<Rightarrow> 's publisher \<Rightarrow> channel_op list \<Rightarrow> 's channel \<Rightarrow> 's channel" where
  "channel_ops cutoff pub ops c = fold (channel_apply cutoff pub) ops c"

lemma ops_inside:
  "window_exact c \<Longrightarrow> \<forall>op \<in> set ops. op_inside cutoff op \<Longrightarrow> window_exact (channel_ops cutoff pub ops c)"
  unfolding channel_ops_def by (induction ops arbitrary: c) (simp_all add: window_inside)

lemma ops_outside:
  "\<forall>op \<in> set ops. op_outside cutoff op \<Longrightarrow>
   bq_window (ch_queue (channel_ops cutoff pub ops c)) = bq_window (ch_queue c)"
  unfolding channel_ops_def by (induction ops arbitrary: c) (simp_all add: window_outside)

section \<open>Properties\<close>

text \<open>
  C18: Wake-safe hinting. In every interleaving of producers, the consumer, spurious wake-ups and the
  stop, with a map that takes the writes: the item the consumer is processing is the one in its slot,
  however many items are pushed meanwhile; and (without stale eviction) a consumer that is asleep
  while something is queued already has the hint of the head item, so that its wake-up is scheduled
  by it.
\<close>

theorem wake_safe_hints:
  assumes "reliable pub slot" and "reach channel_init (channel_step cutoff pub) c"
    and "ht_open (bq_ht (ch_queue c))" and "ht_pid_tgid (bq_ht (ch_queue c)) = Some key" and "key \<noteq> 0"
    and "ht_cfg (bq_ht (ch_queue c)) = Some cfg"
    and "ch_consumer c = Outside (Some w) \<or>
      ch_consumer c = Asleep n \<and> bq_q (ch_queue c) = w # ws \<and> \<not> bq_evict_stale (ch_queue c)"
  shows "slot (bq_hints (ch_queue c)) key = Some (item_hint cfg w)"
proof -
  have "reliable_hints pub slot" using assms(1) by unfold_locales
  from reliable_hints.channel_reach [OF this assms(2)] assms(7) have "shown_for slot (ch_queue c) w"
    by (auto simp: hint_inv_def)
  with assms(3-6) show ?thesis by (simp add: shown_for_def)
qed

definition demo_cfg :: stage_cfg where
  "demo_cfg = \<lparr>sc_name = ''vision_fe'', sc_stage_id = 1, sc_class_id = 1, sc_deadline_rel_ns = 33,
     sc_stale_ns = 66, sc_budget_ns = 12, sc_slice_ns = 0, sc_weight = 0\<rparr>"

definition demo_item :: "u64 \<Rightarrow> u64 \<Rightarrow> work_item" where
  "demo_item n t = \<lparr>wi_seq = n, wi_ts_ns = t, wi_kind = 1, wi_points = 0, wi_burst_id = 0\<rparr>"

definition demo_channel :: "bool \<Rightarrow> (u64 \<Rightarrow> fresh_task_hint option) channel" where
  "demo_channel evict = channel_new \<lparr>ht_open = True, ht_pid_tgid = Some 77, ht_cfg = Some demo_cfg\<rparr>
     evict (\<lambda>_. None)"

lemma ops_reach:
  assumes "reach channel_init (channel_step cutoff pub) c"
  shows "reach channel_init (channel_step cutoff pub) (channel_ops cutoff pub ops c)"
  using assms unfolding channel_ops_def
proof (induction ops arbitrary: c)
  case (Cons op ops)
  have "channel_step cutoff pub c (channel_apply cutoff pub op c)"
    by (auto simp: channel_step_def)
  with Cons show ?case by (simp add: reach_step)
qed simp

lemma demo_channel_reach: "reach channel_init (channel_step cutoff pub) (demo_channel evict)"
  by (rule reach_init) (auto simp: demo_channel_def channel_init_def)

lemmas channel_eval = demo_channel_def demo_item_def demo_cfg_def channel_new_def
  set_stale_eviction_def set_hint_target_def queue_new_def channel_ops_def queue_push_def
  queue_pop_def queue_wake_def evict_stale_locked_def publish_hint_def notify_def consumer_after_def
  inside_window_def is_stale_def map_write_def Let_def word_less_nat_alt

theorem wake_safe_hints_witness:
  "bq_hints (ch_queue (channel_ops 0 map_write [Ch_pop 10, Ch_push 20 (demo_item 1 20),
     Ch_push 25 (demo_item 2 25)] (demo_channel False))) 77 = Some (item_hint demo_cfg (demo_item 1 20))"
proof -
  let ?c = "channel_ops 0 map_write [Ch_pop 10, Ch_push 20 (demo_item 1 20),
     Ch_push 25 (demo_item 2 25)] (demo_channel False)"
  have r: "reach channel_init (channel_step 0 map_write) ?c"
    by (rule ops_reach [OF demo_channel_reach])
  have rel: "reliable map_write (\<lambda>m. m)" by (simp add: reliable_def map_write_def)
  show ?thesis
    by (rule wake_safe_hints [OF rel r, where n = True and ws = "[demo_item 2 25]"])
      (simp_all add: channel_eval)
qed

text \<open>
  C19: Nothing pushed is lost, duplicated or reordered: what was popped, followed by what is queued, is a
  subsequence of what was pushed, and the difference is exactly what the queue counted as evicted;
  with eviction off, it is all of what was pushed.
\<close>

theorem queue_history:
  assumes "channel_run cutoff pub ops (channel_new t evict s) = (ins, outs, d)"
  shows "subseq (outs @ bq_q (ch_queue d)) ins \<and>
         vsize ins = vsize outs + vsize (bq_q (ch_queue d)) + bq_queue_evicted_stale (ch_queue d) \<and>
         (\<not> evict \<longrightarrow> outs @ bq_q (ch_queue d) = ins)"
proof (intro conjI impI)
  have init: "bq_q (ch_queue (channel_new t evict s)) = []"
    "bq_queue_evicted_stale (ch_queue (channel_new t evict s)) = 0"
    "bq_evict_stale (ch_queue (channel_new t evict s)) = evict"
    by (simp_all add: channel_new_def set_stale_eviction_def set_hint_target_def queue_new_def)
  show sub: "subseq (outs @ bq_q (ch_queue d)) ins" using run_subseq [OF assms] init by simp
  show "vsize ins = vsize outs + vsize (bq_q (ch_queue d)) + bq_queue_evicted_stale (ch_queue d)"
    using run_balance [OF assms] init by (simp add: balance_def ac_simps)
  assume "\<not> evict"
  with init have "length ins = length (outs @ bq_q (ch_queue d))"
    using run_evictions [OF _ assms] by simp
  with sub show "outs @ bq_q (ch_queue d) = ins" by (simp add: subseq_same_length)
qed

definition demo_run ::
  "work_item list \<times> work_item list \<times> (u64 \<Rightarrow> fresh_task_hint option) channel" where
  "demo_run = channel_run 0 map_write [Ch_push 20 (demo_item 1 20), Ch_pop 22,
     Ch_push 25 (demo_item 2 25)] (demo_channel False)"

theorem queue_history_witness:
  "fst (snd demo_run) @ bq_q (ch_queue (snd (snd demo_run))) = fst demo_run \<and>
   fst (snd demo_run) = [demo_item 1 20]"
proof -
  obtain ins outs d where r: "demo_run = (ins, outs, d)" by (metis prod_cases3)
  have "outs = [demo_item 1 20]"
    using r by (auto simp: demo_run_def channel_eval pushed_by_def popped_by_def)
  with queue_history [OF r [unfolded demo_run_def demo_channel_def]] show ?thesis
    unfolding r by simp
qed

text \<open>
  C20: No lost wake-up: whenever the queue is stopped or holds an item, a consumer asleep in \<open>pop\<close> has
  been notified, and on waking it leaves \<open>pop\<close> with an item or with the answer that the queue stopped;
  this does not depend on the hint map.
\<close>

theorem queue_no_lost_wakeup:
  assumes "reach channel_init (channel_step cutoff pub) c"
    and "ch_consumer c = Asleep n" and "bq_stop (ch_queue c) \<or> bq_q (ch_queue c) \<noteq> []"
  shows "n \<and> (\<forall>now. fst (queue_wake cutoff now pub (ch_queue c)) \<noteq> Pop_wait)"
proof -
  have "wake_inv c" by (rule wake_ups.reach_invar [OF assms(1)])
  with assms(2,3) have n by (auto simp: wake_inv_def)
  moreover have "fst (queue_wake cutoff now pub (ch_queue c)) \<noteq> Pop_wait" for now
    using assms(3) by (auto simp: queue_wake_def queue_pop_def Let_def)
  ultimately show ?thesis by blast
qed

theorem queue_no_lost_wakeup_witness:
  "fst (queue_wake 0 30 map_write
     (ch_queue (channel_ops 0 map_write [Ch_pop 10, Ch_stop] (demo_channel True)))) \<noteq> Pop_wait"
proof -
  let ?c = "channel_ops 0 map_write [Ch_pop 10, Ch_stop] (demo_channel True)"
  have r: "reach channel_init (channel_step 0 map_write) ?c"
    by (rule ops_reach [OF demo_channel_reach])
  have a: "ch_consumer ?c = Asleep True" "bq_stop (ch_queue ?c) \<or> bq_q (ch_queue ?c) \<noteq> []"
    by (simp_all add: channel_eval queue_stop_def)
  show ?thesis using queue_no_lost_wakeup [OF r a] by blast
qed

text \<open>
  The window counters of a queue are exact: whatever happened before the cutoff and whatever
  happens after it, \<open>pending()\<close> is the number of items that were in the queue at the cutoff, and the
  subtraction never goes below zero.
\<close>

theorem window_pending_at_cutoff:
  assumes "\<forall>op \<in> set before. op_inside cutoff op" and "\<forall>op \<in> set after. op_outside cutoff op"
    and "c = channel_ops cutoff pub before (channel_new t evict s)"
    and "length (bq_q (ch_queue c)) < 18446744073709551616"
  shows "unat (window_pending (bq_window (ch_queue (channel_ops cutoff pub after c)))) =
         length (bq_q (ch_queue c))"
proof -
  have "window_exact (channel_new t evict s)"
    by (simp add: window_exact_def window_pending_def channel_new_def set_stale_eviction_def
      set_hint_target_def queue_new_def)
  then have "window_exact c" using ops_inside assms(1,3) by blast
  then have "window_pending (bq_window (ch_queue c)) = vsize (bq_q (ch_queue c))"
    by (simp add: window_exact_def)
  then show ?thesis
    using ops_outside [OF assms(2), of pub c] assms(4) by (simp add: vsize_def unat_of_nat_u64)
qed

theorem window_pending_at_cutoff_witness:
  "unat (window_pending (bq_window (ch_queue (channel_ops 100 map_write [Ch_pop 120]
     (channel_ops 100 map_write [Ch_push 20 (demo_item 1 20), Ch_push 90 (demo_item 2 25)]
       (demo_channel True)))))) = 1"
proof -
  let ?b = "[Ch_push 20 (demo_item 1 20), Ch_push 90 (demo_item 2 25)]"
  have b: "\<forall>op \<in> set ?b. op_inside 100 op" "\<forall>op \<in> set [Ch_pop 120]. op_outside 100 op"
    by (simp_all add: inside_window_def word_less_nat_alt)
  have l: "length (bq_q (ch_queue (channel_ops 100 map_write ?b (demo_channel True)))) = 1"
    by (simp add: channel_eval)
  show ?thesis
    using window_pending_at_cutoff [OF b, of _ map_write] l unfolding demo_channel_def by simp
qed

end
