(* ===== verification/Pipeline_Stages.thy ===== *)
theory Pipeline_Stages
  imports Blocking_Queue
begin

text \<open>
  The stages of \<^verbatim>\<open>src/demo/slam_pipeline_demo.cpp\<close>: measured work, the body of \<open>stage_worker\<close>, the
  periodic \<open>imu_thread\<close>, the camera generator with its synthetic burst, and the numbers that
  \<open>print_window_stage\<close> and \<open>print_focus_job\<close> report. Clock readings are arguments; a loop that reads
  a clock consumes a list of readings and answers \<open>None\<close> if they end before it does.
\<close>

section \<open>Work\<close>

fun busy_loop :: "u64 \<Rightarrow> u64 \<Rightarrow> u64 list \<Rightarrow> u64 list option" where
  "busy_loop start dur [] = None"
| "busy_loop start dur (c # cs) = (if c - start < dur then busy_loop start dur cs else Some cs)"

text \<open>\<open>busy_work_us\<close>: what is left of the readings.\<close>

definition busy_work_us :: "u64 \<Rightarrow> u64 list \<Rightarrow> u64 list option" where
  "busy_work_us us cs = (case cs of [] \<Rightarrow> None | start # cs' \<Rightarrow> busy_loop start (us * 1000) cs')"

text \<open>
  The sampling loop of \<open>measured_work_us\<close>: each reading is a wall time before, the CPU clock, a wall
  time after; once the bounds are closed the wall clock is not read, and \<open>sample\<close> would ignore it.
\<close>

fun measure_loop ::
  "u64 \<Rightarrow> u64 \<Rightarrow> (u64 \<times> u64 \<times> u64) list \<Rightarrow> cpu_window_bounds \<Rightarrow> (u64 \<times> cpu_window_bounds) option" where
  "measure_loop start dur [] b = None"
| "measure_loop start dur ((before, cpu, after) # rs) b =
     (let elapsed = cpu - start;
          b1 = (if \<not> cw_closed b then window_sample elapsed before after b else b)
      in if elapsed < dur then measure_loop start dur rs b1 else Some (elapsed, b1))"

datatype work_readings =
    Plain "u64 list"
  | Bracketed "u64 \<times> u64 \<times> u64" "(u64 \<times> u64 \<times> u64) list"

definition measured_work_us ::
  "u64 \<Rightarrow> u64 \<Rightarrow> work_readings \<Rightarrow> window_stage_stats \<Rightarrow> (u64 \<times> window_stage_stats) option" where
  "measured_work_us cutoff us rs window =
     (if cutoff = 0 then
        (case rs of
           Plain (start # cs) \<Rightarrow>
             (case busy_work_us us cs of Some (fin # _) \<Rightarrow> Some (fin - start, window) | _ \<Rightarrow> None)
         | _ \<Rightarrow> None)
      else
        (case rs of
           Bracketed (before, start, after) samples \<Rightarrow>
             (case measure_loop start (us * 1000) samples
                     (window_sample 0 before after (cpu_window cutoff)) of
                None \<Rightarrow> None
              | Some (elapsed, b) \<Rightarrow>
                  (let b1 = window_finish elapsed b
                   in Some (elapsed, window\<lparr>ws_cpu_ns := ws_cpu_ns window + cw_lower_ns b1,
                        ws_cpu_uncertainty_ns := ws_cpu_uncertainty_ns window +
                          (cw_upper_ns b1 - cw_lower_ns b1)\<rparr>)))
         | _ \<Rightarrow> None))"

section \<open>Stage statistics\<close>

record stage_stats =
  st_processed :: u64
  st_late :: u64
  st_cpu_ns :: u64
  st_stale_seen :: u64
  st_dropped_stale :: u64
  st_queue_evicted_stale :: u64
  st_burst_processed :: u64
  st_burst_latest_seq :: u64
  st_burst_latest_age_ns :: u64
  st_focus_job :: u64
  st_focus_release_ns :: u64
  st_focus_completion_ns :: u64
  st_window :: window_stage_stats
  st_actual_policy :: int

definition stats_zero :: stage_stats where
  "stats_zero = \<lparr>st_processed = 0, st_late = 0, st_cpu_ns = 0, st_stale_seen = 0,
     st_dropped_stale = 0, st_queue_evicted_stale = 0, st_burst_processed = 0,
     st_burst_latest_seq = 0, st_burst_latest_age_ns = 0, st_focus_job = 0, st_focus_release_ns = 0,
     st_focus_completion_ns = 0,
     st_window = \<lparr>ws_started = 0, ws_completed = 0, ws_late = 0, ws_stale_seen = 0,
       ws_dropped_stale = 0, ws_cpu_ns = 0, ws_cpu_uncertainty_ns = 0\<rparr>,
     st_actual_policy = -1\<rparr>"

definition stale_seen_total :: "stage_stats \<Rightarrow> u64" where
  "stale_seen_total st = st_stale_seen st + st_queue_evicted_stale st"

definition dropped_stale_total :: "stage_stats \<Rightarrow> u64" where
  "dropped_stale_total st = st_dropped_stale st + st_queue_evicted_stale st"

text \<open>\<open>b2w\<close>: a condition added to a counter.\<close>

definition b2w :: "bool \<Rightarrow> u64" where
  "b2w p = (if p then 1 else 0)"

section \<open>One item through a stage\<close>

text \<open>Up to the drop (lines 397 to 415): whether the item was dropped, and the counters.\<close>

definition stage_admit ::
  "u64 \<Rightarrow> stage_cfg \<Rightarrow> bool \<Rightarrow> u64 \<Rightarrow> work_item \<Rightarrow> stage_stats \<Rightarrow> bool \<times> stage_stats" where
  "stage_admit cutoff cfg drop_stale t0 w st =
     (let stale = is_stale t0 w cfg;
          win = st_window st;
          inw = inside_window cutoff t0;
          win1 = (if inw then win\<lparr>ws_started := ws_started win + 1,
                                ws_stale_seen := ws_stale_seen win + b2w stale\<rparr> else win);
          st1 = st\<lparr>st_window := win1, st_stale_seen := st_stale_seen st + b2w stale\<rparr>
      in if stale \<and> drop_stale then
           (True, st1\<lparr>st_dropped_stale := st_dropped_stale st + 1,
                     st_window := (if inw
                       then win1\<lparr>ws_dropped_stale := ws_dropped_stale win1 + 1\<rparr> else win1)\<rparr>)
         else (False, st1))"

text \<open>From the completion time on (lines 422 to 442).\<close>

definition stage_complete ::
  "u64 \<Rightarrow> stage_cfg \<Rightarrow> u64 \<Rightarrow> work_item \<Rightarrow> stage_stats \<Rightarrow> stage_stats" where
  "stage_complete cutoff cfg t1 w st =
     (let dl = deadline_abs w cfg;
          late = (dl \<noteq> 0 \<and> t1 > dl);
          win = st_window st;
          st1 = st\<lparr>st_processed := st_processed st + 1,
                  st_late := st_late st + b2w late,
                  st_window := (if inside_window cutoff t1
                    then win\<lparr>ws_completed := ws_completed win + 1, ws_late := ws_late win + b2w late\<rparr>
                    else win)\<rparr>;
          st2 = (if wi_seq w = 4
                 then st1\<lparr>st_focus_job := wi_seq w, st_focus_release_ns := wi_ts_ns w,
                         st_focus_completion_ns := t1\<rparr>
                 else st1)
      in if wi_burst_id w \<noteq> 0
         then st2\<lparr>st_burst_processed := st_burst_processed st2 + 1, st_burst_latest_seq := wi_seq w,
                 st_burst_latest_age_ns := (if t1 > wi_ts_ns w then t1 - wi_ts_ns w else 0)\<rparr>
         else st2)"

text \<open>
  The readings one item consumes: the time after \<open>pop\<close>, the work readings and the completion time.
  The result says whether the item is passed on to the next queue.
\<close>

record item_env =
  ie_t0 :: u64
  ie_work_us :: u64
  ie_readings :: work_readings
  ie_t1 :: u64

definition stage_item ::
  "u64 \<Rightarrow> stage_cfg \<Rightarrow> bool \<Rightarrow> item_env \<Rightarrow> work_item \<Rightarrow> stage_stats \<Rightarrow> (bool \<times> stage_stats) option" where
  "stage_item cutoff cfg drop_stale env w st =
     (case stage_admit cutoff cfg drop_stale (ie_t0 env) w st of
        (True, st1) \<Rightarrow> Some (False, st1)
      | (False, st1) \<Rightarrow>
          (case (if ie_work_us env = 0 then Some (0, st_window st1)
                 else measured_work_us cutoff (ie_work_us env) (ie_readings env) (st_window st1)) of
             None \<Rightarrow> None
           | Some (used, win) \<Rightarrow>
               Some (True, stage_complete cutoff cfg (ie_t1 env) w
                 (st1\<lparr>st_cpu_ns := st_cpu_ns st1 + used, st_window := win\<rparr>))))"

text \<open>A run of the loop over the items popped, with the items passed on.\<close>

fun stage_run ::
  "u64 \<Rightarrow> stage_cfg \<Rightarrow> bool \<Rightarrow> (item_env \<times> work_item) list \<Rightarrow> stage_stats \<Rightarrow>
   (work_item list \<times> stage_stats) option" where
  "stage_run cutoff cfg drop_stale [] st = Some ([], st)"
| "stage_run cutoff cfg drop_stale ((env, w) # items) st =
     (case stage_item cutoff cfg drop_stale env w st of
        None \<Rightarrow> None
      | Some (pass, st1) \<Rightarrow>
          (case stage_run cutoff cfg drop_stale items st1 of
             None \<Rightarrow> None
           | Some (outs, st2) \<Rightarrow> Some (if pass then w # outs else outs, st2)))"

section \<open>A stage thread\<close>

text \<open>
  The loop of \<open>stage_worker\<close> against its input queue. \<open>Others\<close> is a call by another thread, \<open>Turn\<close> a
  pop (or the wake-up from one) at the given time followed by the body when an item was taken,
  \<open>Quit\<close> the loop test seeing \<open>running\<close> cleared. The result lists the items popped, with the time of
  the pop and the readings, and the items pushed to the next queue.
\<close>

datatype stage_event = Others channel_op | Turn u64 item_env | Quit

type_synonym stage_log = "(u64 \<times> item_env \<times> work_item) list"

definition turn_op :: "u64 \<Rightarrow> 's channel \<Rightarrow> channel_op" where
  "turn_op now c = (case ch_consumer c of Asleep _ \<Rightarrow> Ch_wake now | _ \<Rightarrow> Ch_pop now)"

fun by_producer :: "channel_op \<Rightarrow> bool" where
  "by_producer (Ch_push now v) = True"
| "by_producer Ch_stop = True"
| "by_producer _ = False"

fun stage_thread ::
  "u64 \<Rightarrow> stage_cfg \<Rightarrow> bool \<Rightarrow> 's publisher \<Rightarrow> stage_event list \<Rightarrow> 's channel \<Rightarrow> stage_stats \<Rightarrow>
   (stage_log \<times> work_item list \<times> 's channel \<times> stage_stats) option" where
  "stage_thread cutoff cfg drop_stale pub [] c st = Some ([], [], c, st)"
| "stage_thread cutoff cfg drop_stale pub (Others op # evs) c st =
     stage_thread cutoff cfg drop_stale pub evs
       (if by_producer op then channel_apply cutoff pub op c else c) st"
| "stage_thread cutoff cfg drop_stale pub (Turn now env # evs) c st =
     (let op = turn_op now c; c1 = channel_apply cutoff pub op c
      in case popped_by cutoff pub op c of
           [] \<Rightarrow> stage_thread cutoff cfg drop_stale pub evs c1 st
         | w # _ \<Rightarrow>
             (case stage_item cutoff cfg drop_stale env w st of
                None \<Rightarrow> None
              | Some (pass, st1) \<Rightarrow>
                  (case stage_thread cutoff cfg drop_stale pub evs c1 st1 of
                     None \<Rightarrow> None
                   | Some (lg, outs, d, st2) \<Rightarrow>
                       Some ((now, env, w) # lg, if pass then w # outs else outs, d, st2))))"
| "stage_thread cutoff cfg drop_stale pub (Quit # evs) c st =
     stage_thread cutoff cfg drop_stale pub evs
       (case ch_consumer c of Outside _ \<Rightarrow> c\<lparr>ch_consumer := Left\<rparr> | _ \<Rightarrow> c) st"

section \<open>Reports\<close>

record window_report =
  wr_offered :: u64
  wr_completed :: u64
  wr_late :: u64
  wr_stale_seen :: u64
  wr_dropped_stale :: u64
  wr_pending :: u64
  wr_in_flight :: u64
  wr_cpu_ns :: u64
  wr_drain_completed :: u64
  wr_drain_late :: u64
  wr_drain_cpu_ns :: u64

definition print_window_stage :: "stage_stats \<Rightarrow> window_queue_stats \<Rightarrow> window_report" where
  "print_window_stage st queue =
     (let w = st_window st
      in \<lparr>wr_offered = wq_offered queue, wr_completed = ws_completed w, wr_late = ws_late w,
          wr_stale_seen = ws_stale_seen w + wq_evicted queue,
          wr_dropped_stale = ws_dropped_stale w + wq_evicted queue,
          wr_pending = window_pending queue,
          wr_in_flight = wq_dequeued queue - ws_completed w - ws_dropped_stale w,
          wr_cpu_ns = ws_cpu_ns w,
          wr_drain_completed = st_processed st - ws_completed w,
          wr_drain_late = st_late st - ws_late w,
          wr_drain_cpu_ns = st_cpu_ns st - ws_cpu_ns w\<rparr>)"

text \<open>\<open>print_focus_job\<close>: age and lateness, if the job was seen.\<close>

definition print_focus_job :: "stage_stats \<Rightarrow> stage_cfg \<Rightarrow> (u64 \<times> bool) option" where
  "print_focus_job st cfg =
     (if st_focus_job st \<noteq> 4 \<or> st_focus_completion_ns st = 0 then None
      else
        (let age = st_focus_completion_ns st - st_focus_release_ns st
         in Some (age, sc_deadline_rel_ns cfg \<noteq> 0 \<and> age > sc_deadline_rel_ns cfg)))"

section \<open>Lemmas\<close>

text \<open>How many elements of a list have a property, as a counter has it.\<close>

definition countw :: "('a \<Rightarrow> bool) \<Rightarrow> 'a list \<Rightarrow> u64" where
  "countw P xs = vsize (filter P xs)"

lemma countw_simps [simp]:
  "countw P [] = 0" "countw P (x # xs) = b2w (P x) + countw P xs"
  by (simp_all add: countw_def b2w_def)

lemma unat_countw:
  assumes "length xs < 18446744073709551616"
  shows "unat (countw P xs) = length (filter P xs)"
proof -
  have "length (filter P xs) < 18446744073709551616"
    using assms length_filter_le [of P xs] by linarith
  then show ?thesis by (simp add: countw_def vsize_def unat_of_nat_u64)
qed

lemma countw_minus:
  assumes "\<And>x. x \<in> set xs \<Longrightarrow> Q x \<Longrightarrow> P x"
  shows "countw P xs - countw Q xs = countw (\<lambda>x. P x \<and> \<not> Q x) xs"
  using assms by (induction xs) (auto simp: b2w_def algebra_simps)

lemma countw_map: "countw P (map f xs) = countw (\<lambda>x. P (f x)) xs"
  by (induction xs) simp_all

lemma countw_add: "countw P xs + countw (\<lambda>x. \<not> P x) xs = vsize xs"
  by (induction xs) (simp_all add: b2w_def algebra_simps)

definition item_dropped :: "stage_cfg \<Rightarrow> bool \<Rightarrow> item_env \<times> work_item \<Rightarrow> bool" where
  "item_dropped cfg drop_stale i \<longleftrightarrow> drop_stale \<and> is_stale (ie_t0 (fst i)) (snd i) cfg"

definition item_late :: "stage_cfg \<Rightarrow> item_env \<times> work_item \<Rightarrow> bool" where
  "item_late cfg i \<longleftrightarrow> deadline_abs (snd i) cfg \<noteq> 0 \<and> deadline_abs (snd i) cfg < ie_t1 (fst i)"

text \<open>Work changes nothing but the CPU counters.\<close>

lemma measured_work_window:
  assumes "measured_work_us cutoff us rs win = Some (used, win')"
  shows "ws_started win' = ws_started win" "ws_completed win' = ws_completed win"
    "ws_late win' = ws_late win" "ws_stale_seen win' = ws_stale_seen win"
    "ws_dropped_stale win' = ws_dropped_stale win"
  using assms
  by (auto simp: measured_work_us_def Let_def split: if_splits work_readings.splits list.splits option.splits)

lemma stage_complete_counters:
  "st_processed (stage_complete cutoff cfg t1 w st) = st_processed st + 1"
  "st_dropped_stale (stage_complete cutoff cfg t1 w st) = st_dropped_stale st"
  "st_stale_seen (stage_complete cutoff cfg t1 w st) = st_stale_seen st"
  "st_late (stage_complete cutoff cfg t1 w st) =
     st_late st + b2w (deadline_abs w cfg \<noteq> 0 \<and> deadline_abs w cfg < t1)"
  "st_cpu_ns (stage_complete cutoff cfg t1 w st) = st_cpu_ns st"
  "st_window (stage_complete cutoff cfg t1 w st) =
     (st_window st)\<lparr>ws_completed := ws_completed (st_window st) + b2w (inside_window cutoff t1),
       ws_late := ws_late (st_window st) +
         b2w (inside_window cutoff t1 \<and> deadline_abs w cfg \<noteq> 0 \<and> deadline_abs w cfg < t1)\<rparr>"
  by (simp_all add: stage_complete_def Let_def b2w_def)

lemma stage_admit_counters:
  assumes "stage_admit cutoff cfg drop_stale (ie_t0 env) w st = (dropped, st1)"
  shows "dropped = item_dropped cfg drop_stale (env, w)"
    "st_processed st1 = st_processed st" "st_late st1 = st_late st" "st_cpu_ns st1 = st_cpu_ns st"
    "st_stale_seen st1 = st_stale_seen st + b2w (is_stale (ie_t0 env) w cfg)"
    "st_dropped_stale st1 = st_dropped_stale st + b2w dropped"
    "ws_started (st_window st1) = ws_started (st_window st) + b2w (inside_window cutoff (ie_t0 env))"
    "ws_completed (st_window st1) = ws_completed (st_window st)"
    "ws_late (st_window st1) = ws_late (st_window st)"
    "ws_cpu_ns (st_window st1) = ws_cpu_ns (st_window st)"
    "ws_dropped_stale (st_window st1) = ws_dropped_stale (st_window st) +
       b2w (dropped \<and> inside_window cutoff (ie_t0 env))"
proof -
  have st1: "st1 = snd (stage_admit cutoff cfg drop_stale (ie_t0 env) w st)"
    and d: "dropped = fst (stage_admit cutoff cfg drop_stale (ie_t0 env) w st)"
    using assms by simp_all
  show eq: "dropped = item_dropped cfg drop_stale (env, w)"
    unfolding d by (auto simp: stage_admit_def item_dropped_def Let_def)
  show "st_processed st1 = st_processed st" "st_late st1 = st_late st" "st_cpu_ns st1 = st_cpu_ns st"
    "st_stale_seen st1 = st_stale_seen st + b2w (is_stale (ie_t0 env) w cfg)"
    "st_dropped_stale st1 = st_dropped_stale st + b2w dropped"
    "ws_started (st_window st1) = ws_started (st_window st) + b2w (inside_window cutoff (ie_t0 env))"
    "ws_completed (st_window st1) = ws_completed (st_window st)"
    "ws_late (st_window st1) = ws_late (st_window st)"
    "ws_cpu_ns (st_window st1) = ws_cpu_ns (st_window st)"
    "ws_dropped_stale (st_window st1) = ws_dropped_stale (st_window st) +
       b2w (dropped \<and> inside_window cutoff (ie_t0 env))"
    unfolding st1 eq by (simp_all add: stage_admit_def item_dropped_def Let_def b2w_def)
qed

text \<open>An item is dropped, or it is worked on and completed.\<close>

lemma stage_item_cases:
  assumes "stage_item cutoff cfg drop_stale env w st = Some (pass, st')"
  obtains (dropped) "\<not> pass" "item_dropped cfg drop_stale (env, w)"
      "stage_admit cutoff cfg drop_stale (ie_t0 env) w st = (True, st')"
  | (completed) used win st1 where "pass" "\<not> item_dropped cfg drop_stale (env, w)"
      "stage_admit cutoff cfg drop_stale (ie_t0 env) w st = (False, st1)"
      "(if ie_work_us env = 0 then Some (0, st_window st1)
        else measured_work_us cutoff (ie_work_us env) (ie_readings env) (st_window st1)) = Some (used, win)"
      "st' = stage_complete cutoff cfg (ie_t1 env) w
         (st1\<lparr>st_cpu_ns := st_cpu_ns st1 + used, st_window := win\<rparr>)"
proof -
  obtain dr st1 where a: "stage_admit cutoff cfg drop_stale (ie_t0 env) w st = (dr, st1)" by fastforce
  show thesis
  proof (cases dr)
    case True
    with assms a stage_admit_counters(1) [OF a] show thesis
      by (intro dropped) (simp_all add: stage_item_def)
  next
    case False
    with assms a obtain used win where
      m: "(if ie_work_us env = 0 then Some (0, st_window st1)
           else measured_work_us cutoff (ie_work_us env) (ie_readings env) (st_window st1)) = Some (used, win)"
      by (simp add: stage_item_def split: option.splits prod.splits)
    from False assms a stage_admit_counters(1) [OF a] m show thesis
      by (intro completed [of st1 used win]) (simp_all add: stage_item_def)
  qed
qed

text \<open>One item, counter by counter.\<close>

lemma stage_item_counters:
  assumes "stage_item cutoff cfg drop_stale env w st = Some (pass, st')"
  shows "pass = (\<not> item_dropped cfg drop_stale (env, w)) \<and>
    st_processed st' = st_processed st + b2w pass \<and>
    st_dropped_stale st' = st_dropped_stale st + b2w (\<not> pass) \<and>
    st_late st' = st_late st + b2w (pass \<and> item_late cfg (env, w)) \<and>
    st_stale_seen st' = st_stale_seen st + b2w (is_stale (ie_t0 env) w cfg) \<and>
    ws_completed (st_window st') = ws_completed (st_window st) +
       b2w (pass \<and> inside_window cutoff (ie_t1 env)) \<and>
    ws_dropped_stale (st_window st') = ws_dropped_stale (st_window st) +
       b2w (\<not> pass \<and> inside_window cutoff (ie_t0 env)) \<and>
    ws_late (st_window st') = ws_late (st_window st) +
       b2w (pass \<and> inside_window cutoff (ie_t1 env) \<and> item_late cfg (env, w))"
  using assms
proof (cases rule: stage_item_cases)
  case dropped
  then show ?thesis using stage_admit_counters [OF dropped(3)] by (simp add: b2w_def)
next
  case (completed used win st1)
  have "ws_completed win = ws_completed (st_window st1)" "ws_late win = ws_late (st_window st1)"
    "ws_dropped_stale win = ws_dropped_stale (st_window st1)"
    using completed(4) measured_work_window by (auto split: if_splits)
  with completed show ?thesis using stage_admit_counters [OF completed(3)]
    by (simp add: stage_complete_counters item_late_def b2w_def)
qed

text \<open>A run of the body, counter by counter: what is passed on and every counter is decided item by item.\<close>

lemma stage_run_Cons:
  assumes "stage_run cutoff cfg drop_stale ((env, w) # items) st = Some (outs, st')"
  obtains pass st1 outs1 where "stage_item cutoff cfg drop_stale env w st = Some (pass, st1)"
    "stage_run cutoff cfg drop_stale items st1 = Some (outs1, st')"
    "outs = (if pass then w # outs1 else outs1)"
  using assms by (auto split: option.splits prod.splits)

lemma stage_run_counters:
  "stage_run cutoff cfg drop_stale items st = Some (outs, st') \<Longrightarrow>
   outs = map snd (filter (\<lambda>i. \<not> item_dropped cfg drop_stale i) items) \<and>
   st_processed st' = st_processed st + countw (\<lambda>i. \<not> item_dropped cfg drop_stale i) items \<and>
   st_dropped_stale st' = st_dropped_stale st + countw (item_dropped cfg drop_stale) items \<and>
   st_late st' = st_late st + countw (\<lambda>i. \<not> item_dropped cfg drop_stale i \<and> item_late cfg i) items \<and>
   st_stale_seen st' = st_stale_seen st + countw (\<lambda>i. is_stale (ie_t0 (fst i)) (snd i) cfg) items \<and>
   ws_completed (st_window st') = ws_completed (st_window st) +
     countw (\<lambda>i. \<not> item_dropped cfg drop_stale i \<and> inside_window cutoff (ie_t1 (fst i))) items \<and>
   ws_dropped_stale (st_window st') = ws_dropped_stale (st_window st) +
     countw (\<lambda>i. item_dropped cfg drop_stale i \<and> inside_window cutoff (ie_t0 (fst i))) items \<and>
   ws_late (st_window st') = ws_late (st_window st) +
     countw (\<lambda>i. \<not> item_dropped cfg drop_stale i \<and> inside_window cutoff (ie_t1 (fst i)) \<and>
       item_late cfg i) items"
proof (induction items arbitrary: st outs)
  case (Cons i items)
  obtain env w where i: "i = (env, w)" by fastforce
  from Cons.prems [unfolded i] show ?case
  proof (cases rule: stage_run_Cons)
    case (1 pass st1 outs1)
    from stage_item_counters [OF 1(1)] Cons.IH [OF 1(2)] 1(3) show ?thesis
      by (simp add: i add.assoc)
  qed
qed simp

subsection \<open>The thread\<close>

text \<open>A turn of the consumer pops at most one item, and counts it when the pop is in the window.\<close>

lemma turn_dequeued:
  "wq_dequeued (bq_window (ch_queue (channel_apply cutoff pub (turn_op now c) c))) =
     wq_dequeued (bq_window (ch_queue c)) +
     (if popped_by cutoff pub (turn_op now c) c = [] then 0 else b2w (inside_window cutoff now))"
proof (cases "ch_consumer c")
  case (Outside w)
  then show ?thesis
    by (cases rule: pop_cases [of "ch_queue c" cutoff now pub])
      (simp_all add: turn_op_def popped_by_def split_beta consumer_after_def b2w_def)
next
  case (Asleep n)
  then show ?thesis
    by (cases rule: pop_cases [of "(ch_queue c)\<lparr>bq_waiting := False\<rparr>" cutoff now pub])
      (simp_all add: turn_op_def popped_by_def split_beta queue_wake_def consumer_after_def b2w_def)
next
  case Left
  then show ?thesis by (simp add: turn_op_def popped_by_def)
qed

lemma producer_dequeued:
  "by_producer op \<Longrightarrow>
   wq_dequeued (bq_window (ch_queue (channel_apply cutoff pub op c))) = wq_dequeued (bq_window (ch_queue c))"
  by (cases op) (simp_all add: push_fields queue_stop_def)

lemma popped_single: "popped_by cutoff pub op c = w # ws \<Longrightarrow> ws = []"
  by (auto simp: popped_by_def split: channel_op.splits consumer.splits option.splits)

lemma turn_not_push: "pushed_by (turn_op now c) = []"
  by (simp add: turn_op_def pushed_by_def split: consumer.splits)

definition event_pushes :: "stage_event list \<Rightarrow> work_item list" where
  "event_pushes evs = concat (map (\<lambda>ev. case ev of Others op \<Rightarrow> pushed_by op | _ \<Rightarrow> []) evs)"

lemma event_pushes_Cons:
  "event_pushes (Others op # evs) = pushed_by op @ event_pushes evs"
  "event_pushes (Turn now env # evs) = event_pushes evs" "event_pushes (Quit # evs) = event_pushes evs"
  by (simp_all add: event_pushes_def)

definition items_of :: "stage_log \<Rightarrow> work_item list" where
  "items_of lg = map (\<lambda>(now, env, w). w) lg"

text \<open>The thread is the body run over the items popped; pops are counted; order is kept.\<close>

lemma stage_thread_Turn:
  assumes "stage_thread cutoff cfg drop_stale pub (Turn now env # evs) c st = Some (lg, outs, d, st')"
  obtains (none) "popped_by cutoff pub (turn_op now c) c = []"
      "stage_thread cutoff cfg drop_stale pub evs (channel_apply cutoff pub (turn_op now c) c) st =
         Some (lg, outs, d, st')"
  | (item) w pass st1 lg1 outs1 where "popped_by cutoff pub (turn_op now c) c = [w]"
      "stage_item cutoff cfg drop_stale env w st = Some (pass, st1)"
      "stage_thread cutoff cfg drop_stale pub evs (channel_apply cutoff pub (turn_op now c) c) st1 =
         Some (lg1, outs1, d, st')"
      "lg = (now, env, w) # lg1" "outs = (if pass then w # outs1 else outs1)"
proof (cases "popped_by cutoff pub (turn_op now c) c")
  case Nil
  with assms show thesis by (intro none) (simp_all add: Let_def)
next
  case (Cons w ws)
  with assms that popped_single [OF Cons] show thesis
    by (auto simp: Let_def split: option.splits prod.splits)
qed

lemma stage_thread_run:
  "stage_thread cutoff cfg drop_stale pub evs c st = Some (lg, outs, d, st') \<Longrightarrow>
   stage_run cutoff cfg drop_stale (map snd lg) st = Some (outs, st') \<and>
   wq_dequeued (bq_window (ch_queue d)) =
     wq_dequeued (bq_window (ch_queue c)) + countw (\<lambda>(now, _). inside_window cutoff now) lg"
proof (induction evs arbitrary: c st lg outs)
  case (Cons ev evs)
  show ?case
  proof (cases ev)
    case (Others op)
    with Cons.prems Cons.IH producer_dequeued show ?thesis by (force split: if_splits)
  next
    case (Turn now env)
    from Cons.prems [unfolded Turn] show ?thesis
    proof (cases rule: stage_thread_Turn)
      case none
      from Cons.IH [OF none(2)] show ?thesis by (simp add: turn_dequeued none(1))
    next
      case (item w pass st1 lg1 outs1)
      from Cons.IH [OF item(3)] item(1,2,4,5) show ?thesis by (simp add: turn_dequeued add.assoc)
    qed
  next
    case Quit
    with Cons.prems Cons.IH show ?thesis by (force split: consumer.splits)
  qed
qed simp

lemma stage_thread_order:
  "stage_thread cutoff cfg drop_stale pub evs c st = Some (lg, outs, d, st') \<Longrightarrow>
   subseq (items_of lg @ bq_q (ch_queue d)) (bq_q (ch_queue c) @ event_pushes evs)"
proof (induction evs arbitrary: c st lg outs)
  case Nil
  then show ?case by (simp add: items_of_def event_pushes_def)
next
  case (Cons ev evs)
  show ?case
  proof (cases ev)
    case (Others op)
    let ?c = "if by_producer op then channel_apply cutoff pub op c else c"
    have "subseq (bq_q (ch_queue ?c)) (bq_q (ch_queue c) @ pushed_by op)"
      using apply_items [of cutoff pub op c]
      by (cases op) (auto simp: popped_by_def pushed_by_def)
    then have "subseq (bq_q (ch_queue ?c) @ event_pushes evs)
        ((bq_q (ch_queue c) @ pushed_by op) @ event_pushes evs)"
      by (rule list_emb_append_mono) simp
    moreover have "subseq (items_of lg @ bq_q (ch_queue d)) (bq_q (ch_queue ?c) @ event_pushes evs)"
      using Cons.prems Cons.IH Others by simp
    ultimately show ?thesis by (simp add: Others event_pushes_Cons subseq_order.order_trans)
  next
    case (Turn now env)
    let ?c = "channel_apply cutoff pub (turn_op now c) c"
    have step: "subseq (popped_by cutoff pub (turn_op now c) c @ bq_q (ch_queue ?c)) (bq_q (ch_queue c))"
      using apply_items [of cutoff pub "turn_op now c" c] by (simp add: turn_not_push)
    have more: "subseq ((popped_by cutoff pub (turn_op now c) c @ bq_q (ch_queue ?c)) @ event_pushes evs)
        (bq_q (ch_queue c) @ event_pushes evs)"
      by (rule list_emb_append_mono [OF step]) simp
    from Cons.prems [unfolded Turn] show ?thesis
    proof (cases rule: stage_thread_Turn)
      case none
      from subseq_order.order_trans [OF Cons.IH [OF none(2)]] more none(1) show ?thesis
        by (simp add: Turn event_pushes_Cons)
    next
      case (item w pass st1 lg1 outs1)
      have "subseq (w # items_of lg1 @ bq_q (ch_queue d)) (w # bq_q (ch_queue ?c) @ event_pushes evs)"
        using Cons.IH [OF item(3)] by simp
      from subseq_order.order_trans [OF this] more item(1,4) show ?thesis
        by (simp add: Turn event_pushes_Cons items_of_def)
    qed
  next
    case Quit
    let ?c = "case ch_consumer c of Outside _ \<Rightarrow> c\<lparr>ch_consumer := Left\<rparr> | _ \<Rightarrow> c"
    have "bq_q (ch_queue ?c) = bq_q (ch_queue c)" by (simp split: consumer.splits)
    with Cons.prems Cons.IH [of ?c] show ?thesis by (simp add: Quit event_pushes_Cons)
  qed
qed

subsection \<open>Measured work\<close>

definition samples_of :: "u64 \<Rightarrow> (u64 \<times> u64 \<times> u64) list \<Rightarrow> (u64 \<times> u64 \<times> u64) list" where
  "samples_of start rs = map (\<lambda>(before, cpu, after). (cpu - start, before, after)) rs"

text \<open>The loop stops at the first reading that reaches the duration, having sampled up to there.\<close>

lemma measure_loop_spec:
  "(\<exists>r \<in> set rs. dur \<le> fst (snd r) - start) \<Longrightarrow>
   \<exists>elapsed k. measure_loop start dur rs b =
     Some (elapsed, fold take_sample (samples_of start (take k rs)) b) \<and> dur \<le> elapsed"
proof (induction rs arbitrary: b)
  case (Cons r rs)
  obtain before cpu after where r: "r = (before, cpu, after)" by (cases r)
  let ?b = "take_sample (cpu - start, before, after) b"
  have b1: "(if \<not> cw_closed b then window_sample (cpu - start) before after b else b) = ?b"
    by (simp add: take_sample_def window_sample_def)
  show ?case
  proof (cases "cpu - start < dur")
    case True
    with Cons.prems have "\<exists>r \<in> set rs. dur \<le> fst (snd r) - start" by (auto simp: r)
    from Cons.IH [OF this, of ?b] obtain elapsed k where
      "measure_loop start dur rs ?b = Some (elapsed, fold take_sample (samples_of start (take k rs)) ?b)"
      "dur \<le> elapsed" by blast
    with True show ?thesis
      by (intro exI [of _ elapsed] exI [of _ "Suc k"]) (simp add: r b1 Let_def samples_of_def)
  next
    case False
    then show ?thesis
      by (intro exI [of _ "cpu - start"] exI [of _ 1]) (simp add: r b1 Let_def samples_of_def)
  qed
qed simp

subsection \<open>CPU time inside the window\<close>

text \<open>The readings of the CPU clock of one job, in the order they are made.\<close>

definition cpu_readings :: "work_readings \<Rightarrow> u64 list" where
  "cpu_readings rs = (case rs of Plain cs \<Rightarrow> cs | Bracketed first samples \<Rightarrow> map (fst \<circ> snd) (first # samples))"

text \<open>The CPU time that \<open>stage_worker\<close> adds for an item.\<close>

definition item_cpu :: "u64 \<Rightarrow> stage_cfg \<Rightarrow> bool \<Rightarrow> item_env \<times> work_item \<Rightarrow> u64" where
  "item_cpu cutoff cfg drop_stale i =
     (if item_dropped cfg drop_stale i \<or> ie_work_us (fst i) = 0 then 0
      else case measured_work_us cutoff (ie_work_us (fst i)) (ie_readings (fst i)) (st_window stats_zero) of
             None \<Rightarrow> 0
           | Some (used, _) \<Rightarrow> used)"

lemma minus_mono_u64: "(s :: u64) \<le> a \<Longrightarrow> a \<le> b \<Longrightarrow> a - s \<le> b - s"
  by (simp add: word_le_nat_alt unat_sub_u64)

lemma window_finish_lower [simp]: "cw_lower_ns (window_finish fin b) = cw_lower_ns b"
  by (simp add: window_finish_def)

lemma window_sample_lower:
  "cw_lower_ns (window_sample c before after b) \<in> {c, cw_lower_ns b}"
  by (simp add: window_sample_def Let_def)

text \<open>With a CPU clock that never goes back the lower bound stays below the time used.\<close>

lemma measure_loop_lower:
  assumes "measure_loop start dur rs b = Some (elapsed, b1)" and "sorted (map (fst \<circ> snd) rs)"
    and "\<forall>r \<in> set rs. start \<le> fst (snd r) \<and> cw_lower_ns b \<le> fst (snd r) - start"
  shows "cw_lower_ns b1 \<le> elapsed"
  using assms
proof (induction rs arbitrary: b)
  case (Cons r rs)
  obtain before cpu after where r: "r = (before, cpu, after)" by (cases r)
  define b2 where "b2 = (if \<not> cw_closed b then window_sample (cpu - start) before after b else b)"
  have lo: "cw_lower_ns b2 \<in> {cpu - start, cw_lower_ns b}"
    using window_sample_lower [of "cpu - start" before after b] by (simp add: b2_def)
  then have le: "cw_lower_ns b2 \<le> cpu - start" using Cons.prems(3) by (auto simp: r)
  show ?case
  proof (cases "cpu - start < dur")
    case True
    have "\<forall>r \<in> set rs. start \<le> fst (snd r) \<and> cw_lower_ns b2 \<le> fst (snd r) - start"
    proof
      fix q assume q: "q \<in> set rs"
      then have "cpu \<le> fst (snd q)" using Cons.prems(2) by (auto simp: r)
      then have "cpu - start \<le> fst (snd q) - start" using Cons.prems(3) by (auto simp: r intro: minus_mono_u64)
      then show "start \<le> fst (snd q) \<and> cw_lower_ns b2 \<le> fst (snd q) - start"
        using q le Cons.prems(3) by (auto intro: order_trans)
    qed
    moreover have "measure_loop start dur rs b2 = Some (elapsed, b1)"
      using Cons.prems(1) True by (simp add: r Let_def b2_def)
    ultimately show ?thesis using Cons.IH Cons.prems(2) by simp
  next
    case False
    then have "elapsed = cpu - start" "b1 = b2" using Cons.prems(1) by (simp_all add: r Let_def b2_def)
    with le show ?thesis by simp
  qed
qed simp

lemma measured_work_lower:
  assumes "measured_work_us cutoff us rs win = Some (used, win')" and "sorted (cpu_readings rs)"
  shows "\<exists>lo \<le> used. ws_cpu_ns win' = ws_cpu_ns win + lo"
    and "fst (the (measured_work_us cutoff us rs win2)) = used" and "measured_work_us cutoff us rs win2 \<noteq> None"
proof -
  show "fst (the (measured_work_us cutoff us rs win2)) = used" "measured_work_us cutoff us rs win2 \<noteq> None"
    using assms(1) by (auto simp: measured_work_us_def Let_def
      split: if_splits work_readings.splits list.splits option.splits prod.splits)
  show "\<exists>lo \<le> used. ws_cpu_ns win' = ws_cpu_ns win + lo"
  proof (cases "cutoff = 0")
    case True
    with assms(1) have "win' = win"
      by (auto simp: measured_work_us_def split: work_readings.splits list.splits option.splits)
    then show ?thesis by (intro exI [of _ 0]) simp
  next
    case False
    with assms(1) obtain before start after samples b where rs: "rs = Bracketed (before, start, after) samples"
      and m: "measure_loop start (us * 1000) samples (window_sample 0 before after (cpu_window cutoff)) = Some (used, b)"
      and w: "ws_cpu_ns win' = ws_cpu_ns win + cw_lower_ns b"
      by (auto simp: measured_work_us_def Let_def split: work_readings.splits option.splits prod.splits)
    have z: "cw_lower_ns (window_sample 0 before after (cpu_window cutoff)) = 0"
      using window_sample_lower [of 0 before after "cpu_window cutoff"] by (simp add: cpu_window_def)
    have "cw_lower_ns b \<le> used"
      by (rule measure_loop_lower [OF m]) (use assms(2) in \<open>auto simp: rs cpu_readings_def z\<close>)
    with w show ?thesis by blast
  qed
qed

lemma stage_item_cpu:
  assumes "stage_item cutoff cfg drop_stale env w st = Some (pass, st')" and "sorted (cpu_readings (ie_readings env))"
  shows "\<exists>lo \<le> item_cpu cutoff cfg drop_stale (env, w).
    st_cpu_ns st' = st_cpu_ns st + item_cpu cutoff cfg drop_stale (env, w) \<and>
    ws_cpu_ns (st_window st') = ws_cpu_ns (st_window st) + lo"
  using assms(1)
proof (cases rule: stage_item_cases)
  case dropped
  then show ?thesis using stage_admit_counters [OF dropped(3)]
    by (intro exI [of _ 0]) (simp add: item_cpu_def)
next
  case (completed used win st1)
  note adm = stage_admit_counters [OF completed(3)]
  show ?thesis
  proof (cases "ie_work_us env = 0")
    case True
    with completed adm show ?thesis
      by (intro exI [of _ 0]) (simp add: item_cpu_def stage_complete_counters)
  next
    case False
    with completed(4) have m: "measured_work_us cutoff (ie_work_us env) (ie_readings env) (st_window st1) = Some (used, win)"
      by simp
    obtain lo where lo: "lo \<le> used" "ws_cpu_ns win = ws_cpu_ns (st_window st1) + lo"
      using measured_work_lower(1) [OF m assms(2)] by blast
    have "item_cpu cutoff cfg drop_stale (env, w) = used"
      using completed(2) False measured_work_lower(2,3) [OF m assms(2), of "st_window stats_zero"]
      by (auto simp: item_cpu_def)
    with completed(5) adm lo show ?thesis
      by (intro exI [of _ lo]) (simp add: stage_complete_counters)
  qed
qed

lemma stage_run_cpu:
  assumes "stage_run cutoff cfg drop_stale items st = Some (outs, st')"
    and "\<forall>i \<in> set items. sorted (cpu_readings (ie_readings (fst i)))"
  shows "\<exists>lo \<le> sum_list (map (\<lambda>i. unat (item_cpu cutoff cfg drop_stale i)) items).
    st_cpu_ns st' = st_cpu_ns st + of_nat (sum_list (map (\<lambda>i. unat (item_cpu cutoff cfg drop_stale i)) items)) \<and>
    ws_cpu_ns (st_window st') = ws_cpu_ns (st_window st) + of_nat lo"
  using assms
proof (induction items arbitrary: st outs)
  case (Cons i items)
  obtain env w where i: "i = (env, w)" by fastforce
  let ?c = "item_cpu cutoff cfg drop_stale i"
  let ?s = "sum_list (map (\<lambda>i. unat (item_cpu cutoff cfg drop_stale i)) items)"
  from Cons.prems(1) [unfolded i] show ?case
  proof (cases rule: stage_run_Cons)
    case (1 pass st1 outs1)
    obtain l1 where l1: "l1 \<le> ?c" "st_cpu_ns st1 = st_cpu_ns st + ?c"
        "ws_cpu_ns (st_window st1) = ws_cpu_ns (st_window st) + l1"
      using stage_item_cpu [OF 1(1)] Cons.prems(2) by (auto simp: i)
    obtain l2 where l2: "l2 \<le> ?s" "st_cpu_ns st' = st_cpu_ns st1 + of_nat ?s"
        "ws_cpu_ns (st_window st') = ws_cpu_ns (st_window st1) + of_nat l2"
      using Cons.IH [OF 1(2)] Cons.prems(2) by auto
    have "unat l1 + l2 \<le> unat ?c + ?s" using l1(1) l2(1) by (simp add: word_le_nat_alt)
    with l1 l2 show ?thesis by (intro exI [of _ "unat l1 + l2"]) (simp add: add.assoc)
  qed
qed simp

subsection \<open>The queue at the cutoff\<close>

text \<open>What an event of the thread, or of another one, does to the channel.\<close>

fun event_channel :: "u64 \<Rightarrow> 's publisher \<Rightarrow> stage_event \<Rightarrow> 's channel \<Rightarrow> 's channel" where
  "event_channel cutoff pub (Others op) c = (if by_producer op then channel_apply cutoff pub op c else c)"
| "event_channel cutoff pub (Turn now env) c = channel_apply cutoff pub (turn_op now c) c"
| "event_channel cutoff pub Quit c = (case ch_consumer c of Outside _ \<Rightarrow> c\<lparr>ch_consumer := Left\<rparr> | _ \<Rightarrow> c)"

fun event_before :: "u64 \<Rightarrow> stage_event \<Rightarrow> bool" where
  "event_before cutoff (Others op) = op_inside cutoff op"
| "event_before cutoff (Turn now env) = inside_window cutoff now"
| "event_before cutoff Quit = True"

fun event_after :: "u64 \<Rightarrow> stage_event \<Rightarrow> bool" where
  "event_after cutoff (Others op) = op_outside cutoff op"
| "event_after cutoff (Turn now env) = (\<not> inside_window cutoff now)"
| "event_after cutoff Quit = True"

lemma stage_thread_channel:
  "stage_thread cutoff cfg drop_stale pub evs c st = Some (lg, outs, d, st') \<Longrightarrow>
   d = fold (event_channel cutoff pub) evs c"
proof (induction evs arbitrary: c st lg outs)
  case (Cons ev evs)
  show ?case
  proof (cases ev)
    case (Turn now env)
    from Cons.prems [unfolded Turn] show ?thesis
      by (cases rule: stage_thread_Turn) (auto simp: Turn dest: Cons.IH)
  qed (use Cons in \<open>auto split: if_splits\<close>)
qed simp

lemma event_before_exact:
  assumes "window_exact c" and "event_before cutoff ev"
  shows "window_exact (event_channel cutoff pub ev c)"
proof (cases ev)
  case (Turn now env)
  then have "op_inside cutoff (turn_op now c)" using assms(2) by (simp add: turn_op_def split: consumer.splits)
  with window_inside [OF assms(1)] show ?thesis by (simp add: Turn)
qed (use assms window_inside [OF assms(1)] in \<open>auto simp: window_exact_def split: consumer.splits\<close>)

lemma event_after_frame:
  assumes "event_after cutoff ev"
  shows "bq_window (ch_queue (event_channel cutoff pub ev c)) = bq_window (ch_queue c)"
proof (cases ev)
  case (Turn now env)
  then have "op_outside cutoff (turn_op now c)" using assms by (simp add: turn_op_def split: consumer.splits)
  from window_outside [OF this] show ?thesis by (simp add: Turn)
qed (use assms window_outside in \<open>auto split: consumer.splits\<close>)

lemma pending_at_cutoff:
  assumes "\<forall>ev \<in> set before. event_before cutoff ev" and "\<forall>ev \<in> set after. event_after cutoff ev"
    and "window_exact c"
  shows "window_pending (bq_window (ch_queue (fold (event_channel cutoff pub) (before @ after) c))) =
    vsize (bq_q (ch_queue (fold (event_channel cutoff pub) before c)))"
proof -
  have "window_exact (fold (event_channel cutoff pub) before c)"
    using assms(1,3) by (induction before arbitrary: c) (simp_all add: event_before_exact)
  moreover have "bq_window (ch_queue (fold (event_channel cutoff pub) after d)) = bq_window (ch_queue d)" for d
    using assms(2) by (induction after arbitrary: d) (simp_all add: event_after_frame)
  ultimately show ?thesis by (simp add: window_exact_def)
qed

section \<open>Properties\<close>

text \<open>
  C26: The accounting of a stage is exact. Whatever the interleaving with producers, stop and shutdown,
  every item popped is either completed or counted as dropped; it is dropped exactly when dropping is
  enabled and it was stale when taken; the items passed on are the others, in the order in which they
  were pushed; the late and the stale counters count exactly the completions after their deadline and
  the items stale when taken.
\<close>

theorem stage_accounting:
  assumes "stage_thread cutoff cfg drop_stale pub evs (channel_new t evict s) stats_zero =
      Some (lg, outs, d, st)"
  shows "st_processed st + st_dropped_stale st = vsize lg \<and>
         outs = map snd (filter (\<lambda>i. \<not> item_dropped cfg drop_stale i) (map snd lg)) \<and>
         subseq outs (event_pushes evs) \<and>
         st_late st = countw (\<lambda>i. \<not> item_dropped cfg drop_stale i \<and> item_late cfg i) (map snd lg) \<and>
         st_stale_seen st = countw (\<lambda>i. is_stale (ie_t0 (fst i)) (snd i) cfg) (map snd lg)"
proof -
  have r: "stage_run cutoff cfg drop_stale (map snd lg) stats_zero = Some (outs, st)"
    using stage_thread_run [OF assms] by blast
  note c = stage_run_counters [OF r]
  have n: "st_processed st + st_dropped_stale st = vsize lg"
    using c countw_add [of "item_dropped cfg drop_stale" "map snd lg"]
    by (simp add: stats_zero_def add.commute vsize_def)
  have "bq_q (ch_queue (channel_new t evict s)) = []"
    by (simp add: channel_new_def set_stale_eviction_def set_hint_target_def queue_new_def)
  with stage_thread_order [OF assms] have "subseq (items_of lg @ bq_q (ch_queue d)) (event_pushes evs)"
    by simp
  then have "subseq (items_of lg) (event_pushes evs)"
    by (meson list_emb_append2 subseq_order.order_trans subseq_order.order_refl subseq_rev_drop_many)
  moreover have "subseq (map snd (filter P (map snd lg))) (items_of lg)" for P
    by (induction lg) (auto simp: items_of_def)
  ultimately have "subseq outs (event_pushes evs)"
    using c subseq_order.order_trans by blast
  with c n show ?thesis by (simp add: stats_zero_def)
qed

lemma window_exact_new: "window_exact (channel_new t evict s)"
  by (simp add: window_exact_def window_pending_def channel_new_def set_stale_eviction_def
    set_hint_target_def queue_new_def)

lemma window_cpu_sum:
  assumes "stage_run cutoff cfg drop_stale items stats_zero = Some (outs, st)"
    and "\<forall>i \<in> set items. sorted (cpu_readings (ie_readings (fst i)))"
    and "used = sum_list (map (\<lambda>i. unat (item_cpu cutoff cfg drop_stale i)) items)"
    and "used < 18446744073709551616" and "r = print_window_stage st queue"
  shows "unat (wr_cpu_ns r) + unat (wr_drain_cpu_ns r) = used"
proof -
  obtain lo where lo: "lo \<le> used" "st_cpu_ns st = of_nat used" "ws_cpu_ns (st_window st) = of_nat lo"
    using stage_run_cpu [OF assms(1,2)] by (auto simp: assms(3) stats_zero_def)
  have "unat (of_nat lo :: u64) = lo" "unat (of_nat used :: u64) = used"
    using lo(1) assms(4) by (simp_all add: unat_of_nat_u64)
  with lo show ?thesis
    by (simp add: assms(5) print_window_stage_def Let_def unat_sub_u64 word_le_nat_alt)
qed

text \<open>When the thread was finished with an item.\<close>

definition item_end :: "stage_cfg \<Rightarrow> bool \<Rightarrow> item_env \<times> work_item \<Rightarrow> u64" where
  "item_end cfg drop_stale i =
     (if item_dropped cfg drop_stale i then ie_t0 (fst i) else ie_t1 (fst i))"

lemma inside_window_mono: "inside_window cutoff t \<Longrightarrow> u \<le> t \<Longrightarrow> inside_window cutoff u"
  by (auto simp: inside_window_def)

lemma in_flight_split:
  assumes "\<forall>(now, env, w) \<in> set lg. now \<le> ie_t0 env \<and> ie_t0 env \<le> ie_t1 env"
  shows "countw (\<lambda>(now, _). inside_window cutoff now) lg -
      countw (\<lambda>i. \<not> item_dropped cfg dr i \<and> inside_window cutoff (ie_t1 (fst i))) (map snd lg) -
      countw (\<lambda>i. item_dropped cfg dr i \<and> inside_window cutoff (ie_t0 (fst i))) (map snd lg) =
    countw (\<lambda>(now, i). inside_window cutoff now \<and> \<not> inside_window cutoff (item_end cfg dr i)) lg"
proof -
  let ?I = "\<lambda>(now :: u64, _ :: item_env \<times> work_item). inside_window cutoff now"
  let ?A = "\<lambda>x :: u64 \<times> item_env \<times> work_item. \<not> item_dropped cfg dr (snd x) \<and>
    inside_window cutoff (ie_t1 (fst (snd x)))"
  let ?B = "\<lambda>x :: u64 \<times> item_env \<times> work_item. item_dropped cfg dr (snd x) \<and>
    inside_window cutoff (ie_t0 (fst (snd x)))"
  have A: "?I x" if "x \<in> set lg" "?A x" for x
    using that assms order_trans by (force intro: inside_window_mono)
  have B: "?I x \<and> \<not> ?A x" if "x \<in> set lg" "?B x" for x
    using that assms by (force intro: inside_window_mono)
  have "countw ?I lg - countw ?A lg - countw ?B lg = countw (\<lambda>x. (?I x \<and> \<not> ?A x) \<and> \<not> ?B x) lg"
    using countw_minus [of lg ?A ?I] countw_minus [of lg ?B "\<lambda>x. ?I x \<and> \<not> ?A x"] A B by presburger
  also have "\<dots> = countw (\<lambda>(now, i). inside_window cutoff now \<and> \<not> inside_window cutoff (item_end cfg dr i)) lg"
    unfolding countw_def by (rule arg_cong [where f = vsize], rule filter_cong) (auto simp: item_end_def)
  finally show ?thesis by (simp add: countw_map)
qed

text \<open>
  C31: The window report is exact: none of its subtractions goes below zero. Let the events up to the
  cutoff come before those after it, let the clock readings of a thread and the CPU readings of a job
  never go back, and let the CPU time of the thread fit its counter. Then \<open>pending\<close> is the number of
  items queued at the cutoff; \<open>in_flight\<close> the number of items taken before the cutoff and not finished
  (or dropped) before it; \<open>drain_completed\<close> and \<open>drain_late\<close> count the completions after the
  cutoff; and the CPU times of window and drain add up to what the items used.
\<close>

theorem window_report_exact:
  assumes "stage_thread cutoff cfg drop_stale pub (before @ after) (channel_new t evict s) stats_zero =
      Some (lg, outs, d, st)"
    and "\<forall>ev \<in> set before. event_before cutoff ev" and "\<forall>ev \<in> set after. event_after cutoff ev"
    and "\<forall>(now, env, w) \<in> set lg. now \<le> ie_t0 env \<and> ie_t0 env \<le> ie_t1 env \<and> sorted (cpu_readings (ie_readings env))"
    and "length lg < 18446744073709551616"
    and "c = fold (event_channel cutoff pub) before (channel_new t evict s)"
    and "length (bq_q (ch_queue c)) < 18446744073709551616"
    and "used = sum_list (map (\<lambda>i. unat (item_cpu cutoff cfg drop_stale i)) (map snd lg))"
    and "used < 18446744073709551616"
    and "r = print_window_stage st (bq_window (ch_queue d))"
  shows "unat (wr_pending r) = length (bq_q (ch_queue c)) \<and>
         unat (wr_in_flight r) = length (filter (\<lambda>(now, i). inside_window cutoff now \<and>
           \<not> inside_window cutoff (item_end cfg drop_stale i)) lg) \<and>
         unat (wr_drain_completed r) = length (filter (\<lambda>i. \<not> item_dropped cfg drop_stale i \<and>
           \<not> inside_window cutoff (ie_t1 (fst i))) (map snd lg)) \<and>
         unat (wr_drain_late r) = length (filter (\<lambda>i. \<not> item_dropped cfg drop_stale i \<and>
           item_late cfg i \<and> \<not> inside_window cutoff (ie_t1 (fst i))) (map snd lg)) \<and>
         unat (wr_cpu_ns r) + unat (wr_drain_cpu_ns r) = used"
proof -
  have r: "stage_run cutoff cfg drop_stale (map snd lg) stats_zero = Some (outs, st)"
    and q: "wq_dequeued (bq_window (ch_queue d)) = countw (\<lambda>(now, _). inside_window cutoff now) lg"
    using stage_thread_run [OF assms(1)]
    by (simp_all add: channel_new_def set_stale_eviction_def set_hint_target_def queue_new_def)
  note c = stage_run_counters [OF r]
  have times: "\<forall>(now, env, w) \<in> set lg. now \<le> ie_t0 env \<and> ie_t0 env \<le> ie_t1 env" using assms(4) by auto
  have "wr_in_flight r = countw (\<lambda>(now, i). inside_window cutoff now \<and>
      \<not> inside_window cutoff (item_end cfg drop_stale i)) lg"
    unfolding in_flight_split [OF times, of cutoff cfg drop_stale, symmetric]
    using c by (simp add: assms(10) q print_window_stage_def Let_def stats_zero_def)
  moreover have "wr_drain_completed r = countw (\<lambda>i. \<not> item_dropped cfg drop_stale i \<and>
      \<not> (\<not> item_dropped cfg drop_stale i \<and> inside_window cutoff (ie_t1 (fst i)))) (map snd lg)"
    using c countw_minus [of "map snd lg" "\<lambda>i. \<not> item_dropped cfg drop_stale i \<and>
      inside_window cutoff (ie_t1 (fst i))" "\<lambda>i. \<not> item_dropped cfg drop_stale i"]
    by (simp add: assms(10) print_window_stage_def Let_def stats_zero_def)
  moreover have "wr_drain_late r = countw (\<lambda>i. (\<not> item_dropped cfg drop_stale i \<and> item_late cfg i) \<and>
      \<not> (\<not> item_dropped cfg drop_stale i \<and> inside_window cutoff (ie_t1 (fst i)) \<and> item_late cfg i))
      (map snd lg)"
    using c countw_minus [of "map snd lg" "\<lambda>i. \<not> item_dropped cfg drop_stale i \<and>
      inside_window cutoff (ie_t1 (fst i)) \<and> item_late cfg i"
      "\<lambda>i. \<not> item_dropped cfg drop_stale i \<and> item_late cfg i"]
    by (simp add: assms(10) print_window_stage_def Let_def stats_zero_def)
  moreover have "wr_pending r = vsize (bq_q (ch_queue c))"
    using pending_at_cutoff [OF assms(2,3), of "channel_new t evict s" pub]
    by (simp add: assms(10) print_window_stage_def Let_def stage_thread_channel [OF assms(1)] assms(6) window_exact_new)
  moreover have "unat (wr_cpu_ns r) + unat (wr_drain_cpu_ns r) = used"
    by (rule window_cpu_sum [OF r _ assms(8-10)]) (use assms(4) in auto)
  ultimately show ?thesis
    using assms(5,7) by (simp add: unat_countw vsize_def unat_of_nat_u64 cong: conj_cong)
qed

text \<open>
  C35: Measured work. Once some reading of the thread's CPU clock shows the requested time, the loop
  ends, having consumed at least that time; and if CPU time only grows and every reading lies between
  the true values at the two wall readings around it, the window counters are advanced by a lower bound
  of the CPU time the job had used at the cutoff and by the distance to an upper bound of it.
\<close>

theorem measured_work_sound:
  assumes "cutoff \<noteq> 0" and "mono used"
    and "\<forall>smp \<in> set ((0, before, after) # samples_of start samples). truthful used smp"
    and "\<exists>r \<in> set samples. us * 1000 \<le> fst (snd r) - start"
  shows "\<exists>elapsed lo hi. measured_work_us cutoff us (Bracketed (before, start, after) samples) window =
           Some (elapsed, window\<lparr>ws_cpu_ns := ws_cpu_ns window + lo,
             ws_cpu_uncertainty_ns := ws_cpu_uncertainty_ns window + (hi - lo)\<rparr>) \<and>
         us * 1000 \<le> elapsed \<and> (used cutoff \<le> elapsed \<longrightarrow> lo \<le> used cutoff \<and> used cutoff \<le> hi)"
proof -
  let ?b0 = "window_sample 0 before after (cpu_window cutoff)"
  obtain elapsed k where m: "measure_loop start (us * 1000) samples ?b0 =
      Some (elapsed, fold take_sample (samples_of start (take k samples)) ?b0)" and e: "us * 1000 \<le> elapsed"
    using measure_loop_spec [OF assms(4)] by blast
  let ?smps = "(0, before, after) # samples_of start (take k samples)"
  define b where "b = window_finish elapsed (fold take_sample ?smps (cpu_window cutoff))"
  have "set ?smps \<subseteq> set ((0, before, after) # samples_of start samples)"
    using set_take_subset [of k samples] unfolding samples_of_def list.set set_map by blast
  then have t: "\<forall>smp \<in> set ?smps. truthful used smp" using assms(3) by blast
  have "used cutoff \<le> elapsed \<longrightarrow> cw_lower_ns b \<le> used cutoff \<and> used cutoff \<le> cw_upper_ns b"
    using bracket_finish [OF assms(2) t, of cutoff elapsed] by (simp add: b_def)
  moreover have "measured_work_us cutoff us (Bracketed (before, start, after) samples) window =
      Some (elapsed, window\<lparr>ws_cpu_ns := ws_cpu_ns window + cw_lower_ns b,
        ws_cpu_uncertainty_ns := ws_cpu_uncertainty_ns window + (cw_upper_ns b - cw_lower_ns b)\<rparr>)"
    using assms(1) m by (simp add: measured_work_us_def b_def Let_def take_sample_def)
  ultimately show ?thesis using e by blast
qed

section \<open>Witnesses\<close>

text \<open>
  Three frames: the first completed in the window, the second stale when taken and dropped, the third
  taken before the cutoff and completed after it.
\<close>

definition demo_env :: "u64 \<Rightarrow> u64 \<Rightarrow> item_env" where
  "demo_env t0 t1 = \<lparr>ie_t0 = t0, ie_work_us = 0, ie_readings = Plain [], ie_t1 = t1\<rparr>"

definition demo_events :: "stage_event list" where
  "demo_events = [Others (Ch_push 20 (demo_item 1 20)), Turn 22 (demo_env 23 30),
     Others (Ch_push 35 (demo_item 2 1)), Turn 80 (demo_env 81 81),
     Others (Ch_push 90 (demo_item 3 90)), Turn 95 (demo_env 96 120)]"

definition demo_thread :: "(stage_log \<times> work_item list \<times> (u64 \<Rightarrow> fresh_task_hint option) channel \<times> stage_stats) option"
  where "demo_thread = stage_thread 100 demo_cfg True map_write demo_events (demo_channel False) stats_zero"


lemmas demo_eval = channel_eval pushed_by_def popped_by_def turn_op_def demo_env_def demo_events_def
  stage_item_def stage_admit_def stage_complete_def b2w_def

lemma demo_thread_run:
  "\<exists>d st. demo_thread = Some ([(22, demo_env 23 30, demo_item 1 20), (80, demo_env 81 81, demo_item 2 1),
     (95, demo_env 96 120, demo_item 3 90)], [demo_item 1 20, demo_item 3 90], d, st)"
  unfolding demo_thread_def by (simp add: demo_eval)

lemma demo_env_times: "ie_t0 (demo_env t0 t1) = t0" "ie_t1 (demo_env t0 t1) = t1"
  by (simp_all add: demo_env_def)

lemma demo_cfg_items:
  "\<not> item_dropped demo_cfg True (demo_env 23 30, demo_item 1 20)"
  "item_dropped demo_cfg True (demo_env 81 81, demo_item 2 1)"
  "\<not> item_dropped demo_cfg True (demo_env 96 120, demo_item 3 90)"
  by (simp_all add: item_dropped_def is_stale_def demo_cfg_def demo_env_def demo_item_def word_less_nat_alt)

theorem stage_accounting_witness:
  "\<exists>lg d st. demo_thread = Some (lg, [demo_item 1 20, demo_item 3 90], d, st) \<and>
     st_processed st + st_dropped_stale st = 3 \<and> subseq [demo_item 1 20, demo_item 3 90] (event_pushes demo_events)"
proof -
  obtain d st where r: "demo_thread = Some ([(22, demo_env 23 30, demo_item 1 20),
     (80, demo_env 81 81, demo_item 2 1), (95, demo_env 96 120, demo_item 3 90)],
     [demo_item 1 20, demo_item 3 90], d, st)" using demo_thread_run by blast
  note a = stage_accounting [OF r [unfolded demo_thread_def demo_channel_def]]
  have "st_processed st + st_dropped_stale st = 3" using conjunct1 [OF a] by simp
  moreover have "subseq [demo_item 1 20, demo_item 3 90] (event_pushes demo_events)" using a by blast
  ultimately show ?thesis unfolding r by blast
qed

text \<open>
  The same with a third frame that works: at the cutoff it has used 500 ns for certain, in the end 1490,
  and a frame pushed before the cutoff is still queued.
\<close>

definition busy_env :: item_env where
  "busy_env = \<lparr>ie_t0 = 96, ie_work_us = 1,
     ie_readings = Bracketed (96, 10, 97) [(98, 510, 99), (110, 1500, 111)], ie_t1 = 120\<rparr>"

definition busy_events :: "stage_event list" where
  "busy_events = [Others (Ch_push 90 (demo_item 3 90)), Turn 95 busy_env, Others (Ch_push 99 (demo_item 4 99))]"

lemma busy_thread_run:
  "\<exists>d st. stage_thread 100 demo_cfg True map_write (busy_events @ [Others (Ch_push 130 (demo_item 5 130))])
     (demo_channel False) stats_zero = Some ([(95, busy_env, demo_item 3 90)], [demo_item 3 90], d, st)"
  by (simp add: demo_eval busy_events_def busy_env_def measured_work_us_def window_sample_def window_finish_def
    cpu_window_def)

theorem window_report_exact_witness:
  "\<exists>lg outs d st. stage_thread 100 demo_cfg True map_write
       (busy_events @ [Others (Ch_push 130 (demo_item 5 130))]) (demo_channel False) stats_zero = Some (lg, outs, d, st) \<and>
     unat (wr_in_flight (print_window_stage st (bq_window (ch_queue d)))) = 1 \<and>
     unat (wr_pending (print_window_stage st (bq_window (ch_queue d)))) = 1 \<and>
     unat (wr_cpu_ns (print_window_stage st (bq_window (ch_queue d)))) +
       unat (wr_drain_cpu_ns (print_window_stage st (bq_window (ch_queue d)))) = 1490"
proof -
  obtain d st where r: "stage_thread 100 demo_cfg True map_write (busy_events @ [Others (Ch_push 130 (demo_item 5 130))])
     (demo_channel False) stats_zero = Some ([(95, busy_env, demo_item 3 90)], [demo_item 3 90], d, st)"
    using busy_thread_run by blast
  have b: "\<forall>ev \<in> set busy_events. event_before 100 ev"
    "\<forall>ev \<in> set [Others (Ch_push 130 (demo_item 5 130))]. event_after 100 ev"
    by (simp_all add: busy_events_def inside_window_def word_less_nat_alt)
  have m: "\<forall>(now, env, w) \<in> set [(95, busy_env, demo_item 3 90)].
     now \<le> ie_t0 env \<and> ie_t0 env \<le> ie_t1 env \<and> sorted (cpu_readings (ie_readings env))"
    by (simp add: busy_env_def cpu_readings_def word_le_nat_alt)
  have q: "bq_q (ch_queue (fold (event_channel 100 map_write) busy_events (demo_channel False))) = [demo_item 4 99]"
    by (simp add: demo_eval busy_events_def)
  have i: "\<not> item_dropped demo_cfg True (busy_env, demo_item 3 90)"
    by (simp add: item_dropped_def is_stale_def demo_cfg_def busy_env_def demo_item_def word_less_nat_alt)
  then have u: "item_cpu 100 demo_cfg True (busy_env, demo_item 3 90) = 1490"
    by (simp add: item_cpu_def busy_env_def measured_work_us_def window_sample_def window_finish_def
      cpu_window_def Let_def word_less_nat_alt)
  from window_report_exact [OF r [unfolded demo_channel_def] b m _ refl _ refl _ refl] show ?thesis
    unfolding r using q i u
    by (simp add: demo_channel_def item_end_def busy_env_def inside_window_def word_less_nat_alt)
qed

theorem measured_work_sound_witness:
  "\<exists>elapsed lo hi. measured_work_us 45 1 (Bracketed (10, 10, 12) [(510, 510, 512), (1500, 1500, 1502)])
       (st_window stats_zero) =
     Some (elapsed, (st_window stats_zero)\<lparr>ws_cpu_ns := ws_cpu_ns (st_window stats_zero) + lo,
        ws_cpu_uncertainty_ns := ws_cpu_uncertainty_ns (st_window stats_zero) + (hi - lo)\<rparr>) \<and>
     1000 \<le> elapsed"
proof -
  define used :: "u64 \<Rightarrow> u64" where "used = (\<lambda>x. if x \<le> 10 then 0 else x - 10)"
  have mono: "mono used"
    unfolding used_def mono_def by (auto simp: word_le_nat_alt unat_sub)
  have t: "\<forall>smp \<in> set ((0, 10, 12) # samples_of 10 [(510, 510, 512), (1500, 1500, 1502)]). truthful used smp"
    by (simp add: used_def samples_of_def truthful_def word_le_nat_alt)
  have r: "\<exists>r \<in> set [(510, 510, 512), (1500, 1500, 1502 :: u64)]. (1 :: u64) * 1000 \<le> fst (snd r) - (10 :: u64)"
    by (simp add: word_le_nat_alt)
  have c: "(45 :: u64) \<noteq> 0" by simp
  from measured_work_sound [OF c mono t r, of "st_window stats_zero"] show ?thesis by auto
qed

end
