(* ===== verification/Periodic.thy ===== *)
theory Periodic
  imports Prelude
begin

text \<open>
  The loop \<open>for (release = start; release < end; release += period)\<close> shared by the sensor generators:
  the additions are those of \<open>uint64_t\<close>, a body may fail to answer, and fuel bounds the passes. The
  main lemma says how many passes there are and at which times, when the last addition does not wrap.
\<close>

section \<open>The loop\<close>

fun periodic :: "nat \<Rightarrow> (u64 \<Rightarrow> 's \<Rightarrow> 's option) \<Rightarrow> u64 \<Rightarrow> u64 \<Rightarrow> u64 \<Rightarrow> 's \<Rightarrow> 's option" where
  "periodic 0 body period fin release s = None"
| "periodic (Suc fuel) body period fin release s =
     (if release < fin then
        (case body release s of
           None \<Rightarrow> None
         | Some s1 \<Rightarrow> periodic fuel body period fin (release + period) s1)
      else Some s)"

fun run_bodies :: "('a \<Rightarrow> 's \<Rightarrow> 's option) \<Rightarrow> 'a list \<Rightarrow> 's \<Rightarrow> 's option" where
  "run_bodies body [] s = Some s"
| "run_bodies body (x # xs) s = (case body x s of None \<Rightarrow> None | Some s1 \<Rightarrow> run_bodies body xs s1)"

lemma run_bodies_append:
  "run_bodies body (xs @ ys) s =
     (case run_bodies body xs s of None \<Rightarrow> None | Some s1 \<Rightarrow> run_bodies body ys s1)"
  by (induction xs arbitrary: s) (simp_all split: option.splits)

text \<open>A body that never fails, by an invariant indexed by the number of passes.\<close>

lemma run_bodies_invar:
  assumes "\<And>k s. k < n \<Longrightarrow> I k s \<Longrightarrow> \<exists>t. body (f k) s = Some t \<and> I (Suc k) t" and "I 0 s"
  shows "\<exists>t. run_bodies body (map f [0..<n]) s = Some t \<and> I n t"
  using assms
proof (induction n)
  case (Suc n)
  then obtain t where "run_bodies body (map f [0..<n]) s = Some t" "I n t" by force
  with Suc.prems show ?case by (fastforce simp: run_bodies_append split: option.splits)
qed simp

section \<open>Releases\<close>

definition passes :: "u64 \<Rightarrow> u64 \<Rightarrow> u64 \<Rightarrow> nat" where
  "passes period start fin = (unat fin - unat start + unat period - 1) div unat period"

definition release_at :: "u64 \<Rightarrow> u64 \<Rightarrow> nat \<Rightarrow> u64" where
  "release_at start period k = start + of_nat k * period"

lemma release_at_simps: "release_at start period 0 = start"
  "release_at (start + period) period k = release_at start period (Suc k)"
  by (simp_all add: release_at_def algebra_simps)

lemma passes_zero: "fin \<le> start \<Longrightarrow> 0 < unat period \<Longrightarrow> passes period start fin = 0"
  by (simp add: passes_def word_le_nat_alt)

lemma passes_Suc:
  assumes "start < fin" and "0 < unat period" and "unat start + unat period < 18446744073709551616"
  shows "passes period start fin = Suc (passes period (start + period) fin)"
proof -
  let ?d = "unat fin - unat start" and ?p = "unat period"
  have d: "0 < ?d" using assms(1) by (simp add: word_less_nat_alt)
  have s: "unat (start + period) = unat start + ?p" using assms(3) by (rule unat_add_u64)
  have "passes period start fin = (?d - 1 + ?p) div ?p" using d by (simp add: passes_def)
  also have "\<dots> = Suc ((?d - 1) div ?p)" using assms(2) by (simp add: div_add_self2)
  also have "(?d - 1) div ?p = (?d - ?p + ?p - 1) div ?p"
  proof (cases "?p \<le> ?d")
    case False
    then have "(?d - 1) div ?p = 0" "(?d - ?p + ?p - 1) div ?p = 0" using assms(2) by simp_all
    then show ?thesis by simp
  next
    case True
    then have "?d - ?p + ?p - 1 = ?d - 1" by linarith
    then show ?thesis by simp
  qed
  finally show ?thesis by (simp add: passes_def s)
qed

lemma periodic_run:
  assumes "0 < unat period" and "unat fin + unat period \<le> 18446744073709551616"
    and "passes period start fin < fuel"
  shows "periodic fuel body period fin start s =
    run_bodies body (map (release_at start period) [0..<passes period start fin]) s"
  using assms(3)
proof (induction fuel arbitrary: start s)
  case (Suc fuel)
  show ?case
  proof (cases "start < fin")
    case False
    then have "passes period start fin = 0" using assms(1) by (simp add: passes_zero)
    with False show ?thesis by simp
  next
    case True
    have "unat start + unat period < 18446744073709551616"
      using True assms(2) by (simp add: word_less_nat_alt)
    note p = passes_Suc [OF True assms(1) this]
    have "map (release_at start period) [0..<Suc n] =
        start # map (release_at (start + period) period) [0..<n]" for n
      by (simp add: release_at_simps upt_conv_Cons map_Suc_upt [symmetric] o_def del: upt_Suc)
    with p Suc.IH [of "start + period"] Suc.prems True show ?thesis
      by (simp del: upt_Suc split: option.splits)
  qed
qed simp

lemma release_at_unat:
  assumes "k < passes period start fin" and "0 < unat period"
  shows "unat (release_at start period k) = unat start + k * unat period \<and>
    unat start + k * unat period < unat fin"
proof -
  let ?d = "unat fin - unat start" and ?p = "unat period"
  have "Suc k * ?p \<le> passes period start fin * ?p" using assms(1) by (intro mult_le_mono1) simp
  also have "\<dots> \<le> ?d + ?p - 1" unfolding passes_def by (rule div_times_less_eq_dividend)
  finally have k: "k * ?p < ?d" using assms(2) by simp
  then have f: "unat start + k * ?p < unat fin" by simp
  then have le: "unat start + k * ?p < 18446744073709551616" by (rule less_trans) simp
  have "release_at start period k = of_nat (unat start + k * ?p)"
    by (simp add: release_at_def)
  then have "unat (release_at start period k) = unat start + k * ?p"
    using le by (simp only: unat_of_nat_u64)
  with f show ?thesis by simp
qed

end
