(* ===== verification/Demo_Generators.thy ===== *)
theory Demo_Generators
  imports Pipeline_Stages Periodic
begin

text \<open>
  The sources of work of \<^verbatim>\<open>src/demo/slam_pipeline_demo.cpp\<close>: how a thread takes its name and
  scheduling policy, the periodic \<open>imu_thread\<close> that publishes its own hints, the camera generator with
  its synthetic burst, and the lidar generator. An \<open>int\<close> option is an \<open>int\<close> here and converted where
  the code converts it; \<open>None\<close> of a start is \<open>_exit(EXIT_FAILURE)\<close>, \<open>None\<close> of a loop means that the
  readings or the fuel ended before the loop did.
\<close>

section \<open>Starting a thread\<close>

definition set_thread_name :: "int \<Rightarrow> unit option" where
  "set_thread_name rc = (if rc \<noteq> 0 then None else Some ())"

definition set_sched_ext_policy :: "int \<Rightarrow> int \<Rightarrow> int option" where
  "set_sched_ext_policy policy rc = (if policy < 0 then Some 0 else if rc \<noteq> 0 then None else Some 0)"

text \<open>The first lines of \<open>stage_worker\<close>: the identity stored for the producers.\<close>

definition stage_start :: "int \<Rightarrow> int \<Rightarrow> int \<Rightarrow> u64 \<Rightarrow> u64 option" where
  "stage_start name_rc ext_policy sched_rc self =
     (case set_thread_name name_rc of
        None \<Rightarrow> None
      | Some _ \<Rightarrow> (case set_sched_ext_policy ext_policy sched_rc of None \<Rightarrow> None | Some _ \<Rightarrow> Some self))"

definition imu_start ::
  "int \<Rightarrow> int \<Rightarrow> int \<Rightarrow> int \<Rightarrow> u64 \<Rightarrow> stage_stats \<Rightarrow> (u64 \<times> stage_stats) option" where
  "imu_start name_rc ext_policy sched_rc actual self st =
     (case stage_start name_rc ext_policy sched_rc self of
        None \<Rightarrow> None
      | Some pid \<Rightarrow>
          if actual < 0 \<or> (ext_policy \<ge> 0 \<and> actual \<noteq> ext_policy) then None
          else Some (pid, st\<lparr>st_actual_policy := actual\<rparr>))"

text \<open>\<open>wait_for_pid\<close>: whether one of the first 2000 loads sees the identity.\<close>

definition wait_for_pid :: "u64 list \<Rightarrow> bool" where
  "wait_for_pid loads = list_ex (\<lambda>pid. pid \<noteq> 0) (take 2000 loads)"

section \<open>The IMU thread\<close>

record imu_env =
  im_t0 :: u64
  im_readings :: work_readings
  im_end :: u64

record 's imu_state =
  is_seq :: u64
  is_hints :: 's
  is_stats :: stage_stats
  is_envs :: "imu_env list"

definition imu_hint :: "stage_cfg \<Rightarrow> u64 \<Rightarrow> u64 \<Rightarrow> fresh_task_hint" where
  "imu_hint cfg n release = hint_zero\<lparr>h_stage_id := sc_stage_id cfg, h_class_id := sc_class_id cfg,
     h_job_id := n, h_release_ts_ns := release,
     h_deadline_ts_ns := (if sc_deadline_rel_ns cfg \<noteq> 0 then release + sc_deadline_rel_ns cfg else 0),
     h_stale_ns := sc_stale_ns cfg, h_budget_ns := sc_budget_ns cfg, h_slice_ns := sc_slice_ns cfg,
     h_weight := sc_weight cfg\<rparr>"

text \<open>The counters of a tick: after the wake-up, and after the work.\<close>

definition imu_woken :: "u64 \<Rightarrow> stage_cfg \<Rightarrow> u64 \<Rightarrow> u64 \<Rightarrow> stage_stats \<Rightarrow> stage_stats" where
  "imu_woken cutoff cfg next t0 st =
     (let stale = (t0 > next \<and> t0 - next > sc_stale_ns cfg);
          win = st_window st
      in st\<lparr>st_stale_seen := st_stale_seen st + b2w stale,
           st_window := (if inside_window cutoff t0
             then win\<lparr>ws_started := ws_started win + 1, ws_stale_seen := ws_stale_seen win + b2w stale\<rparr>
             else win)\<rparr>)"

definition imu_finished :: "u64 \<Rightarrow> stage_cfg \<Rightarrow> u64 \<Rightarrow> u64 \<Rightarrow> stage_stats \<Rightarrow> stage_stats" where
  "imu_finished cutoff cfg next fin st =
     (let dl_abs = (if sc_deadline_rel_ns cfg \<noteq> 0 then next + sc_deadline_rel_ns cfg else 0);
          late = (dl_abs \<noteq> 0 \<and> fin > dl_abs);
          win = st_window st
      in st\<lparr>st_processed := st_processed st + 1, st_late := st_late st + b2w late,
           st_window := (if inside_window cutoff fin
             then win\<lparr>ws_completed := ws_completed win + 1, ws_late := ws_late win + b2w late\<rparr>
             else win)\<rparr>)"

definition imu_tick ::
  "u64 \<Rightarrow> stage_cfg \<Rightarrow> bool \<Rightarrow> 's publisher \<Rightarrow> u64 \<Rightarrow> u64 \<Rightarrow> u64 \<Rightarrow> 's imu_state \<Rightarrow> 's imu_state option" where
  "imu_tick cutoff cfg mapped pub self work_us next s =
     (case is_envs s of
        [] \<Rightarrow> None
      | e # es \<Rightarrow>
          (let hints = (if mapped then snd (pub self (imu_hint cfg (is_seq s) next) (is_hints s))
                        else is_hints s);
               st1 = imu_woken cutoff cfg next (im_t0 e) (is_stats s)
           in case measured_work_us cutoff work_us (im_readings e) (st_window st1) of
                None \<Rightarrow> None
              | Some (used, win) \<Rightarrow>
                  Some \<lparr>is_seq = is_seq s + 1, is_hints = hints,
                    is_stats = imu_finished cutoff cfg next (im_end e)
                      (st1\<lparr>st_cpu_ns := st_cpu_ns st1 + used, st_window := win\<rparr>),
                    is_envs = es\<rparr>))"

text \<open>\<open>imu_hz\<close> is 200, so the period is 5 ms.\<close>

definition imu_period_ns :: u64 where "imu_period_ns = 5000000"

definition imu_thread ::
  "nat \<Rightarrow> u64 \<Rightarrow> stage_cfg \<Rightarrow> bool \<Rightarrow> 's publisher \<Rightarrow> u64 \<Rightarrow> u64 \<Rightarrow> int \<Rightarrow> u64 \<Rightarrow> imu_env list \<Rightarrow> 's \<Rightarrow>
   stage_stats \<Rightarrow> 's imu_state option" where
  "imu_thread fuel cutoff cfg mapped pub self work_us duration_s start envs h st =
     periodic fuel (imu_tick cutoff cfg mapped pub self work_us) imu_period_ns
       (start + of_int duration_s * 1000000000) start
       \<lparr>is_seq = 1, is_hints = h, is_stats = st, is_envs = envs\<rparr>"

section \<open>The camera generator\<close>

definition camera_period_ns :: u64 where "camera_period_ns = 33000000"

definition camera_burst_delivery_index :: "int \<Rightarrow> u64" where
  "camera_burst_delivery_index camera_burst_at_ms =
     (of_int camera_burst_at_ms * 1000000 + camera_period_ns - 1) div camera_period_ns"

definition camera_frame_count :: "int \<Rightarrow> u64" where
  "camera_frame_count duration_s =
     (of_int duration_s * 1000000000 + camera_period_ns - 1) div camera_period_ns"

text \<open>The checks of \<open>main\<close> on the durations and on the burst.\<close>

definition durations_ok :: "int \<Rightarrow> int \<Rightarrow> int \<Rightarrow> int \<Rightarrow> bool" where
  "durations_ok duration_s hog_n camera_burst_count camera_burst_at_ms \<longleftrightarrow>
     \<not> (duration_s \<le> 0 \<or> hog_n < 0 \<or> camera_burst_count < 0 \<or> camera_burst_at_ms < 0)"

definition camera_burst_ok :: "int \<Rightarrow> int \<Rightarrow> int \<Rightarrow> bool" where
  "camera_burst_ok duration_s camera_burst_count camera_burst_at_ms \<longleftrightarrow>
     \<not> (camera_burst_count > 0 \<and>
        (camera_burst_delivery_index camera_burst_at_ms \<ge> camera_frame_count duration_s \<or>
         of_int camera_burst_count > camera_burst_delivery_index camera_burst_at_ms + 1))"

text \<open>What is pushed is paired with the release at which the push is made.\<close>

record camera_state =
  cg_seq :: u64
  cg_frame_index :: u64
  cg_held :: "work_item list"
  cg_pushed :: "(u64 \<times> work_item) list"
  cg_generated :: u64

definition burst_first_index :: "int \<Rightarrow> int \<Rightarrow> u64" where
  "burst_first_index camera_burst_count camera_burst_at_ms =
     (if camera_burst_count > 0
      then camera_burst_delivery_index camera_burst_at_ms + 1 - of_int camera_burst_count else 0)"

definition camera_body ::
  "int \<Rightarrow> u64 \<Rightarrow> u64 \<Rightarrow> u64 \<Rightarrow> camera_state \<Rightarrow> camera_state option" where
  "camera_body camera_burst_count burst_first delivery release s =
     (let w = \<lparr>wi_seq = cg_seq s, wi_ts_ns = release, wi_kind = 1, wi_points = 0, wi_burst_id = 0\<rparr>;
          i = cg_frame_index s;
          in_burst = (camera_burst_count > 0 \<and> i \<ge> burst_first \<and> i \<le> delivery);
          s1 = s\<lparr>cg_seq := cg_seq s + 1, cg_frame_index := i + 1\<rparr>
      in Some
        (if in_burst then
           (let held = cg_held s @ [w\<lparr>wi_burst_id := 1\<rparr>]
            in if i = delivery
               then s1\<lparr>cg_held := [], cg_pushed := cg_pushed s @ map (Pair release) held,
                      cg_generated := cg_generated s + vsize held\<rparr>
               else s1\<lparr>cg_held := held\<rparr>)
         else s1\<lparr>cg_pushed := cg_pushed s @ [(release, w)], cg_generated := cg_generated s + 1\<rparr>))"

definition camera_gen :: "nat \<Rightarrow> int \<Rightarrow> int \<Rightarrow> int \<Rightarrow> u64 \<Rightarrow> camera_state option" where
  "camera_gen fuel duration_s camera_burst_count camera_burst_at_ms start =
     periodic fuel
       (camera_body camera_burst_count (burst_first_index camera_burst_count camera_burst_at_ms)
          (camera_burst_delivery_index camera_burst_at_ms))
       camera_period_ns (start + of_int duration_s * 1000000000) start
       \<lparr>cg_seq = 1, cg_frame_index = 0, cg_held = [], cg_pushed = [], cg_generated = 0\<rparr>"

section \<open>The lidar generator\<close>

definition lidar_points_for_mode :: "string \<Rightarrow> u32" where
  "lidar_points_for_mode mode =
     (if mode = ''light'' then 50000 else if mode = ''mid'' then 150000
      else if mode = ''heavy'' then 300000 else 0)"

record lidar_state =
  lg_seq :: u64
  lg_pushed :: "work_item list"
  lg_generated :: u64

definition lidar_body :: "u32 \<Rightarrow> u64 \<Rightarrow> lidar_state \<Rightarrow> lidar_state option" where
  "lidar_body lidar_points release s =
     Some \<lparr>lg_seq = lg_seq s + 1,
       lg_pushed = lg_pushed s @ [\<lparr>wi_seq = lg_seq s, wi_ts_ns = release, wi_kind = 2,
         wi_points = lidar_points, wi_burst_id = 0\<rparr>],
       lg_generated = lg_generated s + 1\<rparr>"

definition lidar_period_ns :: u64 where "lidar_period_ns = 100000000"

definition lidar_gen :: "nat \<Rightarrow> int \<Rightarrow> string \<Rightarrow> u64 \<Rightarrow> lidar_state option" where
  "lidar_gen fuel duration_s mode start =
     (if lidar_points_for_mode mode = 0 then Some \<lparr>lg_seq = 1, lg_pushed = [], lg_generated = 0\<rparr>
      else periodic fuel (lidar_body (lidar_points_for_mode mode)) lidar_period_ns
             (start + of_int duration_s * 1000000000) start
             \<lparr>lg_seq = 1, lg_pushed = [], lg_generated = 0\<rparr>)"

section \<open>Lemmas\<close>

text \<open>A loop over a duration in seconds: its end does not wrap and its passes are counted in nanoseconds.\<close>

definition fits :: "u64 \<Rightarrow> int \<Rightarrow> u64 \<Rightarrow> bool" where
  "fits start duration_s period \<longleftrightarrow> 0 < duration_s \<and>
     unat start + nat duration_s * 1000000000 + unat period \<le> 18446744073709551616"

lemma fits_end:
  assumes "fits start duration_s period" and "0 < unat period"
  shows "unat (start + of_int duration_s * 1000000000) = unat start + nat duration_s * 1000000000"
proof -
  have "start + of_int duration_s * 1000000000 = of_nat (unat start + nat duration_s * 1000000000)"
    using assms(1) by (simp add: fits_def)
  moreover have "unat start + nat duration_s * 1000000000 < 18446744073709551616"
    using assms by (simp add: fits_def)
  ultimately show ?thesis by (simp only: unat_of_nat_u64)
qed

lemma fits_passes:
  assumes "fits start duration_s period" and "0 < unat period"
  shows "passes period start (start + of_int duration_s * 1000000000) =
    (nat duration_s * 1000000000 + unat period - 1) div unat period"
  unfolding passes_def fits_end [OF assms] by simp

lemma fits_periodic:
  assumes "fits start duration_s period" and "0 < unat period"
    and "n = (nat duration_s * 1000000000 + unat period - 1) div unat period" and "n < fuel"
  shows "periodic fuel body period (start + of_int duration_s * 1000000000) start s =
    run_bodies body (map (release_at start period) [0..<n]) s"
proof -
  have "unat (start + of_int duration_s * 1000000000) + unat period \<le> 18446744073709551616"
    using assms(1) unfolding fits_end [OF assms(1,2)] by (simp add: fits_def)
  from periodic_run [OF assms(2) this, of start fuel] assms(3,4) show ?thesis
    by (simp add: fits_passes [OF assms(1,2)])
qed

subsection \<open>Camera\<close>

definition camera_frame :: "int \<Rightarrow> nat \<Rightarrow> nat \<Rightarrow> u64 \<Rightarrow> nat \<Rightarrow> work_item" where
  "camera_frame camera_burst_count burst_first delivery start i =
     \<lparr>wi_seq = of_nat (Suc i), wi_ts_ns = release_at start camera_period_ns i, wi_kind = 1, wi_points = 0,
      wi_burst_id = (if camera_burst_count > 0 \<and> burst_first \<le> i \<and> i \<le> delivery then 1 else 0)\<rparr>"

text \<open>The frames visible to the queue after \<open>k\<close> passes: those of a burst under way are held.\<close>

definition delivered :: "int \<Rightarrow> nat \<Rightarrow> nat \<Rightarrow> nat \<Rightarrow> nat" where
  "delivered camera_burst_count burst_first delivery k =
     (if camera_burst_count > 0 \<and> burst_first < k \<and> k \<le> delivery then burst_first else k)"

definition camera_push :: "int \<Rightarrow> nat \<Rightarrow> nat \<Rightarrow> u64 \<Rightarrow> nat \<Rightarrow> u64 \<times> work_item" where
  "camera_push camera_burst_count burst_first delivery start i =
     (release_at start camera_period_ns
        (if camera_burst_count > 0 \<and> burst_first \<le> i \<and> i \<le> delivery then delivery else i),
      camera_frame camera_burst_count burst_first delivery start i)"

definition camera_invar :: "int \<Rightarrow> nat \<Rightarrow> nat \<Rightarrow> u64 \<Rightarrow> nat \<Rightarrow> camera_state \<Rightarrow> bool" where
  "camera_invar c f d start k s \<longleftrightarrow>
     cg_seq s = of_nat (Suc k) \<and> cg_frame_index s = of_nat k \<and>
     cg_held s = map (camera_frame c f d start) [delivered c f d k..<k] \<and>
     cg_pushed s = map (camera_push c f d start) [0..<delivered c f d k] \<and>
     cg_generated s = of_nat (delivered c f d k)"

lemma camera_step:
  assumes "camera_invar c (unat f) (unat d) start k s" and "k < 18446744073709551615" and "f \<le> d"
  shows "\<exists>t. camera_body c f d (release_at start camera_period_ns k) s = Some t \<and>
    camera_invar c (unat f) (unat d) start (Suc k) t"
proof -
  let ?F = "unat f" and ?D = "unat d"
  have k: "unat (of_nat k :: u64) = k" using assms(2) by (simp add: unat_of_nat_u64)
  have cmp: "f \<le> of_nat k \<longleftrightarrow> ?F \<le> k" "of_nat k \<le> d \<longleftrightarrow> k \<le> ?D" "of_nat k = d \<longleftrightarrow> k = ?D"
    by (simp_all add: word_le_nat_alt word_unat_eq_iff k)
  have fd: "?F \<le> ?D" using assms(3) by (simp add: word_le_nat_alt)
  note inv = assms(1) [unfolded camera_invar_def]
  consider (plain) "\<not> (c > 0 \<and> ?F \<le> k \<and> k \<le> ?D)" | (hold) "c > 0" "?F \<le> k" "k < ?D"
    | (deliver) "c > 0" "?F \<le> k" "k = ?D" by linarith
  then show ?thesis
  proof cases
    case plain
    then have dl: "delivered c ?F ?D k = k" "delivered c ?F ?D (Suc k) = Suc k"
      by (auto simp: delivered_def)
    from plain have fr: "camera_frame c ?F ?D start k = \<lparr>wi_seq = of_nat (Suc k),
        wi_ts_ns = release_at start camera_period_ns k, wi_kind = 1, wi_points = 0, wi_burst_id = 0\<rparr>"
      "camera_push c ?F ?D start k = (release_at start camera_period_ns k, camera_frame c ?F ?D start k)"
      by (auto simp: camera_frame_def camera_push_def)
    from plain inv dl show ?thesis
      by (auto simp: camera_invar_def camera_body_def Let_def cmp fr)
  next
    case hold
    then have dl: "delivered c ?F ?D k = ?F" "delivered c ?F ?D (Suc k) = ?F"
      by (auto simp: delivered_def)
    from hold have fr: "camera_frame c ?F ?D start k = \<lparr>wi_seq = of_nat (Suc k),
        wi_ts_ns = release_at start camera_period_ns k, wi_kind = 1, wi_points = 0, wi_burst_id = 1\<rparr>"
      by (simp add: camera_frame_def)
    from hold inv dl show ?thesis
      by (simp add: camera_invar_def camera_body_def Let_def cmp fr)
  next
    case deliver
    then have dl: "delivered c ?F ?D k = ?F" "delivered c ?F ?D (Suc k) = Suc k"
      by (auto simp: delivered_def)
    from deliver have fr: "camera_frame c ?F ?D start k = \<lparr>wi_seq = of_nat (Suc k),
        wi_ts_ns = release_at start camera_period_ns k, wi_kind = 1, wi_points = 0, wi_burst_id = 1\<rparr>"
      by (simp add: camera_frame_def)
    have split: "[0..<Suc k] = [0..<?F] @ [?F..<Suc k]"
      using deliver by (metis le_SucI le_add_diff_inverse upt_add_eq_append zero_le)
    have burst: "map (camera_push c ?F ?D start) [?F..<Suc k] =
        map (Pair (release_at start camera_period_ns k)) (map (camera_frame c ?F ?D start) [?F..<Suc k])"
      using deliver by (auto simp: camera_push_def simp del: upt_Suc)
    have gen: "(of_nat ?F :: u64) + of_nat (Suc k - ?F) = of_nat (Suc k)"
      using deliver by (metis le_SucI le_add_diff_inverse of_nat_add)
    have tests: "f \<le> of_nat k" "of_nat k = d" using cmp deliver by simp_all
    have held: "cg_held s @ [(\<lparr>wi_seq = cg_seq s, wi_ts_ns = release_at start camera_period_ns k,
        wi_kind = 1, wi_points = 0, wi_burst_id = 0\<rparr>)\<lparr>wi_burst_id := 1\<rparr>] =
        map (camera_frame c ?F ?D start) [?F..<Suc k]"
      using inv dl(1) deliver(2) by (simp add: fr)
    have "camera_body c f d (release_at start camera_period_ns k) s =
        Some (s\<lparr>cg_seq := cg_seq s + 1, cg_frame_index := cg_frame_index s + 1, cg_held := [],
          cg_pushed := cg_pushed s @ map (Pair (release_at start camera_period_ns k))
            (map (camera_frame c ?F ?D start) [?F..<Suc k]),
          cg_generated := cg_generated s + vsize (map (camera_frame c ?F ?D start) [?F..<Suc k])\<rparr>)"
      unfolding held [symmetric] using inv tests deliver(1) by (simp add: camera_body_def Let_def)
    with inv dl gen show ?thesis
      by (simp add: camera_invar_def vsize_def split burst del: upt_Suc map_map)
  qed
qed

lemma unat_div_ns:
  assumes "n * c + p < 18446744073709551616" and "0 < p"
  shows "unat ((of_nat n * of_nat c + of_nat p - 1) div of_nat p :: u64) = (n * c + p - 1) div p"
proof -
  have "(of_nat n * of_nat c + of_nat p - 1 :: u64) = of_nat (n * c + p - 1)"
    using assms(2) by (simp add: of_nat_diff)
  moreover have "unat (of_nat (n * c + p - 1) :: u64) = n * c + p - 1" "unat (of_nat p :: u64) = p"
    using assms(1) by (simp_all add: unat_of_nat_u64 del: of_nat_diff)
  ultimately show ?thesis by (simp only: unat_div)
qed

lemma camera_frame_count_exact:
  assumes "0 < duration_s" and "duration_s \<le> 2147483647"
  shows "unat (camera_frame_count duration_s) = (nat duration_s * 1000000000 + 33000000 - 1) div 33000000"
proof -
  have "nat duration_s * 1000000000 + 33000000 < 18446744073709551616" using assms by simp
  from unat_div_ns [OF this] assms(1) show ?thesis
    by (simp add: camera_frame_count_def camera_period_ns_def)
qed

lemma burst_first_le:
  assumes "camera_burst_ok duration_s c at_ms" and "0 \<le> c" and "c \<le> 2147483647"
  shows "burst_first_index c at_ms \<le> camera_burst_delivery_index at_ms"
proof (cases "c > 0")
  case True
  let ?d = "camera_burst_delivery_index at_ms"
  have c: "of_int c \<le> ?d + 1" "?d < camera_frame_count duration_s"
    using True assms(1) by (auto simp: camera_burst_ok_def)
  have i: "(of_int c :: u64) = of_nat (nat c)" using True by simp
  have u: "unat (of_int c :: u64) = nat c" unfolding i using assms(3) by (simp add: unat_of_nat_u64)
  have "unat ?d + 1 < 18446744073709551616"
    using c(2) unat_u64_less [of "camera_frame_count duration_s"] unfolding word_less_nat_alt by linarith
  then have d: "unat (?d + 1) = unat ?d + 1" using unat_add_u64 [of ?d 1] by simp
  have "unat (?d + 1 - of_int c) = unat ?d + 1 - nat c" using unat_sub_u64 [OF c(1)] by (simp add: d u)
  then show ?thesis using True by (simp add: burst_first_index_def word_le_nat_alt)
qed (simp add: burst_first_index_def)

subsection \<open>IMU\<close>

text \<open>Readings with which the work of a tick returns, whatever the counters are.\<close>

definition work_returns :: "u64 \<Rightarrow> u64 \<Rightarrow> imu_env \<Rightarrow> bool" where
  "work_returns cutoff work_us e \<longleftrightarrow> (\<forall>win. measured_work_us cutoff work_us (im_readings e) win \<noteq> None)"

definition imu_hints :: "stage_cfg \<Rightarrow> 's publisher \<Rightarrow> u64 \<Rightarrow> u64 \<Rightarrow> nat \<Rightarrow> 's \<Rightarrow> 's" where
  "imu_hints cfg pub self start n h =
     fold (\<lambda>k h. snd (pub self (imu_hint cfg (of_nat (Suc k)) (release_at start imu_period_ns k)) h))
       [0..<n] h"

lemma imu_tick_step:
  assumes "is_envs s = e # es" and "work_returns cutoff work_us e"
  shows "\<exists>t. imu_tick cutoff cfg mapped pub self work_us next s = Some t \<and> is_seq t = is_seq s + 1 \<and>
    is_envs t = es \<and> st_processed (is_stats t) = st_processed (is_stats s) + 1 \<and>
    st_actual_policy (is_stats t) = st_actual_policy (is_stats s) \<and>
    is_hints t = (if mapped then snd (pub self (imu_hint cfg (is_seq s) next) (is_hints s)) else is_hints s)"
proof -
  let ?st = "imu_woken cutoff cfg next (im_t0 e) (is_stats s)"
  obtain used win where "measured_work_us cutoff work_us (im_readings e) (st_window ?st) = Some (used, win)"
    using assms(2) by (cases "measured_work_us cutoff work_us (im_readings e) (st_window ?st)")
      (auto simp: work_returns_def simp del: not_None_eq split_paired_Ex)
  then show ?thesis
    by (simp add: imu_tick_def assms(1) Let_def imu_finished_def imu_woken_def)
qed

lemma camera_gen_delivers:
  assumes "durations_ok duration_s hog_n count at_ms" and "camera_burst_ok duration_s count at_ms"
    and "duration_s \<le> 2147483647" and "count \<le> 2147483647"
    and "fits start duration_s camera_period_ns"
    and "n = unat (camera_frame_count duration_s)" and "n < fuel"
    and "f = unat (burst_first_index count at_ms)" and "d = unat (camera_burst_delivery_index at_ms)"
  shows "\<exists>s. camera_gen fuel duration_s count at_ms start = Some s \<and> cg_held s = [] \<and>
    cg_generated s = camera_frame_count duration_s \<and>
    cg_pushed s = map (camera_push count f d start) [0..<n]"
proof -
  let ?body = "camera_body count (burst_first_index count at_ms) (camera_burst_delivery_index at_ms)"
  let ?s = "\<lparr>cg_seq = 1, cg_frame_index = 0, cg_held = [], cg_pushed = [], cg_generated = 0\<rparr>"
  have pos: "0 < duration_s" "0 \<le> count" "0 < unat camera_period_ns"
    using assms(1) by (simp_all add: durations_ok_def camera_period_ns_def)
  have n: "n = (nat duration_s * 1000000000 + unat camera_period_ns - 1) div unat camera_period_ns"
    using camera_frame_count_exact [OF pos(1) assms(3)] by (simp add: assms(6) camera_period_ns_def)
  have "\<exists>t. run_bodies ?body (map (release_at start camera_period_ns) [0..<n]) ?s = Some t \<and>
      camera_invar count f d start n t"
  proof (rule run_bodies_invar)
    show "camera_invar count f d start 0 ?s" by (simp add: camera_invar_def delivered_def)
  next
    fix k s
    assume k: "k < n" and inv: "camera_invar count f d start k s"
    have "k < 18446744073709551615" using k assms(6) unat_u64_less [of "camera_frame_count duration_s"] by linarith
    from camera_step [OF inv [unfolded assms(8,9)] this burst_first_le [OF assms(2) pos(2) assms(4)]]
    show "\<exists>t. ?body (release_at start camera_period_ns k) s = Some t \<and> camera_invar count f d start (Suc k) t"
      unfolding assms(8,9) .
  qed
  moreover have "camera_gen fuel duration_s count at_ms start =
      run_bodies ?body (map (release_at start camera_period_ns) [0..<n]) ?s"
    unfolding camera_gen_def by (rule fits_periodic [OF assms(5) pos(3) n assms(7)])
  moreover have "delivered count f d n = n"
    using assms(2,6,9) by (auto simp: delivered_def camera_burst_ok_def word_le_nat_alt)
  ultimately show ?thesis by (auto simp: camera_invar_def assms(6))
qed

section \<open>Properties\<close>

text \<open>
  C29: The camera generator offers the same frames whatever the burst: with options that \<open>main\<close> accepts it
  ends, having pushed every frame of the run exactly once, numbered and stamped by its release, in
  order, with nothing left in the held burst; the count printed as generated is the frame count. The
  frames of a burst are marked, and they are pushed together at the release of the delivery frame.
\<close>

theorem camera_delivers:
  assumes "durations_ok duration_s hog_n count at_ms" and "camera_burst_ok duration_s count at_ms"
    and "duration_s \<le> 2147483647" and "count \<le> 2147483647"
    and "fits start duration_s camera_period_ns"
    and "n = unat (camera_frame_count duration_s)" and "n < fuel"
    and "f = unat (burst_first_index count at_ms)" and "d = unat (camera_burst_delivery_index at_ms)"
  shows "\<exists>s. camera_gen fuel duration_s count at_ms start = Some s \<and> cg_held s = [] \<and>
    cg_generated s = camera_frame_count duration_s \<and>
    cg_pushed s = map (camera_push count f d start) [0..<n]"
  by (rule camera_gen_delivers [OF assms])

text \<open>The ticks of the IMU thread, from any statistics.\<close>

lemma imu_ticks_from:
  fixes h :: 's
  assumes "fits start duration_s imu_period_ns" and "n = nat duration_s * 200" and "n < fuel"
    and "length envs = n" and "\<forall>e \<in> set envs. work_returns cutoff work_us e"
  shows "\<exists>s. imu_thread fuel cutoff cfg mapped pub self work_us duration_s start envs h st = Some s \<and>
    st_processed (is_stats s) = st_processed st + of_nat n \<and>
    st_actual_policy (is_stats s) = st_actual_policy st \<and> is_seq s = of_nat (Suc n) \<and>
    is_hints s = (if mapped then imu_hints cfg pub self start n h else h)"
proof -
  let ?body = "imu_tick cutoff cfg mapped pub self work_us"
  let ?s = "\<lparr>is_seq = 1, is_hints = h, is_stats = st, is_envs = envs\<rparr>"
  let ?I = "\<lambda>k (s :: 's imu_state). is_seq s = of_nat (Suc k) \<and> is_envs s = drop k envs \<and>
    st_processed (is_stats s) = st_processed st + of_nat k \<and>
    st_actual_policy (is_stats s) = st_actual_policy st \<and>
    is_hints s = (if mapped then imu_hints cfg pub self start k h else h)"
  have pos: "0 < unat imu_period_ns" by (simp add: imu_period_ns_def)
  have n: "n = (nat duration_s * 1000000000 + unat imu_period_ns - 1) div unat imu_period_ns"
    using assms(2) by (simp add: imu_period_ns_def)
  have "\<exists>t. run_bodies ?body (map (release_at start imu_period_ns) [0..<n]) ?s = Some t \<and> ?I n t"
  proof (rule run_bodies_invar)
    show "?I 0 ?s" by (simp add: imu_hints_def)
  next
    fix k s
    assume k: "k < n" and inv: "?I k s"
    have e: "is_envs s = envs ! k # drop (Suc k) envs" using k inv assms(4) by (simp add: Cons_nth_drop_Suc)
    have "work_returns cutoff work_us (envs ! k)" using k assms(4,5) by simp
    from imu_tick_step [OF e this, of cfg mapped pub self "release_at start imu_period_ns k"] inv
    show "\<exists>t. ?body (release_at start imu_period_ns k) s = Some t \<and> ?I (Suc k) t"
      by (auto simp: imu_hints_def algebra_simps)
  qed
  moreover have "imu_thread fuel cutoff cfg mapped pub self work_us duration_s start envs h st =
      run_bodies ?body (map (release_at start imu_period_ns) [0..<n]) ?s"
    unfolding imu_thread_def by (rule fits_periodic [OF assms(1) pos n assms(3)])
  ultimately show ?thesis by auto
qed

text \<open>
  The IMU thread processes exactly 200 ticks for each second of the duration, every tick numbered and
  released 5 ms after the one before, and before each of its sleeps it publishes the hint of the job it
  is about to be woken for, under its own identity; with a map that is not open it publishes nothing.
\<close>

theorem imu_ticks:
  fixes h :: 's
  assumes "fits start duration_s imu_period_ns" and "n = nat duration_s * 200" and "n < fuel"
    and "length envs = n" and "\<forall>e \<in> set envs. work_returns cutoff work_us e"
  shows "\<exists>s. imu_thread fuel cutoff cfg mapped pub self work_us duration_s start envs h stats_zero = Some s \<and>
    st_processed (is_stats s) = of_nat n \<and> is_seq s = of_nat (Suc n) \<and>
    is_hints s = (if mapped then imu_hints cfg pub self start n h else h)"
  using imu_ticks_from [OF assms, of cfg mapped pub self h stats_zero] by (auto simp: stats_zero_def)

text \<open>The lidar generator: ten scans for each second, in order, or none when the mode has no points.\<close>

definition lidar_scan :: "u32 \<Rightarrow> u64 \<Rightarrow> nat \<Rightarrow> work_item" where
  "lidar_scan points start i = \<lparr>wi_seq = of_nat (Suc i), wi_ts_ns = release_at start lidar_period_ns i,
     wi_kind = 2, wi_points = points, wi_burst_id = 0\<rparr>"

lemma lidar_delivers:
  assumes "fits start duration_s lidar_period_ns" and "lidar_points_for_mode mode \<noteq> 0"
    and "n = nat duration_s * 10" and "n < fuel"
  shows "\<exists>s. lidar_gen fuel duration_s mode start = Some s \<and> lg_generated s = of_nat n \<and>
    lg_pushed s = map (lidar_scan (lidar_points_for_mode mode) start) [0..<n]"
proof -
  let ?body = "lidar_body (lidar_points_for_mode mode)"
  let ?s = "\<lparr>lg_seq = 1, lg_pushed = [], lg_generated = 0\<rparr>"
  let ?I = "\<lambda>k (s :: lidar_state). lg_seq s = of_nat (Suc k) \<and> lg_generated s = of_nat k \<and>
    lg_pushed s = map (lidar_scan (lidar_points_for_mode mode) start) [0..<k]"
  have pos: "0 < unat lidar_period_ns" by (simp add: lidar_period_ns_def)
  have n: "n = (nat duration_s * 1000000000 + unat lidar_period_ns - 1) div unat lidar_period_ns"
    using assms(3) by (simp add: lidar_period_ns_def)
  have "\<exists>t. run_bodies ?body (map (release_at start lidar_period_ns) [0..<n]) ?s = Some t \<and> ?I n t"
    by (rule run_bodies_invar) (simp_all add: lidar_body_def lidar_scan_def)
  moreover have "lidar_gen fuel duration_s mode start =
      run_bodies ?body (map (release_at start lidar_period_ns) [0..<n]) ?s"
    using assms(2) fits_periodic [OF assms(1) pos n assms(4)] by (simp add: lidar_gen_def)
  ultimately show ?thesis by auto
qed

section \<open>Witnesses\<close>

theorem camera_delivers_witness:
  "\<exists>s. camera_gen 40 1 3 100 1000 = Some s \<and> cg_held s = [] \<and> cg_generated s = 31 \<and>
     fst (cg_pushed s ! 2) = 132001000 \<and> map (wi_burst_id \<circ> snd) (take 6 (cg_pushed s)) = [0, 0, 1, 1, 1, 0]"
proof -
  have v: "camera_frame_count 1 = 31" "camera_burst_delivery_index 100 = 4" "burst_first_index 3 100 = 2"
    by (simp_all add: camera_frame_count_def camera_burst_delivery_index_def burst_first_index_def
      camera_period_ns_def)
  have a: "durations_ok 1 0 3 100" "camera_burst_ok 1 3 100" "fits 1000 1 camera_period_ns"
    by (simp_all add: durations_ok_def camera_burst_ok_def fits_def camera_period_ns_def v word_le_nat_alt
      word_less_nat_alt)
  have n: "31 = unat (camera_frame_count 1)" "2 = unat (burst_first_index 3 100)"
    "4 = unat (camera_burst_delivery_index 100)" by (simp_all add: v)
  obtain s where "camera_gen 40 1 3 100 1000 = Some s" "cg_held s = []"
    "cg_generated s = camera_frame_count 1" "cg_pushed s = map (camera_push 3 2 4 1000) [0..<31]"
    using camera_delivers [OF a(1,2) _ _ a(3) n(1) _ n(2,3), of 40] by auto
  then show ?thesis
    by (simp add: v camera_push_def camera_frame_def release_at_def camera_period_ns_def upt_rec)
qed

theorem imu_ticks_witness:
  "\<exists>s. imu_thread 300 0 demo_cfg True map_write 77 0 1 1000
     (replicate 200 \<lparr>im_t0 = 0, im_readings = Plain [0, 0, 0, 0], im_end = 0\<rparr>) (\<lambda>_. None) stats_zero = Some s \<and>
   st_processed (is_stats s) = 200"
proof -
  let ?e = "\<lparr>im_t0 = 0, im_readings = Plain [0, 0, 0, 0], im_end = 0\<rparr>"
  have w: "\<forall>e \<in> set (replicate 200 ?e). work_returns 0 0 e"
    by (simp add: work_returns_def measured_work_us_def busy_work_us_def)
  have f: "fits 1000 1 imu_period_ns" "(200 :: nat) = nat 1 * 200"
    by (simp_all add: fits_def imu_period_ns_def)
  show ?thesis
    using imu_ticks [OF f _ _ w, of 300 demo_cfg True map_write 77 "\<lambda>_. None"] by auto
qed

end
