(* ===== verification/Number_Parsing.thy ===== *)
theory Number_Parsing
  imports Prelude "HOL-Library.Monad_Syntax"
begin

text \<open>
  The number parsers of the C and C++ libraries that the programs call on their arguments and on the
  source index: \<open>strtoull\<close>, \<open>strtoul\<close>, \<open>strtol\<close>, \<open>atoi\<close> (of glibc), \<open>std::stoi\<close> and
  \<open>operator>>\<close> of a \<open>std::ifstream\<close> into a \<open>uint64_t\<close> (of libstdc++, in the C locale). A string is the
  characters before the terminating NUL. Decimal printing is here too, with the round trips.
\<close>

section \<open>Scanning\<close>

definition is_space :: "char \<Rightarrow> bool" where
  "is_space c \<longleftrightarrow> c \<in> {CHR '' '', CHR 0x09, CHR 0x0A, CHR 0x0B, CHR 0x0C, CHR 0x0D}"

definition digit_of :: "char \<Rightarrow> nat" where
  "digit_of c = of_char c - 48"

definition is_digit :: "char \<Rightarrow> bool" where
  "is_digit c \<longleftrightarrow> 48 \<le> (of_char c :: nat) \<and> (of_char c :: nat) \<le> 57"

definition digits_val :: "string \<Rightarrow> nat" where
  "digits_val ds = foldl (\<lambda>a c. 10 * a + digit_of c) 0 ds"

text \<open>White space, an optional sign, digits: the sign, the number and what follows it.\<close>

fun after_sign :: "string \<Rightarrow> bool \<times> string" where
  "after_sign (c # cs) =
     (if c = CHR ''-'' then (True, cs) else if c = CHR ''+'' then (False, cs) else (False, c # cs))"
| "after_sign [] = (False, [])"

definition strto_scan :: "string \<Rightarrow> (bool \<times> nat \<times> string) option" where
  "strto_scan s =
     (let (neg, t) = after_sign (dropWhile is_space s); ds = takeWhile is_digit t
      in if ds = [] then None else Some (neg, digits_val ds, dropWhile is_digit t))"

section \<open>The parsers\<close>

definition ULLONG_MAX :: nat where "ULLONG_MAX = 18446744073709551615"
definition LONG_MAX :: int where "LONG_MAX = 9223372036854775807"
definition LONG_MIN :: int where "LONG_MIN = -9223372036854775808"
definition INT_MAX :: int where "INT_MAX = 2147483647"
definition INT_MIN :: int where "INT_MIN = -2147483648"

text \<open>The number, what \<open>endptr\<close> points to, and whether \<open>errno\<close> is set to \<open>ERANGE\<close>.\<close>

definition strtoull :: "string \<Rightarrow> u64 \<times> string \<times> bool" where
  "strtoull s =
     (case strto_scan s of
        None \<Rightarrow> (0, s, False)
      | Some (neg, n, rest) \<Rightarrow>
          if n > ULLONG_MAX then (- 1, rest, True)
          else (if neg then - of_nat n else of_nat n, rest, False))"

definition strtol :: "string \<Rightarrow> int \<times> string \<times> bool" where
  "strtol s =
     (case strto_scan s of
        None \<Rightarrow> (0, s, False)
      | Some (neg, n, rest) \<Rightarrow>
          (let v = (if neg then - int n else int n)
           in if v > LONG_MAX then (LONG_MAX, rest, True)
              else if v < LONG_MIN then (LONG_MIN, rest, True) else (v, rest, False)))"

text \<open>\<open>atoi\<close> converts the result of \<open>strtol\<close> to 32 bits.\<close>

definition atoi :: "string \<Rightarrow> int" where
  "atoi s = (fst (strtol s) - INT_MIN) mod 4294967296 + INT_MIN"

text \<open>\<open>std::stoi\<close>: the number and how many characters were used, or an exception.\<close>

definition stoi :: "string \<Rightarrow> (int \<times> nat) res" where
  "stoi s =
     (case strto_scan s of
        None \<Rightarrow> Inl (Invalid_argument ''stoi'')
      | Some _ \<Rightarrow>
          (let (v, rest, erange) = strtol s
           in if erange \<or> v < INT_MIN \<or> v > INT_MAX then Inl (Runtime_error ''stoi: out of range'')
              else Inr (v, length s - length rest)))"

text \<open>
  \<open>input >> x\<close>: the rest of the stream, and \<open>None\<close> for \<open>failbit\<close>. \<open>eofbit\<close> is set exactly when the
  rest is empty. Digits are consumed even when the number does not fit, and a sign wraps around.
\<close>

definition stream_read :: "string \<Rightarrow> u64 option \<times> string" where
  "stream_read s =
     (let (neg, t) = after_sign (dropWhile is_space s);
          ds = takeWhile is_digit t; rest = dropWhile is_digit t
      in if ds = [] then (None, rest)
         else if digits_val ds > ULLONG_MAX then (None, rest)
         else (Some (if neg then - of_nat (digits_val ds) else of_nat (digits_val ds)), rest))"

section \<open>Decimal printing\<close>

definition digit_char :: "nat \<Rightarrow> char" where
  "digit_char d = char_of (48 + d)"

function show_nat :: "nat \<Rightarrow> string" where
  "show_nat n = (if n < 10 then [digit_char n] else show_nat (n div 10) @ [digit_char (n mod 10)])"
  by auto
termination
  by (relation "measure id") auto

declare show_nat.simps [simp del]

definition show_u64 :: "u64 \<Rightarrow> string" where
  "show_u64 x = show_nat (unat x)"

section \<open>Lemmas\<close>

lemma of_char_digit: "d < 10 \<Longrightarrow> of_char (digit_char d) = 48 + d"
  unfolding digit_char_def by (simp add: of_char_of)

lemma digit_char_props:
  assumes "d < 10"
  shows "is_digit (digit_char d)" and "digit_of (digit_char d) = d"
  using of_char_digit [OF assms] assms by (simp_all add: is_digit_def digit_of_def)

lemma digit_not_special:
  assumes "is_digit c"
  shows "\<not> is_space c" and "c \<noteq> CHR ''-''" and "c \<noteq> CHR ''+''"
  using assms by (auto simp: is_digit_def is_space_def)

lemma digits_val_snoc: "digits_val (ds @ [c]) = 10 * digits_val ds + digit_of c"
  by (simp add: digits_val_def)

lemma show_nat_digits: "\<forall>c \<in> set (show_nat n). is_digit c"
proof (induction n rule: show_nat.induct)
  case (1 n)
  then show ?case by (subst show_nat.simps) (auto simp: digit_char_props)
qed

lemma show_nat_nonempty: "show_nat n \<noteq> []"
  by (subst show_nat.simps) simp

lemma show_nat_val: "digits_val (show_nat n) = n"
proof (induction n rule: show_nat.induct)
  case (1 n)
  show ?case
  proof (cases "n < 10")
    case True
    then show ?thesis by (subst show_nat.simps) (simp add: digits_val_def digit_char_props)
  next
    case False
    with 1 show ?thesis by (subst show_nat.simps) (simp add: digits_val_snoc digit_char_props)
  qed
qed

definition ends_number :: "string \<Rightarrow> bool" where
  "ends_number rest \<longleftrightarrow> rest = [] \<or> \<not> is_digit (hd rest)"

lemma after_number:
  assumes "ends_number rest"
  shows "takeWhile is_digit (show_nat n @ rest) = show_nat n"
    and "dropWhile is_digit (show_nat n @ rest) = rest"
  using assms show_nat_digits [of n]
  by (cases rest; simp add: ends_number_def takeWhile_append2 dropWhile_append2)+

lemma before_number:
  "after_sign (dropWhile is_space (show_nat n @ rest)) = (False, show_nat n @ rest)"
proof -
  obtain c cs where c: "show_nat n = c # cs" using show_nat_nonempty by (cases "show_nat n") auto
  then have "is_digit c" using show_nat_digits [of n] by simp
  from digit_not_special [OF this] show ?thesis by (simp add: c)
qed

lemma scan_show: "ends_number rest \<Longrightarrow> strto_scan (show_nat n @ rest) = Some (False, n, rest)"
  by (simp add: strto_scan_def before_number after_number show_nat_nonempty show_nat_val)

lemma u64_le_max: "\<not> ULLONG_MAX < unat (x :: u64)"
  using unat_u64_less [of x] unfolding ULLONG_MAX_def by linarith

text \<open>Reading back what was printed.\<close>

lemma strtoull_show: "ends_number rest \<Longrightarrow> strtoull (show_u64 x @ rest) = (x, rest, False)"
  by (simp add: strtoull_def show_u64_def scan_show u64_le_max)

lemma stream_read_show: "ends_number rest \<Longrightarrow> stream_read (show_u64 x @ rest) = (Some x, rest)"
  by (simp add: stream_read_def show_u64_def before_number after_number show_nat_nonempty show_nat_val
    u64_le_max)

lemma stream_read_space: "is_space c \<Longrightarrow> stream_read (c # s) = stream_read s"
  by (simp add: stream_read_def)

lemma stream_read_shrinks: "stream_read s = (Some x, rest) \<Longrightarrow> length rest < length s"
proof -
  assume r: "stream_read s = (Some x, rest)"
  obtain neg t where t: "after_sign (dropWhile is_space s) = (neg, t)" by fastforce
  have "length (snd (after_sign u)) \<le> length u" for u by (cases u) simp_all
  from this [of "dropWhile is_space s"] have "length t \<le> length (dropWhile is_space s)"
    by (simp add: t)
  also have "\<dots> \<le> length s" by (rule length_dropWhile_le)
  finally have le: "length t \<le> length s" .
  from r t have "takeWhile is_digit t \<noteq> []" "rest = dropWhile is_digit t"
    by (auto simp: stream_read_def Let_def split: if_splits)
  then have "length rest < length t"
    by (metis append_Nil length_append length_greater_0_conv less_add_same_cancel2 takeWhile_dropWhile_id)
  with le show ?thesis by simp
qed

end
