(* ===== verification/Command_Line.thy ===== *)
theory Command_Line
  imports Number_Parsing Demo_Generators
begin

text \<open>
  The command lines of the four programs: \<open>main\<close> of \<^verbatim>\<open>src/demo/slam_pipeline_demo.cpp\<close>,
  \<open>parse_options\<close> of \<^verbatim>\<open>src/ros2/scx_slam_workload/src/slam_pipeline.cpp\<close>, \<open>main\<close> of
  \<^verbatim>\<open>src/demo/dependent_workload.cpp\<close> and \<open>main\<close> of \<^verbatim>\<open>src/demo/edf_workload.c\<close>. Arguments are
  those after the program name; a parser recurses over them as the loops do.
\<close>

section \<open>The demo pipeline\<close>

record demo_options =
  dm_pin_dir :: "string option"
  dm_no_hints :: bool
  dm_window_stats :: bool
  dm_ext_policy :: int
  dm_duration_s :: int
  dm_lidar_mode :: string
  dm_drop_stale :: bool
  dm_hog_n :: int
  dm_imu_work_us :: u64
  dm_camera_burst_count :: int
  dm_camera_burst_at_ms :: int
  dm_vision_budget_us :: u64
  dm_vision_work_us :: u64
  dm_vision_deadline_us :: u64
  dm_lidar_pre_budget_us :: u64
  dm_lidar_pre_class :: string

definition demo_defaults :: demo_options where
  "demo_defaults = \<lparr>dm_pin_dir = None, dm_no_hints = False, dm_window_stats = False, dm_ext_policy = -1,
     dm_duration_s = 10, dm_lidar_mode = ''off'', dm_drop_stale = False, dm_hog_n = 1,
     dm_imu_work_us = 150, dm_camera_burst_count = 0, dm_camera_burst_at_ms = 3000,
     dm_vision_budget_us = 12000, dm_vision_work_us = 0, dm_vision_deadline_us = 33000,
     dm_lidar_pre_budget_us = 10000, dm_lidar_pre_class = ''fe''\<rparr>"

text \<open>The largest number of microseconds that fits into nanoseconds: \<open>UINT64_MAX / 1000\<close>.\<close>

definition us_limit :: u64 where "us_limit = 18446744073709551"

text \<open>
  The three checks on a number of microseconds: digits only and in range; in range; any number.
\<close>

definition strict_us :: "string \<Rightarrow> u64 option" where
  "strict_us arg =
     (let (v, rest, erange) = strtoull arg
      in if arg = [] \<or> \<not> list_all is_digit arg \<or> erange \<or> rest \<noteq> [] \<or> v > us_limit then None else Some v)"

definition ranged_us :: "string \<Rightarrow> u64 option" where
  "ranged_us arg =
     (let (v, rest, erange) = strtoull arg
      in if erange \<or> rest \<noteq> [] then None else if v > us_limit then None else Some v)"

definition plain_us :: "string \<Rightarrow> u64 option" where
  "plain_us arg = (let (v, rest, erange) = strtoull arg in if erange \<or> rest \<noteq> [] then None else Some v)"

text \<open>An option that takes an argument, with its effect; \<open>None\<close> is the message and exit status 1.\<close>

definition demo_valued :: "string \<Rightarrow> (string \<Rightarrow> demo_options \<Rightarrow> demo_options option) option" where
  "demo_valued opt =
     (if opt = ''--pin'' then Some (\<lambda>v d. Some (d\<lparr>dm_pin_dir := Some v\<rparr>))
      else if opt = ''--ext-policy'' then Some (\<lambda>v d. Some (d\<lparr>dm_ext_policy := atoi v\<rparr>))
      else if opt = ''--duration'' then Some (\<lambda>v d. Some (d\<lparr>dm_duration_s := atoi v\<rparr>))
      else if opt = ''--lidar'' then Some (\<lambda>v d. Some (d\<lparr>dm_lidar_mode := v\<rparr>))
      else if opt = ''--drop-stale'' then Some (\<lambda>v d. Some (d\<lparr>dm_drop_stale := atoi v \<noteq> 0\<rparr>))
      else if opt = ''--hog'' then Some (\<lambda>v d. Some (d\<lparr>dm_hog_n := atoi v\<rparr>))
      else if opt = ''--imu-work-us'' then
        Some (\<lambda>v d. map_option (\<lambda>n. d\<lparr>dm_imu_work_us := n\<rparr>) (strict_us v))
      else if opt = ''--camera-burst-count'' then Some (\<lambda>v d. Some (d\<lparr>dm_camera_burst_count := atoi v\<rparr>))
      else if opt = ''--camera-burst-at-ms'' then Some (\<lambda>v d. Some (d\<lparr>dm_camera_burst_at_ms := atoi v\<rparr>))
      else if opt = ''--vision-budget-us'' then
        Some (\<lambda>v d. map_option (\<lambda>n. d\<lparr>dm_vision_budget_us := n\<rparr>) (ranged_us v))
      else if opt = ''--vision-work-us'' then
        Some (\<lambda>v d. map_option (\<lambda>n. d\<lparr>dm_vision_work_us := n\<rparr>) (plain_us v))
      else if opt = ''--vision-deadline-us'' then
        Some (\<lambda>v d. map_option (\<lambda>n. d\<lparr>dm_vision_deadline_us := n\<rparr>) (ranged_us v))
      else if opt = ''--lidar-pre-budget-us'' then
        Some (\<lambda>v d. map_option (\<lambda>n. d\<lparr>dm_lidar_pre_budget_us := n\<rparr>) (strict_us v))
      else if opt = ''--lidar-pre-class'' then
        Some (\<lambda>v d. if v \<noteq> ''fe'' \<and> v \<noteq> ''be'' then None else Some (d\<lparr>dm_lidar_pre_class := v\<rparr>))
      else None)"

text \<open>
  The loop over the arguments. \<open>Inl\<close> is the exit status: 0 for the help text, 1 for everything refused.
  An option that needs an argument and is the last one falls through to the usage text.
\<close>

fun demo_args :: "string list \<Rightarrow> demo_options \<Rightarrow> int + demo_options" where
  "demo_args [] d = Inr d"
| "demo_args (opt # rest) d =
     (case (demo_valued opt, rest) of
        (Some f, v # rest') \<Rightarrow> (case f v d of None \<Rightarrow> Inl 1 | Some d1 \<Rightarrow> demo_args rest' d1)
      | _ \<Rightarrow>
          if opt = ''--no-hints'' then demo_args rest (d\<lparr>dm_no_hints := True\<rparr>)
          else if opt = ''--window-stats'' then demo_args rest (d\<lparr>dm_window_stats := True\<rparr>)
          else if opt = ''-h'' \<or> opt = ''--help'' then Inl 0
          else Inl 1)"

definition demo_parse :: "string list \<Rightarrow> int + demo_options" where
  "demo_parse args =
     (case demo_args args demo_defaults of
        Inl e \<Rightarrow> Inl e
      | Inr d \<Rightarrow>
          if (dm_pin_dir d = None \<and> \<not> dm_no_hints d) \<or> (dm_pin_dir d \<noteq> None \<and> dm_no_hints d) \<or>
             (dm_no_hints d \<and> dm_ext_policy d \<ge> 0) then Inl 1
          else if \<not> durations_ok (dm_duration_s d) (dm_hog_n d) (dm_camera_burst_count d) (dm_camera_burst_at_ms d)
          then Inl 1
          else if \<not> camera_burst_ok (dm_duration_s d) (dm_camera_burst_count d) (dm_camera_burst_at_ms d)
          then Inl 1
          else Inr d)"

text \<open>The stage configurations that \<open>main\<close> builds from the options.\<close>

definition cfg_imu :: "fresh_abi \<Rightarrow> stage_cfg" where
  "cfg_imu abi = \<lparr>sc_name = ''imu_prop'', sc_stage_id = SLAM_STAGE_IMU_PREINT,
     sc_class_id = FRESH_CLASS_URGENT abi, sc_deadline_rel_ns = 5000000, sc_stale_ns = 10000000,
     sc_budget_ns = 300000, sc_slice_ns = 0, sc_weight = 0\<rparr>"

definition cfg_vis :: "fresh_abi \<Rightarrow> demo_options \<Rightarrow> stage_cfg" where
  "cfg_vis abi d = \<lparr>sc_name = ''vision_fe'', sc_stage_id = SLAM_STAGE_VISION_FE,
     sc_class_id = FRESH_CLASS_DEADLINE abi, sc_deadline_rel_ns = dm_vision_deadline_us d * 1000,
     sc_stale_ns = 66000000, sc_budget_ns = dm_vision_budget_us d * 1000, sc_slice_ns = 0, sc_weight = 0\<rparr>"

definition cfg_est :: "fresh_abi \<Rightarrow> stage_cfg" where
  "cfg_est abi = \<lparr>sc_name = ''state_est'', sc_stage_id = SLAM_STAGE_STATE_EST,
     sc_class_id = FRESH_CLASS_DEADLINE abi, sc_deadline_rel_ns = 33000000, sc_stale_ns = 66000000,
     sc_budget_ns = 12000000, sc_slice_ns = 0, sc_weight = 0\<rparr>"

definition cfg_lpre :: "fresh_abi \<Rightarrow> demo_options \<Rightarrow> stage_cfg" where
  "cfg_lpre abi d = \<lparr>sc_name = ''lidar_pre'', sc_stage_id = SLAM_STAGE_LIDAR_PREINT,
     sc_class_id = (if dm_lidar_pre_class d = ''fe'' then FRESH_CLASS_DEADLINE abi
       else FRESH_CLASS_BACKGROUND abi),
     sc_deadline_rel_ns = 100000000, sc_stale_ns = 150000000,
     sc_budget_ns = dm_lidar_pre_budget_us d * 1000, sc_slice_ns = 0, sc_weight = 0\<rparr>"

definition cfg_lreg :: "fresh_abi \<Rightarrow> stage_cfg" where
  "cfg_lreg abi = \<lparr>sc_name = ''lidar_reg'', sc_stage_id = SLAM_STAGE_LIDAR_REG,
     sc_class_id = FRESH_CLASS_BACKGROUND abi, sc_deadline_rel_ns = 200000000, sc_stale_ns = 250000000,
     sc_budget_ns = 0, sc_slice_ns = 0, sc_weight = 0\<rparr>"

definition cfg_map :: "fresh_abi \<Rightarrow> stage_cfg" where
  "cfg_map abi = \<lparr>sc_name = ''mapping_be'', sc_stage_id = SLAM_STAGE_MAPPING_BE,
     sc_class_id = FRESH_CLASS_BACKGROUND abi, sc_deadline_rel_ns = 400000000, sc_stale_ns = 800000000,
     sc_budget_ns = 0, sc_slice_ns = 0, sc_weight = 0\<rparr>"

text \<open>The work of a camera frame in the three camera stages.\<close>

definition vis_work_us :: "demo_options \<Rightarrow> work_item \<Rightarrow> u64" where
  "vis_work_us d w = (if dm_vision_work_us d \<noteq> 0 then dm_vision_work_us d else 3000 + (wi_seq w mod 5) * 500)"

definition est_work_us :: "work_item \<Rightarrow> u64" where
  "est_work_us w = 2000 + (wi_seq w mod 5) * 500"

definition map_work_us :: "work_item \<Rightarrow> u64" where
  "map_work_us w = 1000 + (wi_seq w mod 5) * 500"

section \<open>The dependent workload\<close>

definition CPU_SETSIZE :: int where "CPU_SETSIZE = 1024"

record dep_options =
  dp_cpu :: int
  dp_housekeeping :: int
  dp_seconds :: int
  dp_hog_count :: int
  dp_pin :: string
  dp_trace_path :: string
  dp_policy :: string
  dp_scenario :: string

definition dep_defaults :: dep_options where
  "dep_defaults = \<lparr>dp_cpu = -1, dp_housekeeping = -1, dp_seconds = 2, dp_hog_count = 0, dp_pin = [],
     dp_trace_path = [], dp_policy = ''ordinary'', dp_scenario = ''nominal''\<rparr>"

definition dep_set :: "string \<Rightarrow> string \<Rightarrow> dep_options \<Rightarrow> dep_options res" where
  "dep_set a v d =
     (if a = ''--pin'' then Inr (d\<lparr>dp_pin := v\<rparr>)
      else if a = ''--trace'' then Inr (d\<lparr>dp_trace_path := v\<rparr>)
      else if a = ''--policy'' then Inr (d\<lparr>dp_policy := v\<rparr>)
      else if a = ''--scenario'' then Inr (d\<lparr>dp_scenario := v\<rparr>)
      else
        (case stoi v of
           Inl e \<Rightarrow> Inl e
         | Inr (n, used) \<Rightarrow>
             if used \<noteq> length v then Inl (Invalid_argument ''invalid integer'')
             else if a = ''--cpu'' then Inr (d\<lparr>dp_cpu := n\<rparr>)
             else if a = ''--housekeeping-cpu'' then Inr (d\<lparr>dp_housekeeping := n\<rparr>)
             else if a = ''--duration'' then Inr (d\<lparr>dp_seconds := n\<rparr>)
             else if a = ''--hogs'' then Inr (d\<lparr>dp_hog_count := n\<rparr>)
             else Inl (Invalid_argument ''unknown option'')))"

text \<open>\<open>Inr None\<close>: the help text was asked for.\<close>

fun dep_args :: "string list \<Rightarrow> dep_options \<Rightarrow> dep_options option res" where
  "dep_args [] d = Inr (Some d)"
| "dep_args [a] d =
     (if a = ''--help'' then Inr None else Inl (Invalid_argument ''missing option value''))"
| "dep_args (a # v # rest) d =
     (if a = ''--help'' then Inr None
      else (case dep_set a v d of Inl e \<Rightarrow> Inl e | Inr d1 \<Rightarrow> dep_args rest d1))"

definition dep_check :: "dep_options \<Rightarrow> dep_options res" where
  "dep_check d =
     (if (dp_policy d \<noteq> ''ordinary'' \<and> dp_policy d \<noteq> ''fifo'') \<or> (dp_policy d = ''fifo'' \<and> dp_pin d \<noteq> [])
      then Inl (Invalid_argument ''require ordinary or fifo policy; fifo cannot use hints'')
      else if dp_scenario d \<noteq> ''nominal'' \<and> dp_scenario d \<noteq> ''estimator-burst''
      then Inl (Invalid_argument ''unknown scenario'')
      else if dp_cpu d < 0 \<or> dp_housekeeping d < 0 \<or> dp_cpu d \<ge> CPU_SETSIZE \<or> dp_housekeeping d \<ge> CPU_SETSIZE \<or>
        dp_cpu d = dp_housekeeping d \<or> dp_seconds d < 1 \<or> dp_seconds d > 60 \<or> dp_hog_count d < 0 \<or>
        dp_hog_count d > 2
      then Inl (Invalid_argument ''require distinct CPUs and duration 1..60 seconds'')
      else Inr d)"

definition dep_parse :: "string list \<Rightarrow> dep_options option res" where
  "dep_parse args =
     (case dep_args args dep_defaults of
        Inl e \<Rightarrow> Inl e
      | Inr None \<Rightarrow> Inr None
      | Inr (Some d) \<Rightarrow> (case dep_check d of Inl e \<Rightarrow> Inl e | Inr d1 \<Rightarrow> Inr (Some d1)))"

section \<open>The ROS pipeline\<close>

record ros_options =
  ro_duration_s :: int
  ro_warmup_s :: int
  ro_worker_cpu :: int
  ro_ext_policy :: int
  ro_hog_threads :: int
  ro_window_stats :: bool
  ro_source_start_ns :: u64
  ro_pin_dir :: string
  ro_hint_mode :: string
  ro_input_mode :: string

definition ros_defaults :: ros_options where
  "ros_defaults = \<lparr>ro_duration_s = 3, ro_warmup_s = 0, ro_worker_cpu = -1, ro_ext_policy = -1,
     ro_hog_threads = 0, ro_window_stats = False, ro_source_start_ns = 0, ro_pin_dir = [],
     ro_hint_mode = ''auto'', ro_input_mode = ''synthetic''\<rparr>"

definition parse_integer :: "string \<Rightarrow> string \<Rightarrow> int res" where
  "parse_integer s opt =
     (let (v, rest, erange) = strtol s
      in if erange \<or> rest \<noteq> [] \<or> v < -1 \<or> v > 86400
         then Inl (Invalid_argument (''invalid value for '' @ opt)) else Inr v)"

definition parse_u64 :: "string \<Rightarrow> string \<Rightarrow> u64 res" where
  "parse_u64 s opt =
     (let (v, rest, erange) = strtoull s
      in if erange \<or> rest \<noteq> [] \<or> (s \<noteq> [] \<and> hd s = CHR ''-'') \<or> v = 0
         then Inl (Invalid_argument (''invalid value for '' @ opt)) else Inr v)"

definition ros_valued :: "string \<Rightarrow> (string \<Rightarrow> ros_options \<Rightarrow> ros_options res) option" where
  "ros_valued opt =
     (if opt = ''--duration'' then Some (\<lambda>v d. case parse_integer v opt of Inl e \<Rightarrow> Inl e | Inr n \<Rightarrow>
        if n < 1 then Inl (Invalid_argument ''--duration must be at least one second'')
        else Inr (d\<lparr>ro_duration_s := n\<rparr>))
      else if opt = ''--warmup'' then Some (\<lambda>v d. case parse_integer v opt of Inl e \<Rightarrow> Inl e | Inr n \<Rightarrow>
        if n < 0 then Inl (Invalid_argument ''--warmup must be non-negative'')
        else Inr (d\<lparr>ro_warmup_s := n\<rparr>))
      else if opt = ''--worker-cpu'' then Some (\<lambda>v d. case parse_integer v opt of Inl e \<Rightarrow> Inl e | Inr n \<Rightarrow>
        Inr (d\<lparr>ro_worker_cpu := n\<rparr>))
      else if opt = ''--ext-policy'' then Some (\<lambda>v d. case parse_integer v opt of Inl e \<Rightarrow> Inl e | Inr n \<Rightarrow>
        Inr (d\<lparr>ro_ext_policy := n\<rparr>))
      else if opt = ''--hog'' then Some (\<lambda>v d. case parse_integer v opt of Inl e \<Rightarrow> Inl e | Inr n \<Rightarrow>
        if n < 0 then Inl (Invalid_argument ''--hog must be non-negative'')
        else Inr (d\<lparr>ro_hog_threads := n\<rparr>))
      else if opt = ''--source-start-ns'' then Some (\<lambda>v d. case parse_u64 v opt of Inl e \<Rightarrow> Inl e | Inr n \<Rightarrow>
        Inr (d\<lparr>ro_source_start_ns := n\<rparr>))
      else if opt = ''--pin'' then Some (\<lambda>v d. Inr (d\<lparr>ro_pin_dir := v\<rparr>))
      else if opt = ''--hint-mode'' then Some (\<lambda>v d.
        if v \<noteq> ''full'' \<and> v \<noteq> ''none'' \<and> v \<noteq> ''imu-only'' \<and> v \<noteq> ''fe-only''
        then Inl (Invalid_argument ''--hint-mode must be full, none, imu-only, or fe-only'')
        else Inr (d\<lparr>ro_hint_mode := v\<rparr>))
      else if opt = ''--input'' then Some (\<lambda>v d.
        if v \<noteq> ''synthetic'' \<and> v \<noteq> ''external''
        then Inl (Invalid_argument ''--input must be synthetic or external'')
        else Inr (d\<lparr>ro_input_mode := v\<rparr>))
      else None)"

fun ros_args :: "string list \<Rightarrow> ros_options \<Rightarrow> ros_options option res" where
  "ros_args [] d = Inr (Some d)"
| "ros_args (opt # rest) d =
     (case (ros_valued opt, rest) of
        (Some f, []) \<Rightarrow> Inl (Invalid_argument (''missing value for '' @ opt))
      | (Some f, v # rest') \<Rightarrow> (case f v d of Inl e \<Rightarrow> Inl e | Inr d1 \<Rightarrow> ros_args rest' d1)
      | (None, _) \<Rightarrow>
          if opt = ''--window-stats'' then ros_args rest (d\<lparr>ro_window_stats := True\<rparr>)
          else if opt = ''--help'' then Inr None
          else if opt \<noteq> ''--ros-args'' \<and> take 2 opt \<noteq> ''__''
          then Inl (Invalid_argument (''unknown argument: '' @ opt))
          else ros_args rest d)"

definition parse_options :: "string list \<Rightarrow> ros_options option res" where
  "parse_options args =
     (case ros_args args ros_defaults of
        Inl e \<Rightarrow> Inl e
      | Inr None \<Rightarrow> Inr None
      | Inr (Some d) \<Rightarrow>
          if ro_input_mode d = ''external'' \<and> ro_source_start_ns d = 0
          then Inl (Invalid_argument ''--input external requires --source-start-ns'')
          else Inr (Some d))"

definition effective_hint_mode :: "ros_options \<Rightarrow> string" where
  "effective_hint_mode d =
     (if ro_hint_mode d \<noteq> ''auto'' then ro_hint_mode d
      else if ro_pin_dir d = [] then ''none'' else ''full'')"

text \<open>The first lines of \<open>main\<close>: the mode in force, checked against the map directory.\<close>

definition ros_mode :: "ros_options \<Rightarrow> string res" where
  "ros_mode d =
     (if effective_hint_mode d \<noteq> ''none'' \<and> ro_pin_dir d = []
      then Inl (Invalid_argument ''--hint-mode requires --pin unless mode is none'')
      else Inr (effective_hint_mode d))"

section \<open>The EDF workload\<close>

text \<open>The CPU and the mode, or exit status 2.\<close>

definition edf_args :: "string list \<Rightarrow> int + (u64 \<times> string)" where
  "edf_args args =
     (case args of
        [c, mode, pin] \<Rightarrow>
          (let (parsed, rest, _) = strtoull c
           in if rest \<noteq> [] \<or> rest = c \<or> parsed \<ge> of_int CPU_SETSIZE then Inl 2
              else if mode \<notin> {''ordinary'', ''fifo-a'', ''fifo-b'', ''deadline'', ''scx''} then Inl 2
              else Inr (parsed, mode))
      | _ \<Rightarrow> Inl 2)"

section \<open>Lemmas\<close>

lemma atoi_range: "INT_MIN \<le> atoi s \<and> atoi s \<le> INT_MAX"
  by (simp add: atoi_def INT_MIN_def INT_MAX_def)

lemma us_limits:
  "strict_us v = Some n \<Longrightarrow> n \<le> us_limit" "ranged_us v = Some n \<Longrightarrow> n \<le> us_limit"
  by (auto simp: strict_us_def ranged_us_def Let_def not_less split: prod.splits if_splits)

lemma us_exact: "n \<le> us_limit \<Longrightarrow> unat (n * 1000) = unat n * 1000"
  by (simp add: us_limit_def word_le_nat_alt unat_word_ariths)

definition demo_ok :: "demo_options \<Rightarrow> bool" where
  "demo_ok d \<longleftrightarrow> dm_duration_s d \<le> INT_MAX \<and> dm_camera_burst_count d \<le> INT_MAX \<and>
     dm_camera_burst_at_ms d \<le> INT_MAX \<and> dm_hog_n d \<le> INT_MAX \<and>
     dm_imu_work_us d \<le> us_limit \<and> dm_vision_budget_us d \<le> us_limit \<and>
     dm_vision_deadline_us d \<le> us_limit \<and> dm_lidar_pre_budget_us d \<le> us_limit \<and>
     (dm_lidar_pre_class d = ''fe'' \<or> dm_lidar_pre_class d = ''be'')"

text \<open>An option table is a chain of tests; which test succeeded does not matter for the ranges.\<close>

lemma if_chain:
  "(if c then Some g else r) = Some f \<Longrightarrow> (f = g \<Longrightarrow> P) \<Longrightarrow> (r = Some f \<Longrightarrow> P) \<Longrightarrow> P"
  by (cases c) auto

lemma demo_valued_ok:
  assumes "demo_valued opt = Some f" and "f v d = Some d1" and "demo_ok d"
  shows "demo_ok d1"
  using assms(1) unfolding demo_valued_def
  by (elim if_chain) (use assms(2,3) atoi_range [of v] us_limits [of v] in
    \<open>auto simp: demo_ok_def split: if_splits\<close>)

lemma demo_args_ok: "demo_args args d = Inr d1 \<Longrightarrow> demo_ok d \<Longrightarrow> demo_ok d1"
proof (induction args arbitrary: d rule: length_induct)
  case (1 args)
  have ih: "length rest < length args \<Longrightarrow> demo_args rest d2 = Inr d1 \<Longrightarrow> demo_ok d2 \<Longrightarrow> demo_ok d1" for rest d2
    using "1.IH" by blast
  show ?case
  proof (cases args)
    case Nil
    with "1.prems" show ?thesis by simp
  next
    case (Cons opt rest)
    have flags: "demo_ok (d\<lparr>dm_no_hints := True\<rparr>)" "demo_ok (d\<lparr>dm_window_stats := True\<rparr>)"
      using "1.prems"(2) by (simp_all add: demo_ok_def)
    show ?thesis
    proof (cases "demo_valued opt = None \<or> rest = []")
      case True
      then have "demo_args args d = (if opt = ''--no-hints'' then demo_args rest (d\<lparr>dm_no_hints := True\<rparr>)
          else if opt = ''--window-stats'' then demo_args rest (d\<lparr>dm_window_stats := True\<rparr>)
          else if opt = ''-h'' \<or> opt = ''--help'' then Inl 0 else Inl 1)"
        by (cases "demo_valued opt"; cases rest) (simp_all add: Cons)
      with "1.prems"(1) ih [of rest] flags Cons show ?thesis by (simp split: if_splits)
    next
      case False
      then obtain f v rest' where f: "demo_valued opt = Some f" "rest = v # rest'" by (cases rest) auto
      with "1.prems"(1) Cons obtain d2 where d2: "f v d = Some d2" "demo_args rest' d2 = Inr d1"
        by (auto split: option.splits)
      from ih [OF _ d2(2) demo_valued_ok [OF f(1) d2(1) "1.prems"(2)]] Cons f(2) show ?thesis by simp
    qed
  qed
qed

definition known_mode :: "string \<Rightarrow> bool" where
  "known_mode v \<longleftrightarrow> v = ''full'' \<or> v = ''none'' \<or> v = ''imu-only'' \<or> v = ''fe-only''"

definition known_input :: "string \<Rightarrow> bool" where
  "known_input v \<longleftrightarrow> v = ''synthetic'' \<or> v = ''external''"

lemma known_folds:
  "(v \<noteq> ''full'' \<and> v \<noteq> ''none'' \<and> v \<noteq> ''imu-only'' \<and> v \<noteq> ''fe-only'') = (\<not> known_mode v)"
  "(v \<noteq> ''synthetic'' \<and> v \<noteq> ''external'') = (\<not> known_input v)"
  by (simp_all only: known_mode_def known_input_def de_Morgan_disj)

definition ros_ok :: "ros_options \<Rightarrow> bool" where
  "ros_ok d \<longleftrightarrow> 1 \<le> ro_duration_s d \<and> ro_duration_s d \<le> 86400 \<and> 0 \<le> ro_warmup_s d \<and> ro_warmup_s d \<le> 86400 \<and>
     -1 \<le> ro_worker_cpu d \<and> -1 \<le> ro_ext_policy d \<and> 0 \<le> ro_hog_threads d \<and> ro_hog_threads d \<le> 86400 \<and>
     (ro_hint_mode d = ''auto'' \<or> known_mode (ro_hint_mode d)) \<and> known_input (ro_input_mode d)"

lemma parse_integer_range: "parse_integer v opt = Inr n \<Longrightarrow> -1 \<le> n \<and> n \<le> 86400"
  by (auto simp: parse_integer_def Let_def not_less split: prod.splits if_splits)

lemma ros_valued_ok:
  assumes "ros_valued opt = Some f" and "f v d = Inr d1" and "ros_ok d"
  shows "ros_ok d1"
  using assms(1) unfolding ros_valued_def known_folds
  by (elim if_chain) (use assms(2,3) parse_integer_range [of v opt] in
    \<open>auto simp: ros_ok_def split: if_splits sum.splits\<close>)

lemma ros_args_ok: "ros_args args d = Inr (Some d1) \<Longrightarrow> ros_ok d \<Longrightarrow> ros_ok d1"
proof (induction args arbitrary: d rule: length_induct)
  case (1 args)
  have ih: "length rest < length args \<Longrightarrow> ros_args rest d2 = Inr (Some d1) \<Longrightarrow> ros_ok d2 \<Longrightarrow> ros_ok d1" for rest d2
    using "1.IH" by blast
  show ?case
  proof (cases args)
    case Nil
    with "1.prems" show ?thesis by simp
  next
    case (Cons opt rest)
    have flag: "ros_ok (d\<lparr>ro_window_stats := True\<rparr>)" using "1.prems"(2) by (simp add: ros_ok_def)
    show ?thesis
    proof (cases "ros_valued opt")
      case None
      with "1.prems" ih [of rest] flag Cons show ?thesis by (simp split: if_splits)
    next
      case (Some f)
      with "1.prems"(1) Cons obtain v rest' d2 where d2: "rest = v # rest'" "f v d = Inr d2"
        "ros_args rest' d2 = Inr (Some d1)" by (cases rest) (auto split: sum.splits)
      from ih [OF _ d2(3) ros_valued_ok [OF Some d2(2) "1.prems"(2)]] Cons d2(1) show ?thesis by simp
    qed
  qed
qed

text \<open>Evaluation of the parsers on literal arguments.\<close>

lemmas number_eval = strtoull_def strtol_def strto_scan_def is_space_def is_digit_def digits_val_def
  digit_of_def ULLONG_MAX_def LONG_MAX_def LONG_MIN_def INT_MIN_def INT_MAX_def us_limit_def word_le_nat_alt
  word_less_nat_alt

definition demo_abi :: fresh_abi where
  "demo_abi = \<lparr>FRESH_STAGE_UNSPECIFIED = 255, FRESH_CLASS_BACKGROUND = 0, FRESH_CLASS_DEADLINE = 1,
     FRESH_CLASS_URGENT = 2\<rparr>"

section \<open>Properties\<close>

text \<open>
  C32: The options of the demo that are accepted are those the rest of the program can use. Hints are
  either asked for with a map or refused, never both; the numbers of seconds, frames and threads are in
  range and the burst lies inside the run; the budgets, the deadline and the IMU work, though not the
  vision work, which no check limits, are exact when converted to nanoseconds; the lidar class is one of
  the two known ones.
\<close>

theorem demo_options_typed:
  assumes "demo_parse args = Inr d"
  shows "(dm_pin_dir d = None \<longleftrightarrow> dm_no_hints d) \<and> (dm_no_hints d \<longrightarrow> dm_ext_policy d < 0) \<and>
    0 < dm_duration_s d \<and> dm_duration_s d \<le> INT_MAX \<and> 0 \<le> dm_hog_n d \<and>
    camera_burst_ok (dm_duration_s d) (dm_camera_burst_count d) (dm_camera_burst_at_ms d) \<and>
    unat (sc_deadline_rel_ns (cfg_vis abi d)) = unat (dm_vision_deadline_us d) * 1000 \<and>
    unat (sc_budget_ns (cfg_vis abi d)) = unat (dm_vision_budget_us d) * 1000 \<and>
    unat (sc_budget_ns (cfg_lpre abi d)) = unat (dm_lidar_pre_budget_us d) * 1000 \<and>
    unat (dm_imu_work_us d * 1000) = unat (dm_imu_work_us d) * 1000 \<and>
    (dm_lidar_pre_class d = ''fe'' \<or> dm_lidar_pre_class d = ''be'')"
proof -
  have a: "demo_args args demo_defaults = Inr d"
    and c: "\<not> ((dm_pin_dir d = None \<and> \<not> dm_no_hints d) \<or> (dm_pin_dir d \<noteq> None \<and> dm_no_hints d) \<or>
        (dm_no_hints d \<and> dm_ext_policy d \<ge> 0))"
    and t: "durations_ok (dm_duration_s d) (dm_hog_n d) (dm_camera_burst_count d) (dm_camera_burst_at_ms d)"
    and b: "camera_burst_ok (dm_duration_s d) (dm_camera_burst_count d) (dm_camera_burst_at_ms d)"
    using assms by (auto simp: demo_parse_def split: sum.splits if_splits)
  have "demo_ok demo_defaults"
    by (simp add: demo_ok_def demo_defaults_def INT_MAX_def us_limit_def word_le_nat_alt)
  from demo_args_ok [OF a this] have "demo_ok d" .
  moreover from c have "dm_pin_dir d = None \<longleftrightarrow> dm_no_hints d" "dm_no_hints d \<longrightarrow> dm_ext_policy d < 0"
    by (blast, simp add: not_le)
  ultimately show ?thesis
    using b t by (simp add: demo_ok_def durations_ok_def cfg_vis_def cfg_lpre_def us_exact)
qed

theorem demo_options_typed_witness:
  "\<exists>d. demo_parse [''--no-hints'', ''--duration'', ''2'', ''--vision-budget-us'', ''7''] = Inr d \<and>
     unat (sc_budget_ns (cfg_vis demo_abi d)) = 7000"
proof -
  have e: "demo_parse [''--no-hints'', ''--duration'', ''2'', ''--vision-budget-us'', ''7''] =
      Inr (demo_defaults\<lparr>dm_no_hints := True, dm_duration_s := 2, dm_vision_budget_us := 7\<rparr>)"
    by (simp add: demo_parse_def demo_defaults_def demo_valued_def number_eval ranged_us_def atoi_def
      durations_ok_def camera_burst_ok_def)
  from demo_options_typed [OF e] show ?thesis unfolding e by (simp add: demo_defaults_def)
qed

lemma parse_options_duration:
  assumes "parse_options args = Inr (Some d)"
  shows "1 \<le> ro_duration_s d" and "ro_duration_s d \<le> 86400"
proof -
  have a: "ros_args args ros_defaults = Inr (Some d)"
    using assms by (auto simp: parse_options_def split: sum.splits option.splits if_splits)
  have "ros_ok ros_defaults" by (simp add: ros_ok_def ros_defaults_def known_input_def)
  from ros_args_ok [OF a this] show "1 \<le> ro_duration_s d" "ro_duration_s d \<le> 86400" by (simp_all add: ros_ok_def)
qed

text \<open>
  C33: The options of the ROS pipeline that are accepted are in range: at most a day of run and of warm-up,
  so that the measurement window in nanoseconds is exact; a known hint mode and input; an external input
  has a source epoch; and a mode that publishes hints has a map directory.
\<close>

theorem ros_options_typed:
  assumes "parse_options args = Inr (Some d)"
  shows "1 \<le> ro_duration_s d \<and> ro_duration_s d \<le> 86400 \<and> 0 \<le> ro_hog_threads d \<and>
    unat (of_int (ro_duration_s d) * 1000000000 :: u64) = nat (ro_duration_s d) * 1000000000 \<and>
    unat (of_int (ro_warmup_s d) * 1000000000 :: u64) = nat (ro_warmup_s d) * 1000000000 \<and>
    (ro_input_mode d = ''synthetic'' \<or> ro_input_mode d = ''external'' \<and> ro_source_start_ns d \<noteq> 0) \<and>
    (\<forall>mode. ros_mode d = Inr mode \<longrightarrow> known_mode mode \<and> (mode = ''none'' \<or> ro_pin_dir d \<noteq> []))"
proof -
  have a: "ros_args args ros_defaults = Inr (Some d)"
    and c: "\<not> (ro_input_mode d = ''external'' \<and> ro_source_start_ns d = 0)"
    using assms by (auto simp: parse_options_def split: sum.splits option.splits if_splits)
  have "ros_ok ros_defaults" by (simp add: ros_ok_def ros_defaults_def known_input_def)
  from ros_args_ok [OF a this] have ok: "ros_ok d" .
  have ns: "unat (of_int k * 1000000000 :: u64) = nat k * 1000000000" if "0 \<le> k" "k \<le> 86400" for k :: int
  proof -
    have "(of_int k * 1000000000 :: u64) = of_nat (nat k * 1000000000)" using that by simp
    moreover have "nat k * 1000000000 < 18446744073709551616" using that by simp
    ultimately show ?thesis by (simp only: unat_of_nat_u64)
  qed
  have "known_mode mode \<and> (mode = ''none'' \<or> ro_pin_dir d \<noteq> [])" if "ros_mode d = Inr mode" for mode
    using that ok by (auto simp: ros_mode_def effective_hint_mode_def ros_ok_def known_mode_def split: if_splits)
  moreover have "ro_input_mode d = ''synthetic'' \<or> ro_input_mode d = ''external'' \<and> ro_source_start_ns d \<noteq> 0"
    using ok c unfolding ros_ok_def known_input_def by blast
  ultimately show ?thesis using ok ns by (simp add: ros_ok_def)
qed

theorem ros_options_typed_witness:
  "\<exists>d. parse_options [''--duration'', ''5'', ''--window-stats''] = Inr (Some d) \<and> ro_duration_s d \<le> 86400"
proof -
  have e: "parse_options [''--duration'', ''5'', ''--window-stats''] =
      Inr (Some (ros_defaults\<lparr>ro_duration_s := 5, ro_window_stats := True\<rparr>))"
    by (simp add: parse_options_def ros_defaults_def ros_valued_def parse_integer_def number_eval)
  from ros_options_typed [OF e] show ?thesis unfolding e by blast
qed

text \<open>A number with a minus sign, after blanks or not, is read modulo 2 to the 64.\<close>

lemma scan_minus:
  assumes "list_all is_space blanks"
  shows "strto_scan (blanks @ CHR ''-'' # show_nat n) = Some (True, n, [])"
proof -
  have "dropWhile is_space (blanks @ CHR ''-'' # show_nat n) = CHR ''-'' # show_nat n"
    using assms by (induction blanks) (auto simp: is_space_def)
  moreover have tw: "takeWhile is_digit (show_nat n) = show_nat n" "dropWhile is_digit (show_nat n) = []"
    using after_number [of "[]" n] by (simp_all add: ends_number_def del: dropWhile_eq_Nil_conv takeWhile_eq_all_conv)
  ultimately show ?thesis by (simp add: strto_scan_def tw Let_def show_nat_nonempty show_nat_val)
qed

lemma us_parsed:
  assumes "us_limit < us"
  shows "plain_us (show_u64 us) = Some us" and "strict_us (show_u64 us) = None" and "ranged_us (show_u64 us) = None"
proof -
  have "strtoull (show_u64 us) = (us, [], False)" using strtoull_show [of "[]" us] by (simp add: ends_number_def)
  then show "plain_us (show_u64 us) = Some us" "strict_us (show_u64 us) = None" "ranged_us (show_u64 us) = None"
    using assms by (simp_all add: plain_us_def strict_us_def ranged_us_def Let_def)
qed

text \<open>
  C40: Numbers are accepted that the checks around them mean to refuse. Every number of microseconds that
  does not fit into nanoseconds is taken by \<open>--vision-work-us\<close>, wherever it stands, and the stage then
  works for a time that has wrapped around, while the other four options in microseconds refuse each of
  these numbers; and \<open>--source-start-ns\<close> refuses every number with a minus sign in front, but reads it
  modulo 2 to the 64 after any blanks.
\<close>

theorem accepted_out_of_range:
  assumes "us_limit < us" and "list_all is_space blanks" and "blanks \<noteq> []" and "n \<noteq> 0"
  shows "demo_args (''--vision-work-us'' # show_u64 us # rest) d = demo_args rest (d\<lparr>dm_vision_work_us := us\<rparr>) \<and>
    vis_work_us (d\<lparr>dm_vision_work_us := us\<rparr>) w = us \<and> unat (us * 1000) < unat us * 1000 \<and>
    (\<forall>opt \<in> {''--imu-work-us'', ''--vision-budget-us'', ''--vision-deadline-us'', ''--lidar-pre-budget-us''}.
       demo_args (opt # show_u64 us # rest) d = Inl 1) \<and>
    parse_u64 (CHR ''-'' # show_u64 n) opt = Inl (Invalid_argument (''invalid value for '' @ opt)) \<and>
    parse_u64 (blanks @ CHR ''-'' # show_u64 n) opt = Inr (- n)"
proof -
  have lim: "18446744073709551 < unat us" using assms(1) by (simp add: us_limit_def word_less_nat_alt)
  then have "us \<noteq> 0" by auto
  then have v: "vis_work_us (d\<lparr>dm_vision_work_us := us\<rparr>) w = us" by (simp add: vis_work_us_def)
  have "unat (us * 1000) < 18446744073709551616" by (rule unat_u64_less)
  then have wrap: "unat (us * 1000) < unat us * 1000" using lim by linarith
  have st: "strtoull (bs @ CHR ''-'' # show_u64 n) = (- n, [], False)" if "list_all is_space bs" for bs
    using scan_minus [OF that, of "unat n"] u64_le_max [of n] by (simp add: strtoull_def show_u64_def)
  have "\<not> is_space (CHR ''-'')" by (simp add: is_space_def)
  then have "hd (blanks @ CHR ''-'' # show_u64 n) \<noteq> CHR ''-''" using assms(2,3) by (cases blanks) auto
  then have "parse_u64 (blanks @ CHR ''-'' # show_u64 n) opt = Inr (- n)"
    using st [OF assms(2)] assms(4) by (simp add: parse_u64_def)
  moreover have "parse_u64 (CHR ''-'' # show_u64 n) opt = Inl (Invalid_argument (''invalid value for '' @ opt))"
    using st [of "[]"] by (simp add: parse_u64_def)
  ultimately show ?thesis using v wrap us_parsed [OF assms(1)] by (simp add: demo_valued_def)
qed

theorem accepted_out_of_range_witness:
  "unat ((18446744073709552 :: u64) * 1000) < 18446744073709552000 \<and>
   parse_u64 ('' -'' @ show_u64 1) ''--source-start-ns'' = Inr 18446744073709551615"
proof -
  have "us_limit < 18446744073709552" by (simp add: us_limit_def)
  from accepted_out_of_range [OF this, of "'' ''" 1] show ?thesis by (simp add: is_space_def)
qed

end
