(* ===== verification/Bag_Adapter.thy ===== *)
theory Bag_Adapter
  imports Number_Parsing
begin

text \<open>
  The bag adapter: the source job index and the job constructors of
  \<^verbatim>\<open>src/ros2/scx_slam_workload/include/scx_slam_workload/bag_adapter.hpp\<close>, and the node of
  \<^verbatim>\<open>src/ros2/scx_slam_workload/src/bag_adapter.cpp\<close>: the delivery of one sensor message and the
  readiness service. The writer of the index, in
  \<^verbatim>\<open>src/scripts/ros2_bag_source_epoch.py\<close>, is here for the round trip. Clocks, the middleware and
  the files are inputs.
\<close>

section \<open>The source job index\<close>

text \<open>
  The entries in insertion order: the stamps are strictly increasing, so this is also the order of the
  \<open>std::map\<close>. The loop ends when a stamp cannot be read; \<open>eof()\<close> then says whether the stream was
  exhausted.
\<close>

type_synonym index_entries = "(u64 \<times> u64) list"

definition bad_index :: "string \<Rightarrow> exn" where
  "bad_index path = Runtime_error (''invalid source job index: '' @ path)"

function index_loop :: "string \<Rightarrow> u64 \<Rightarrow> index_entries \<Rightarrow> string \<Rightarrow> (index_entries \<times> bool) res" where
  "index_loop path previous entries input =
     (case stream_read input of
        (None, rest) \<Rightarrow> Inr (entries, rest = [])
      | (Some stamp, rest) \<Rightarrow>
          (case stream_read rest of
             (None, _) \<Rightarrow> Inl (bad_index path)
           | (Some ordinal, rest2) \<Rightarrow>
               if stamp = 0 \<or> stamp \<le> previous \<or> ordinal \<noteq> vsize entries + 1
               then Inl (bad_index path)
               else index_loop path stamp (entries @ [(stamp, ordinal)]) rest2))"
  by auto
termination
  by (relation "measure (\<lambda>(path, previous, entries, input). length input)")
    (auto dest!: stream_read_shrinks [OF sym])

declare index_loop.simps [simp del]

text \<open>The constructor; \<open>file\<close> is the content of the file, \<open>None\<close> if it cannot be opened.\<close>

definition source_job_index :: "string \<Rightarrow> string option \<Rightarrow> index_entries res" where
  "source_job_index path file =
     (if path = [] then Inr []
      else
        (case file of
           None \<Rightarrow> Inl (Runtime_error (''cannot open source job index: '' @ path))
         | Some text \<Rightarrow>
             (case index_loop path 0 [] text of
                Inl e \<Rightarrow> Inl e
              | Inr (entries, eof) \<Rightarrow>
                  if \<not> eof \<or> entries = [] then Inl (bad_index path) else Inr entries)))"

definition index_job_id :: "index_entries \<Rightarrow> u64 \<Rightarrow> u64 \<Rightarrow> u64 res" where
  "index_job_id entries source_ns receive_counter =
     (if entries = [] then Inr receive_counter
      else
        (case map_of entries source_ns of
           None \<Rightarrow> Inl (Runtime_error ''timestamp absent from bag index'')
         | Some ordinal \<Rightarrow> Inr ordinal))"

section \<open>Jobs\<close>

record ros_time =
  rt_sec :: int
  rt_nanosec :: u32

record stamped_job =
  sj_job_id :: u64
  sj_release_ts_ns :: u64
  sj_source_ts_ns :: u64

definition source_stamp_ns :: "ros_time \<Rightarrow> u64 res" where
  "source_stamp_ns stamp =
     (if rt_sec stamp < 0 \<or> rt_nanosec stamp \<ge> 1000000000
      then Inl (Invalid_argument ''sensor timestamp is outside the ROS Time range'')
      else Inr (of_int (rt_sec stamp) * 1000000000 + ucast (rt_nanosec stamp)))"

definition make_stamped_job :: "u64 \<Rightarrow> u64 \<Rightarrow> ros_time \<Rightarrow> stamped_job res" where
  "make_stamped_job job_id release_ts_ns source_stamp =
     (if job_id = 0 \<or> release_ts_ns = 0
      then Inl (Invalid_argument ''job id and monotonic release timestamp must be nonzero'')
      else
        (case source_stamp_ns source_stamp of
           Inl e \<Rightarrow> Inl e
         | Inr ns \<Rightarrow> Inr \<lparr>sj_job_id = job_id, sj_release_ts_ns = release_ts_ns, sj_source_ts_ns = ns\<rparr>))"

section \<open>The node\<close>

record delivery_record =
  dr_stream :: string
  dr_job_id :: u64
  dr_source_ns :: u64
  dr_entry_ns :: u64
  dr_real_ns :: u64
  dr_release_ns :: u64
  dr_exit_ns :: u64
  dr_rmw_source_ns :: int
  dr_rmw_received_ns :: int
  dr_published :: bool

record stream_counts =
  ct_received :: u64
  ct_published :: u64
  ct_dropped :: u64
  ct_first_source_ts_ns :: u64

definition counts_new :: stream_counts where
  "counts_new = \<lparr>ct_received = 0, ct_published = 0, ct_dropped = 0, ct_first_source_ts_ns = 0\<rparr>"

definition trace_limit :: u64 where "trace_limit = 100000"

record adapter_trace =
  at_rows :: "delivery_record list"
  at_omitted :: u64

text \<open>What one delivery reads: the clocks in the order of the code, and the answer of \<open>publish\<close>.\<close>

record delivery_env =
  de_entry :: "u64 res"
  de_real :: "u64 res"
  de_rmw_source :: int
  de_rmw_received :: int
  de_release :: "u64 res"
  de_publish :: "unit res"
  de_exit :: "u64 res"
  de_exit_late :: "u64 res"

definition is_std_exception :: "exn \<Rightarrow> bool" where
  "is_std_exception e = (case e of Foreign_exception _ \<Rightarrow> False | _ \<Rightarrow> True)"

text \<open>
  The \<open>try\<close> block: the job number so far, the counters and the trace row as left behind, the job
  handed to the publisher, and the exception that ended the block.
\<close>

record delivery =
  dv_job_id :: u64
  dv_counts :: stream_counts
  dv_row :: delivery_record
  dv_sent :: "stamped_job option"

definition deliver ::
  "bool \<Rightarrow> delivery_env \<Rightarrow> index_entries \<Rightarrow> ros_time \<Rightarrow> delivery \<Rightarrow> exn option \<times> delivery" where
  "deliver tracing env idx stamp d =
     (case source_stamp_ns stamp of Inl e \<Rightarrow> (Some e, d) | Inr source_ns \<Rightarrow>
     (case index_job_id idx source_ns (dv_job_id d) of Inl e \<Rightarrow> (Some e, d) | Inr job_id \<Rightarrow>
     (let d1 = d\<lparr>dv_job_id := job_id\<rparr>
      in case de_release env of Inl e \<Rightarrow> (Some e, d1) | Inr now \<Rightarrow>
     (case make_stamped_job job_id now stamp of Inl e \<Rightarrow> (Some e, d1) | Inr job \<Rightarrow>
     (let row = dv_row d1;
          row1 = (if tracing then row\<lparr>dr_source_ns := sj_source_ts_ns job, dr_release_ns := sj_release_ts_ns job\<rparr>
                  else row);
          c = dv_counts d1;
          c1 = (if ct_first_source_ts_ns c = 0 then c\<lparr>ct_first_source_ts_ns := sj_source_ts_ns job\<rparr> else c);
          d2 = d1\<lparr>dv_counts := c1, dv_row := row1\<rparr>
      in case de_publish env of Inl e \<Rightarrow> (Some e, d2) | Inr _ \<Rightarrow>
     (let d3 = d2\<lparr>dv_sent := Some job\<rparr>;
          counted = c1\<lparr>ct_published := ct_published c1 + 1\<rparr>
      in if tracing then
           (case de_exit env of Inl e \<Rightarrow> (Some e, d3)
            | Inr fin \<Rightarrow> (None, d3\<lparr>dv_counts := counted, dv_row := row1\<lparr>dr_exit_ns := fin, dr_published := True\<rparr>\<rparr>))
         else (None, d3\<lparr>dv_counts := counted\<rparr>)))))))"

definition row_new :: "bool \<Rightarrow> string \<Rightarrow> delivery_env \<Rightarrow> delivery_record res" where
  "row_new tracing stream env =
     (let row = \<lparr>dr_stream = [], dr_job_id = 0, dr_source_ns = 0, dr_entry_ns = 0, dr_real_ns = 0,
            dr_release_ns = 0, dr_exit_ns = 0, dr_rmw_source_ns = 0, dr_rmw_received_ns = 0,
            dr_published = False\<rparr>
      in if \<not> tracing then Inr row
         else (case de_entry env of Inl e \<Rightarrow> Inl e | Inr entry \<Rightarrow>
              (case de_real env of Inl e \<Rightarrow> Inl e | Inr real \<Rightarrow>
                 Inr (row\<lparr>dr_entry_ns := entry, dr_real_ns := real, dr_stream := stream,
                        dr_rmw_source_ns := de_rmw_source env, dr_rmw_received_ns := de_rmw_received env\<rparr>))))"

definition keep_row :: "delivery_record \<Rightarrow> adapter_trace \<Rightarrow> adapter_trace" where
  "keep_row row t =
     (if vsize (at_rows t) < trace_limit then t\<lparr>at_rows := at_rows t @ [row]\<rparr>
      else t\<lparr>at_omitted := at_omitted t + 1\<rparr>)"

text \<open>\<open>publish_job\<close>: what was sent, the counters and the trace, or the exception that escaped.\<close>

definition publish_job ::
  "bool \<Rightarrow> string \<Rightarrow> delivery_env \<Rightarrow> index_entries \<Rightarrow> ros_time \<Rightarrow> stream_counts \<Rightarrow> adapter_trace \<Rightarrow>
   exn option \<times> stamped_job option \<times> stream_counts \<times> adapter_trace" where
  "publish_job tracing stream env idx stamp counts tr =
     (case row_new tracing stream env of
        Inl e \<Rightarrow> (Some e, None, counts, tr)
      | Inr row \<Rightarrow>
          (let received = ct_received counts + 1;
               (err, d) = deliver tracing env idx stamp
                 \<lparr>dv_job_id = received, dv_counts = counts\<lparr>ct_received := received\<rparr>, dv_row = row, dv_sent = None\<rparr>
           in if (case err of None \<Rightarrow> False | Some e \<Rightarrow> \<not> is_std_exception e)
              then (err, dv_sent d, dv_counts d, tr)
              else
                (let c = (if err = None then dv_counts d
                          else (dv_counts d)\<lparr>ct_dropped := ct_dropped (dv_counts d) + 1\<rparr>)
                 in if \<not> tracing then (None, dv_sent d, c, tr)
                    else
                      (let row1 = (dv_row d)\<lparr>dr_job_id := dv_job_id d\<rparr>
                       in if dr_exit_ns row1 \<noteq> 0 then (None, dv_sent d, c, keep_row row1 tr)
                          else
                            (case de_exit_late env of
                               Inl e \<Rightarrow> (Some e, dv_sent d, c, tr)
                             | Inr fin \<Rightarrow> (None, dv_sent d, c, keep_row (row1\<lparr>dr_exit_ns := fin\<rparr>) tr))))))"

text \<open>The readiness service.\<close>

definition required_ok :: "int \<Rightarrow> unit res" where
  "required_ok required =
     (if required < 0 then Inl (Invalid_argument ''required_job_subscribers must be non-negative'')
      else Inr ())"

definition readiness :: "int \<Rightarrow> u64 \<Rightarrow> u64 \<Rightarrow> u64 \<Rightarrow> u64 \<Rightarrow> bool \<times> string" where
  "readiness required imu camera imu_jobs camera_jobs =
     (imu = 1 \<and> camera = 1 \<and> imu_jobs = of_int required \<and> camera_jobs = of_int required,
      ''imu_publishers='' @ show_u64 imu @ '' camera_publishers='' @ show_u64 camera @
      '' imu_job_subscribers='' @ show_u64 imu_jobs @ '' camera_job_subscribers='' @ show_u64 camera_jobs)"

section \<open>The writer of an index\<close>

definition write_index :: "u64 list \<Rightarrow> string" where
  "write_index stamps = concat (map (\<lambda>(stamp, ordinal). show_u64 stamp @ [CHR 0x09] @ show_nat ordinal @ [CHR 0x0A])
     (zip stamps [1..<Suc (length stamps)]))"

section \<open>A run of the node\<close>

record adapter =
  ad_imu_counts :: stream_counts
  ad_camera_counts :: stream_counts
  ad_trace :: adapter_trace

definition adapter_new :: adapter where
  "adapter_new = \<lparr>ad_imu_counts = counts_new, ad_camera_counts = counts_new,
     ad_trace = \<lparr>at_rows = [], at_omitted = 0\<rparr>\<rparr>"

text \<open>The two subscription callbacks.\<close>

definition adapter_step ::
  "bool \<Rightarrow> index_entries \<Rightarrow> index_entries \<Rightarrow> bool \<times> delivery_env \<times> ros_time \<Rightarrow> adapter \<Rightarrow>
   exn option \<times> stamped_job option \<times> adapter" where
  "adapter_step tracing imu_index camera_index m a =
     (case m of
        (True, env, stamp) \<Rightarrow>
          (let (err, sent, c, t) = publish_job tracing ''IMU'' env imu_index stamp (ad_imu_counts a) (ad_trace a)
           in (err, sent, a\<lparr>ad_imu_counts := c, ad_trace := t\<rparr>))
      | (False, env, stamp) \<Rightarrow>
          (let (err, sent, c, t) = publish_job tracing ''camera'' env camera_index stamp (ad_camera_counts a) (ad_trace a)
           in (err, sent, a\<lparr>ad_camera_counts := c, ad_trace := t\<rparr>)))"

text \<open>Messages one after the other, as long as no exception leaves a callback.\<close>

fun adapter_run ::
  "bool \<Rightarrow> index_entries \<Rightarrow> index_entries \<Rightarrow> (bool \<times> delivery_env \<times> ros_time) list \<Rightarrow> adapter \<Rightarrow>
   (stamped_job list \<times> adapter) res" where
  "adapter_run tracing ii ci [] a = Inr ([], a)"
| "adapter_run tracing ii ci (m # ms) a =
     (case adapter_step tracing ii ci m a of
        (Some e, _, _) \<Rightarrow> Inl e
      | (None, sent, b) \<Rightarrow>
          (case adapter_run tracing ii ci ms b of
             Inl e \<Rightarrow> Inl e
           | Inr (jobs, c) \<Rightarrow> Inr ((case sent of None \<Rightarrow> jobs | Some j \<Rightarrow> j # jobs), c)))"

section \<open>Lemmas\<close>

subsection \<open>The index\<close>

definition index_ok :: "u64 \<Rightarrow> index_entries \<Rightarrow> bool" where
  "index_ok previous es \<longleftrightarrow> sorted_wrt (<) (map fst es) \<and>
     (\<forall>e \<in> set es. fst e \<noteq> 0 \<and> fst e \<le> previous) \<and>
     map snd es = map of_nat [1..<Suc (length es)]"

lemma index_ok_snoc:
  assumes "index_ok previous es" and "\<not> (stamp = 0 \<or> stamp \<le> previous \<or> ordinal \<noteq> vsize es + 1)"
  shows "index_ok stamp (es @ [(stamp, ordinal)])"
proof -
  have "fst e < stamp" if "e \<in> set es" for e
    using assms that by (force simp: index_ok_def not_le)
  moreover have "ordinal = of_nat (Suc (length es))" using assms(2) by (simp add: vsize_def)
  ultimately show ?thesis
    using assms(1) assms(2) by (auto simp: index_ok_def sorted_wrt_append less_imp_le)
qed

lemma index_loop_ok:
  "index_loop path previous es input = Inr (es', eof) \<Longrightarrow> index_ok previous es \<Longrightarrow> \<exists>p. index_ok p es'"
proof (induction path previous es input rule: index_loop.induct)
  case (1 path previous es input)
  obtain r rest where r: "stream_read input = (r, rest)" by fastforce
  show ?case
  proof (cases r)
    case None
    with 1 r show ?thesis by (auto simp: index_loop.simps [of path previous es input])
  next
    case (Some stamp)
    obtain r2 rest2 where r2: "stream_read rest = (r2, rest2)" by fastforce
    with r Some "1.prems"(1) obtain ordinal where o: "r2 = Some ordinal"
      by (cases r2) (auto simp: index_loop.simps [of path previous es input])
    let ?bad = "stamp = 0 \<or> stamp \<le> previous \<or> ordinal \<noteq> vsize es + 1"
    have g: "\<not> ?bad"
      using r Some r2 o "1.prems"(1)
      by (simp add: index_loop.simps [of path previous es input] split: if_splits)
    then have n: "index_loop path stamp (es @ [(stamp, ordinal)]) rest2 = Inr (es', eof)"
      using r Some r2 o "1.prems"(1) by (simp add: index_loop.simps [of path previous es input])
    show ?thesis
      by (rule "1.IH" [OF r [symmetric] Some [symmetric, THEN sym] r2 [symmetric] o g n
            index_ok_snoc [OF "1.prems"(2) g]])
  qed
qed

lemma index_loop_space:
  "is_space c \<Longrightarrow> index_loop path previous es (c # s) = index_loop path previous es s"
  by (simp add: index_loop.simps [of path previous es "c # s"] index_loop.simps [of path previous es s]
    stream_read_space)

fun write_lines :: "nat \<Rightarrow> u64 list \<Rightarrow> string" where
  "write_lines k [] = []"
| "write_lines k (s # ss) = show_u64 s @ CHR 0x09 # show_nat k @ CHR 0x0A # write_lines (Suc k) ss"

lemma write_index_lines: "write_index stamps = write_lines 1 stamps"
proof -
  have "concat (map (\<lambda>(stamp, ordinal). show_u64 stamp @ [CHR 0x09] @ show_nat ordinal @ [CHR 0x0A])
     (zip ss [k..<k + length ss])) = write_lines k ss" for k ss
  proof (induction ss arbitrary: k)
    case (Cons a ss)
    have "[k..<k + length (a # ss)] = k # [Suc k..<Suc k + length ss]"
      by (simp add: upt_conv_Cons del: upt_Suc)
    with Cons.IH [of "Suc k"] show ?case by (simp del: upt_Suc)
  qed simp
  from this [of stamps 1] show ?thesis by (simp add: write_index_def)
qed

lemma index_loop_line:
  assumes "k < 18446744073709551616"
  shows "index_loop path previous es (show_u64 stamp @ CHR 0x09 # show_nat k @ CHR 0x0A # text) =
    (if stamp = 0 \<or> stamp \<le> previous \<or> of_nat k \<noteq> vsize es + 1 then Inl (bad_index path)
     else index_loop path stamp (es @ [(stamp, of_nat k)]) text)"
proof -
  have e: "ends_number (CHR 0x09 # u)" "ends_number (CHR 0x0A # u)" for u
    by (simp_all add: ends_number_def is_digit_def)
  have sp: "is_space (CHR 0x09)" "is_space (CHR 0x0A)" by (simp_all add: is_space_def)
  have k: "show_nat k = show_u64 (of_nat k)" using assms by (simp add: show_u64_def unat_of_nat_u64)
  show ?thesis
    unfolding k
    by (subst index_loop.simps)
      (simp add: stream_read_show [OF e(1)] stream_read_show [OF e(2)] stream_read_space sp index_loop_space)
qed

lemma index_loop_end: "index_loop path previous es [] = Inr (es, True)"
  by (simp add: index_loop.simps [of path previous es "[]"] stream_read_def)

text \<open>The lines written are read back, and the loop goes on with what follows them.\<close>

lemma index_loop_lines:
  assumes "sorted_wrt (<) (previous # stamps)" and "length es + length stamps < 18446744073709551616"
  shows "index_loop path previous es (write_lines (Suc (length es)) stamps @ text) =
    index_loop path (last (previous # stamps))
      (es @ zip stamps (map of_nat [Suc (length es)..<Suc (length es) + length stamps])) text"
  using assms
proof (induction stamps arbitrary: previous es)
  case (Cons a ss)
  have g: "\<not> (a = 0 \<or> a \<le> previous \<or> of_nat (Suc (length es)) \<noteq> vsize es + 1)"
    using Cons.prems(1) by (auto simp: vsize_def not_le)
  have "index_loop path previous es (write_lines (Suc (length es)) (a # ss) @ text) =
      index_loop path a (es @ [(a, of_nat (Suc (length es)))]) (write_lines (Suc (Suc (length es))) ss @ text)"
    using g Cons.prems(2) by (subst write_lines.simps) (simp add: index_loop_line)
  also have "\<dots> = index_loop path (last (a # ss)) ((es @ [(a, of_nat (Suc (length es)))]) @
      zip ss (map of_nat [Suc (Suc (length es))..<Suc (Suc (length es)) + length ss])) text"
    using Cons.IH [of a "es @ [(a, of_nat (Suc (length es)))]"] Cons.prems by simp
  finally show ?case by (simp add: upt_conv_Cons del: upt_Suc)
qed simp

text \<open>A number that cannot be extracted leaves the loop; whether the stream was exhausted depends on what follows.\<close>

lemma index_loop_unreadable:
  assumes "sign \<in> {[], ''-'', ''+''}" and "list_all is_digit ds" and "sign @ ds \<noteq> []"
    and "ds = [] \<or> ULLONG_MAX < digits_val ds" and "ends_number rest"
  shows "index_loop path previous es (sign @ ds @ rest) = Inr (es, rest = [])"
proof -
  have tw: "takeWhile is_digit (ds @ rest) = ds" "dropWhile is_digit (ds @ rest) = rest"
    using assms(2,5) by (induction ds; cases rest; auto simp: ends_number_def)+
  have "after_sign (dropWhile is_space (sign @ ds @ rest)) = (sign = ''-'', ds @ rest)"
  proof (cases "sign = []")
    case True
    with assms(2,3) obtain c cs where "ds = c # cs" "is_digit c" by (cases ds) auto
    with True digit_not_special [of c] show ?thesis by simp
  qed (use assms(1) in \<open>auto simp: is_space_def\<close>)
  then have "stream_read (sign @ ds @ rest) = (None, rest)"
    using assms(4) by (auto simp: stream_read_def tw)
  then show ?thesis by (subst index_loop.simps) simp
qed

subsection \<open>Delivery\<close>

text \<open>The block counts a job as published exactly when it was not left by an exception.\<close>

lemma deliver_counts:
  assumes "deliver tracing env idx stamp d = (err, d')"
  shows "ct_received (dv_counts d') = ct_received (dv_counts d) \<and>
    ct_dropped (dv_counts d') = ct_dropped (dv_counts d) \<and>
    ct_published (dv_counts d') = ct_published (dv_counts d) + (if err = None then 1 else 0)"
  using assms unfolding deliver_def Let_def
  by (cases "source_stamp_ns stamp"; cases "de_release env"; cases "de_publish env"; cases "de_exit env")
    (auto split: sum.splits if_splits)

text \<open>What is sent is the job of this message.\<close>

lemma deliver_sent:
  assumes "deliver tracing env idx stamp d = (err, d')" and "dv_sent d = None"
  shows "(case de_exit env of Inl _ \<Rightarrow> True | Inr _ \<Rightarrow> dv_sent d' \<noteq> None \<longleftrightarrow> err = None) \<and>
    (\<forall>job. dv_sent d' = Some job \<longrightarrow> sj_job_id job \<noteq> 0 \<and> sj_release_ts_ns job \<noteq> 0 \<and>
      source_stamp_ns stamp = Inr (sj_source_ts_ns job) \<and>
      index_job_id idx (sj_source_ts_ns job) (dv_job_id d) = Inr (sj_job_id job) \<and>
      de_release env = Inr (sj_release_ts_ns job))"
  using assms unfolding deliver_def Let_def
  by (cases "source_stamp_ns stamp"; cases "de_release env"; cases "de_publish env"; cases "de_exit env")
    (auto simp: make_stamped_job_def split: sum.splits if_splits)

text \<open>A delivery from which no exception escapes: what the block did, and the row kept when tracing.\<close>

lemma publish_job_cases:
  assumes "publish_job tracing stream env idx stamp counts tr = (None, sent, c, t)"
  obtains row err d row1 where
    "deliver tracing env idx stamp \<lparr>dv_job_id = ct_received counts + 1,
       dv_counts = counts\<lparr>ct_received := ct_received counts + 1\<rparr>, dv_row = row, dv_sent = None\<rparr> = (err, d)"
    "sent = dv_sent d"
    "c = (if err = None then dv_counts d else (dv_counts d)\<lparr>ct_dropped := ct_dropped (dv_counts d) + 1\<rparr>)"
    "t = (if tracing then keep_row row1 tr else tr)"
proof (cases "row_new tracing stream env")
  case (Inl e)
  with assms show thesis by (simp add: publish_job_def)
next
  case (Inr row)
  obtain err d where d: "deliver tracing env idx stamp \<lparr>dv_job_id = ct_received counts + 1,
      dv_counts = counts\<lparr>ct_received := ct_received counts + 1\<rparr>, dv_row = row, dv_sent = None\<rparr> = (err, d)"
    by fastforce
  let ?r = "(dv_row d)\<lparr>dr_job_id := dv_job_id d\<rparr>"
  have std: "\<not> (case err of None \<Rightarrow> False | Some e \<Rightarrow> \<not> is_std_exception e)"
  proof
    assume bad: "case err of None \<Rightarrow> False | Some e \<Rightarrow> \<not> is_std_exception e"
    with assms Inr d have "err = None" by (simp add: publish_job_def)
    with bad show False by simp
  qed
  show thesis
  proof (rule that [OF d, of "if dr_exit_ns ?r \<noteq> 0 then ?r
      else case de_exit_late env of Inl _ \<Rightarrow> ?r | Inr fin \<Rightarrow> ?r\<lparr>dr_exit_ns := fin\<rparr>"])
    show "sent = dv_sent d" and "c = (if err = None then dv_counts d
        else (dv_counts d)\<lparr>ct_dropped := ct_dropped (dv_counts d) + 1\<rparr>)"
      and "t = (if tracing then keep_row (if dr_exit_ns ?r \<noteq> 0 then ?r
        else case de_exit_late env of Inl _ \<Rightarrow> ?r | Inr fin \<Rightarrow> ?r\<lparr>dr_exit_ns := fin\<rparr>) tr else tr)"
      using assms Inr d std by (cases err; simp add: publish_job_def Let_def split: if_splits sum.splits)+
  qed
qed

definition rows_seen :: "adapter_trace \<Rightarrow> u64" where
  "rows_seen t = vsize (at_rows t) + at_omitted t"

lemma keep_row_counts:
  "rows_seen (keep_row row t) = rows_seen t + 1"
  "length (at_rows t) \<le> 100000 \<Longrightarrow> length (at_rows (keep_row row t)) \<le> 100000"
proof -
  show "rows_seen (keep_row row t) = rows_seen t + 1" by (simp add: rows_seen_def keep_row_def)
  assume le: "length (at_rows t) \<le> 100000"
  then have "unat (vsize (at_rows t)) = length (at_rows t)" by (simp add: vsize_def unat_of_nat_u64)
  with le show "length (at_rows (keep_row row t)) \<le> 100000"
    by (simp add: keep_row_def trace_limit_def word_less_nat_alt)
qed

lemma publish_job_counts:
  assumes "publish_job tracing stream env idx stamp counts tr = (None, sent, c, t)"
  shows "ct_received c = ct_received counts + 1 \<and>
    ct_published c + ct_dropped c = ct_published counts + ct_dropped counts + 1 \<and>
    rows_seen t = rows_seen tr + (if tracing then 1 else 0) \<and>
    (length (at_rows tr) \<le> 100000 \<longrightarrow> length (at_rows t) \<le> 100000) \<and>
    (case de_exit env of Inl _ \<Rightarrow> True
     | Inr _ \<Rightarrow> ct_published c = ct_published counts + (if sent = None then 0 else 1))"
  using assms
proof (cases rule: publish_job_cases)
  case (1 row err d row1)
  from deliver_counts [OF 1(1)] deliver_sent [OF 1(1)] 1(2-4) show ?thesis
    by (cases err) (simp_all add: keep_row_counts split: sum.splits)
qed

definition stream_ok :: "stream_counts \<Rightarrow> bool" where
  "stream_ok c \<longleftrightarrow> ct_received c = ct_published c + ct_dropped c"

lemma adapter_step_counts:
  assumes "adapter_step tracing ii ci m a = (None, sent, b)"
    and "stream_ok (ad_imu_counts a)" and "stream_ok (ad_camera_counts a)"
    and "length (at_rows (ad_trace a)) \<le> 100000"
  shows "stream_ok (ad_imu_counts b) \<and> stream_ok (ad_camera_counts b) \<and>
    length (at_rows (ad_trace b)) \<le> 100000 \<and>
    ct_received (ad_imu_counts b) + ct_received (ad_camera_counts b) =
      ct_received (ad_imu_counts a) + ct_received (ad_camera_counts a) + 1 \<and>
    rows_seen (ad_trace b) = rows_seen (ad_trace a) + (if tracing then 1 else 0) \<and>
    (case de_exit (fst (snd m)) of Inl _ \<Rightarrow> True
     | Inr _ \<Rightarrow> ct_published (ad_imu_counts b) + ct_published (ad_camera_counts b) =
         ct_published (ad_imu_counts a) + ct_published (ad_camera_counts a) + (if sent = None then 0 else 1))"
proof -
  obtain imu env stamp where m: "m = (imu, env, stamp)" by (cases m)
  show ?thesis
  proof (cases imu)
    case True
    then obtain c t where p: "publish_job tracing ''IMU'' env ii stamp (ad_imu_counts a) (ad_trace a) =
        (None, sent, c, t)" and b: "b = a\<lparr>ad_imu_counts := c, ad_trace := t\<rparr>"
      using assms(1) by (auto simp: adapter_step_def m split: prod.splits)
    from publish_job_counts [OF p] assms(2-4) show ?thesis
      by (simp add: b m stream_ok_def algebra_simps split: sum.splits)
  next
    case False
    then obtain c t where p: "publish_job tracing ''camera'' env ci stamp (ad_camera_counts a) (ad_trace a) =
        (None, sent, c, t)" and b: "b = a\<lparr>ad_camera_counts := c, ad_trace := t\<rparr>"
      using assms(1) by (auto simp: adapter_step_def m split: prod.splits)
    from publish_job_counts [OF p] assms(2-4) show ?thesis
      by (simp add: b m stream_ok_def algebra_simps split: sum.splits)
  qed
qed

text \<open>What a delivery sends is the job of its message.\<close>

definition job_of :: "index_entries \<Rightarrow> index_entries \<Rightarrow> bool \<times> delivery_env \<times> ros_time \<Rightarrow> stamped_job \<Rightarrow> bool" where
  "job_of ii ci m job \<longleftrightarrow> sj_job_id job \<noteq> 0 \<and> de_release (fst (snd m)) = Inr (sj_release_ts_ns job) \<and>
     source_stamp_ns (snd (snd m)) = Inr (sj_source_ts_ns job) \<and>
     ((if fst m then ii else ci) \<noteq> [] \<longrightarrow>
        map_of (if fst m then ii else ci) (sj_source_ts_ns job) = Some (sj_job_id job))"

lemma index_job_id_map:
  "index_job_id idx ns k = Inr n \<Longrightarrow> idx \<noteq> [] \<Longrightarrow> map_of idx ns = Some n"
  by (simp add: index_job_id_def split: option.splits)

lemma publish_job_sent:
  assumes "publish_job tracing stream env idx stamp counts tr = (None, Some job, c, t)"
  shows "sj_job_id job \<noteq> 0 \<and> de_release env = Inr (sj_release_ts_ns job) \<and>
    source_stamp_ns stamp = Inr (sj_source_ts_ns job) \<and>
    (idx \<noteq> [] \<longrightarrow> map_of idx (sj_source_ts_ns job) = Some (sj_job_id job))"
  using assms
proof (cases rule: publish_job_cases)
  case (1 row err d row1)
  have "sj_job_id job \<noteq> 0 \<and> de_release env = Inr (sj_release_ts_ns job) \<and>
      source_stamp_ns stamp = Inr (sj_source_ts_ns job) \<and>
      index_job_id idx (sj_source_ts_ns job) (ct_received counts + 1) = Inr (sj_job_id job)"
    using deliver_sent [OF 1(1)] 1(2) by simp
  then show ?thesis using index_job_id_map by blast
qed

lemma adapter_step_sent:
  "adapter_step tracing ii ci m a = (None, Some job, b) \<Longrightarrow> job_of ii ci m job"
  by (cases m; cases "fst m") (auto simp: adapter_step_def job_of_def dest: publish_job_sent split: prod.splits)

lemma adapter_run_Cons:
  assumes "adapter_run tracing ii ci (m # ms) a = Inr (jobs, c)"
  obtains sent b jobs1 where "adapter_step tracing ii ci m a = (None, sent, b)"
    "adapter_run tracing ii ci ms b = Inr (jobs1, c)"
    "jobs = (case sent of None \<Rightarrow> jobs1 | Some j \<Rightarrow> j # jobs1)"
  using assms by (auto split: prod.splits option.splits sum.splits)

lemma adapter_run_counts:
  assumes "adapter_run tracing ii ci ms a = Inr (jobs, b)"
    and "stream_ok (ad_imu_counts a)" and "stream_ok (ad_camera_counts a)"
    and "length (at_rows (ad_trace a)) \<le> 100000"
    and "\<forall>m \<in> set ms. \<exists>t. de_exit (fst (snd m)) = Inr t"
  shows "stream_ok (ad_imu_counts b) \<and> stream_ok (ad_camera_counts b) \<and>
    length (at_rows (ad_trace b)) \<le> 100000 \<and>
    ct_received (ad_imu_counts b) + ct_received (ad_camera_counts b) =
      ct_received (ad_imu_counts a) + ct_received (ad_camera_counts a) + vsize ms \<and>
    rows_seen (ad_trace b) = rows_seen (ad_trace a) + (if tracing then vsize ms else 0) \<and>
    ct_published (ad_imu_counts b) + ct_published (ad_camera_counts b) =
      ct_published (ad_imu_counts a) + ct_published (ad_camera_counts a) + vsize jobs \<and>
    (\<forall>job \<in> set jobs. \<exists>m \<in> set ms. job_of ii ci m job)"
  using assms
proof (induction ms arbitrary: a jobs)
  case (Cons m ms)
  from Cons.prems(1) show ?case
  proof (cases rule: adapter_run_Cons)
    case (1 sent c jobs1)
    have e: "\<exists>t. de_exit (fst (snd m)) = Inr t" "\<forall>m \<in> set ms. \<exists>t. de_exit (fst (snd m)) = Inr t"
      using Cons.prems(5) by simp_all
    note s = adapter_step_counts [OF 1(1) Cons.prems(2-4)]
    note i = Cons.IH [OF 1(2) _ _ _ e(2)]
    show ?thesis
    proof (cases sent)
      case None
      with s i e(1) 1(3) show ?thesis by (auto simp: add.assoc)
    next
      case (Some j)
      with 1(1) have "job_of ii ci m j" by (simp add: adapter_step_sent)
      with Some s i e(1) 1(3) show ?thesis by (auto simp: add.assoc)
    qed
  qed
qed simp

section \<open>Properties\<close>

text \<open>
  C30: Round trip of the source index. What the bag script writes for strictly increasing positive stamps
  is loaded back as exactly these stamps with the ordinals 1, 2, ...; looking a stamp up then gives its
  ordinal whatever was received before, and a stamp of no message of the bag is an error.
\<close>

theorem index_roundtrip:
  assumes "path \<noteq> []" and "stamps \<noteq> []" and "sorted_wrt (<) (0 # stamps)"
    and "length stamps < 18446744073709551616"
  shows "\<exists>es. source_job_index path (Some (write_index stamps)) = Inr es \<and> map fst es = stamps \<and>
    (\<forall>i < length stamps. index_job_id es (stamps ! i) counter = Inr (of_nat (Suc i))) \<and>
    (\<forall>ns. ns \<notin> set stamps \<longrightarrow>
      index_job_id es ns counter = Inl (Runtime_error ''timestamp absent from bag index''))"
proof -
  let ?ords = "map of_nat [Suc 0..<Suc (length stamps)] :: u64 list"
  let ?es = "zip stamps ?ords"
  have "index_loop path 0 [] (write_index stamps) = Inr (?es, True)"
    using index_loop_lines [OF assms(3), of "[]" path "[]"] assms(4)
    by (simp add: write_index_lines index_loop_end del: upt_Suc)
  then have l: "source_job_index path (Some (write_index stamps)) = Inr ?es"
    using assms(1,2) by (simp add: source_job_index_def del: upt_Suc)
  have d: "distinct stamps"
    using assms(3) by (simp add: strict_sorted_iff)
  have len: "length stamps = length ?ords" by (simp del: upt_Suc)
  then have f: "map fst ?es = stamps" by (simp del: upt_Suc)
  have hit: "map_of ?es (stamps ! i) = Some (of_nat (Suc i))" if i: "i < length stamps" for i
  proof -
    have "i < length ?ords" using i by (simp del: upt_Suc)
    from map_of_zip_nth [OF len d this] i show ?thesis by (simp del: upt_Suc)
  qed
  have miss: "map_of ?es ns = None" if "ns \<notin> set stamps" for ns
    using that unfolding map_of_eq_None_iff set_map [symmetric] f .
  have ne: "?es \<noteq> []" using assms(2) f by force
  have "\<forall>i < length stamps. index_job_id ?es (stamps ! i) counter = Inr (of_nat (Suc i))"
    using ne hit by (simp add: index_job_id_def del: upt_Suc)
  moreover have "index_job_id ?es ns counter = Inl (Runtime_error ''timestamp absent from bag index'')"
    if "ns \<notin> set stamps" for ns
    unfolding index_job_id_def miss [OF that] if_not_P [OF ne] by (rule option.case(1))
  ultimately show ?thesis using l f by blast
qed

text \<open>
  Whatever a file contains, an index that is loaded is well formed: not empty, its stamps strictly
  increasing and not zero, its ordinals 1, 2, ... in order; no entry is ever replaced.
\<close>

theorem index_wellformed:
  assumes "source_job_index path opened = Inr es" and "path \<noteq> []"
  shows "es \<noteq> [] \<and> sorted_wrt (<) (0 # map fst es) \<and> map snd es = map of_nat [1..<Suc (length es)]"
proof -
  obtain content where f: "opened = Some content"
    using assms by (cases opened) (simp_all add: source_job_index_def)
  obtain eof where l: "index_loop path 0 [] content = Inr (es, eof)" and ne: "es \<noteq> []"
    using assms by (auto simp: source_job_index_def f split: sum.splits if_splits)
  have "index_ok 0 []" by (simp add: index_ok_def)
  from index_loop_ok [OF l this] obtain p where "index_ok p es" by blast
  with ne show ?thesis by (auto simp: index_ok_def word_gt_0 simp del: upt_Suc)
qed

text \<open>
  C34: Accounting of the adapter. As long as no exception leaves a callback, every message received on a
  stream is counted as published or as dropped; with delivery tracing every message is a trace row or is
  counted as omitted, and there are never more than 100000 rows; the jobs handed to the publishers are
  as many as the counters say, and each carries the stamp of its message, the release clock and, with an
  index, the ordinal of its stamp.
\<close>

theorem adapter_accounting:
  assumes "adapter_run tracing ii ci ms adapter_new = Inr (jobs, a)"
    and "\<forall>m \<in> set ms. \<exists>t. de_exit (fst (snd m)) = Inr t"
  shows "ct_received (ad_imu_counts a) = ct_published (ad_imu_counts a) + ct_dropped (ad_imu_counts a) \<and>
    ct_received (ad_camera_counts a) = ct_published (ad_camera_counts a) + ct_dropped (ad_camera_counts a) \<and>
    ct_received (ad_imu_counts a) + ct_received (ad_camera_counts a) = vsize ms \<and>
    ct_published (ad_imu_counts a) + ct_published (ad_camera_counts a) = vsize jobs \<and>
    vsize (at_rows (ad_trace a)) + at_omitted (ad_trace a) = (if tracing then vsize ms else 0) \<and>
    length (at_rows (ad_trace a)) \<le> 100000 \<and>
    (\<forall>job \<in> set jobs. \<exists>m \<in> set ms. job_of ii ci m job)"
  using adapter_run_counts [OF assms(1) _ _ _ assms(2)]
  by (auto simp: adapter_new_def counts_new_def stream_ok_def rows_seen_def)

text \<open>
  C39: A last stamp that does not fit into 64 bits, or of which only a sign was written, is not reported
  when the file ends there. Take any index the bag script writes and append such a stamp: at the very
  end of the file the extraction fails with the stream exhausted, which the check after the loop takes
  for the end of the input, and the index is accepted without that line, with exactly the stamps before
  it; the same stamp followed by a line break is refused.
\<close>

theorem index_accepts_bad_tail:
  assumes "path \<noteq> []" and "stamps \<noteq> []" and "sorted_wrt (<) (0 # stamps)"
    and "length stamps < 18446744073709551616"
    and "sign \<in> {[], ''-'', ''+''}" and "list_all is_digit ds" and "sign @ ds \<noteq> []"
    and "ds = [] \<or> ULLONG_MAX < digits_val ds"
  shows "(\<exists>es. source_job_index path (Some (write_index stamps @ sign @ ds)) = Inr es \<and> map fst es = stamps \<and>
      source_job_index path (Some (write_index stamps)) = Inr es) \<and>
    source_job_index path (Some (write_index stamps @ sign @ ds @ [CHR 0x0A])) = Inl (bad_index path)"
proof -
  let ?es = "zip stamps (map of_nat [Suc 0..<Suc (length stamps)]) :: index_entries"
  have loop: "index_loop path 0 [] (write_index stamps @ more) = index_loop path (last (0 # stamps)) ?es more" for more
    using index_loop_lines [OF assms(3), of "[]" path more] assms(4) by (simp add: write_index_lines del: upt_Suc)
  have f: "map fst ?es = stamps" by (simp del: upt_Suc)
  then have ne: "?es \<noteq> []" using assms(2) by force
  note bad = index_loop_unreadable [OF assms(5-8)]
  have "index_loop path 0 [] (write_index stamps @ sign @ ds) = Inr (?es, True)"
    using loop [of "sign @ ds"] bad [of "[]"] by (simp add: ends_number_def del: upt_Suc)
  moreover have "index_loop path 0 [] (write_index stamps) = Inr (?es, True)"
    using loop [of "[]"] by (simp add: index_loop_end del: upt_Suc)
  moreover have "index_loop path 0 [] (write_index stamps @ sign @ ds @ [CHR 0x0A]) = Inr (?es, False)"
    using loop [of "sign @ ds @ [CHR 0x0A]"] bad [of "[CHR 0x0A]"]
    by (simp add: ends_number_def is_digit_def del: upt_Suc)
  ultimately show ?thesis using assms(1) f ne by (simp add: source_job_index_def del: upt_Suc)
qed

section \<open>Witnesses\<close>

lemmas index_eval = stream_read_def is_space_def is_digit_def digits_val_def digit_of_def ULLONG_MAX_def
  word_le_nat_alt

lemma demo_index: "source_job_index ''f'' (Some ''5 1 9 2'') = Inr [(5, 1), (9, 2)]"
proof -
  have "index_loop ''f'' 0 [] ''5 1 9 2'' = Inr ([(5, 1), (9, 2)], True)"
    by (subst index_loop.simps, subst index_loop.simps, subst index_loop.simps, simp add: index_eval)
  then show ?thesis by (simp add: source_job_index_def)
qed

theorem index_roundtrip_witness:
  "\<exists>es. source_job_index ''f'' (Some (write_index [5, 9])) = Inr es \<and> index_job_id es 9 7 = Inr 2"
proof -
  have s: "sorted_wrt (<) [0, 5, 9 :: u64]" by (simp add: word_less_nat_alt)
  obtain es where "source_job_index ''f'' (Some (write_index [5, 9])) = Inr es"
    "\<forall>i < length [5, 9 :: u64]. index_job_id es ([5, 9] ! i) 7 = Inr (of_nat (Suc i))"
    using index_roundtrip [of "''f''" "[5, 9]" 7, OF _ _ s] by auto
  then show ?thesis by (auto dest: spec [of _ 1])
qed

theorem index_accepts_bad_tail_witness:
  "\<exists>es. source_job_index ''f'' (Some (write_index [5, 9] @ ''18446744073709551616'')) = Inr es \<and> map fst es = [5, 9]"
proof -
  have s: "sorted_wrt (<) [0, 5, 9 :: u64]" by (simp add: word_less_nat_alt)
  have d: "list_all is_digit ''18446744073709551616''" "ULLONG_MAX < digits_val ''18446744073709551616''"
    by (simp_all add: is_digit_def digits_val_def digit_of_def ULLONG_MAX_def)
  show ?thesis
    using index_accepts_bad_tail [of "''f''" "[5, 9]" "[]" "''18446744073709551616''", OF _ _ s _ _ d(1) _ disjI2 [OF d(2)]]
    by auto
qed

theorem index_wellformed_witness: "sorted_wrt (<) [0, 5, 9 :: u64]"
  using index_wellformed [OF demo_index] by simp

definition demo_delivery :: delivery_env where
  "demo_delivery = \<lparr>de_entry = Inr 100, de_real = Inr 200, de_rmw_source = 0, de_rmw_received = 0,
     de_release = Inr 101, de_publish = Inr (), de_exit = Inr 102, de_exit_late = Inr 103\<rparr>"

definition demo_messages :: "(bool \<times> delivery_env \<times> ros_time) list" where
  "demo_messages = [(True, demo_delivery, \<lparr>rt_sec = 1, rt_nanosec = 5\<rparr>),
     (False, demo_delivery, \<lparr>rt_sec = -1, rt_nanosec = 5\<rparr>)]"

lemma demo_run_ok: "\<exists>jobs a. adapter_run True [] [] demo_messages adapter_new = Inr (jobs, a)"
  by (simp add: demo_messages_def demo_delivery_def adapter_step_def publish_job_def row_new_def deliver_def
    source_stamp_ns_def index_job_id_def make_stamped_job_def adapter_new_def counts_new_def
    is_std_exception_def word_le_nat_alt)

theorem adapter_accounting_witness:
  "\<exists>jobs a. adapter_run True [] [] demo_messages adapter_new = Inr (jobs, a) \<and>
     ct_received (ad_imu_counts a) + ct_received (ad_camera_counts a) = 2 \<and>
     vsize (at_rows (ad_trace a)) + at_omitted (ad_trace a) = 2"
proof -
  obtain jobs a where r: "adapter_run True [] [] demo_messages adapter_new = Inr (jobs, a)"
    using demo_run_ok by blast
  have "\<forall>m \<in> set demo_messages. \<exists>t. de_exit (fst (snd m)) = Inr t"
    by (simp add: demo_messages_def demo_delivery_def)
  note a = adapter_accounting [OF r this]
  have n: "vsize demo_messages = 2" by (simp add: demo_messages_def)
  from a have "ct_received (ad_imu_counts a) + ct_received (ad_camera_counts a) = 2" unfolding n by blast
  moreover from a have "vsize (at_rows (ad_trace a)) + at_omitted (ad_trace a) = 2"
    unfolding n by (simp only: if_True simp_thms)
  ultimately show ?thesis using r by blast
qed

end
