(* ===== verification/Bag_Main.thy ===== *)
theory Bag_Main
  imports Bag_Adapter
begin

text \<open>
  The constructor of the node of \<^verbatim>\<open>src/ros2/scx_slam_workload/src/bag_adapter.cpp\<close>, its summary, and
  \<open>main\<close>: parameters, indices, the messages of one \<open>spin\<close>, what is printed and the exit status.
\<close>

section \<open>Construction\<close>

text \<open>The declared parameters with their overrides, and the contents of the two index files.\<close>

record adapter_params =
  ap_trace_delivery :: "bool option"
  ap_imu_source_index :: "string option"
  ap_camera_source_index :: "string option"
  ap_required_job_subscribers :: "int option"
  ap_imu_file :: "string option"
  ap_camera_file :: "string option"

definition declare_parameter :: "'a option \<Rightarrow> 'a \<Rightarrow> 'a" where
  "declare_parameter override initial = (case override of Some v \<Rightarrow> v | None \<Rightarrow> initial)"

record adapter_node =
  an_tracing :: bool
  an_imu_index :: index_entries
  an_camera_index :: index_entries
  an_required :: int
  an_adapter :: adapter

definition bag_adapter :: "adapter_params \<Rightarrow> adapter_node res" where
  "bag_adapter p =
     (let imu_path = declare_parameter (ap_imu_source_index p) [];
          camera_path = declare_parameter (ap_camera_source_index p) [];
          required = declare_parameter (ap_required_job_subscribers p) 0
      in case source_job_index imu_path (ap_imu_file p) of Inl e \<Rightarrow> Inl e | Inr imu \<Rightarrow>
     (case source_job_index camera_path (ap_camera_file p) of Inl e \<Rightarrow> Inl e | Inr camera \<Rightarrow>
     (case required_ok required of Inl e \<Rightarrow> Inl e | Inr _ \<Rightarrow>
        Inr \<lparr>an_tracing = declare_parameter (ap_trace_delivery p) False, an_imu_index = imu,
             an_camera_index = camera, an_required = required, an_adapter = adapter_new\<rparr>)))"

section \<open>Summary\<close>

record adapter_summary =
  as_imu :: stream_counts
  as_camera :: stream_counts
  as_rows :: "delivery_record list"
  as_records :: u64
  as_omitted :: u64

text \<open>The rows and their numbers are printed only with tracing.\<close>

definition log_summary :: "bool \<Rightarrow> adapter \<Rightarrow> adapter_summary" where
  "log_summary tracing a =
     (let t = ad_trace a
      in \<lparr>as_imu = ad_imu_counts a, as_camera = ad_camera_counts a,
          as_rows = (if tracing then at_rows t else []),
          as_records = (if tracing then vsize (at_rows t) else 0),
          as_omitted = (if tracing then at_omitted t else 0)\<rparr>)"

section \<open>\<open>main\<close>\<close>

text \<open>
  Exit status and summary; \<open>None\<close> for an exception that is not a \<open>std::exception\<close>, which leaves \<open>main\<close>.
  An exception of a callback ends \<open>spin\<close>.
\<close>

definition adapter_main ::
  "adapter_params \<Rightarrow> (bool \<times> delivery_env \<times> ros_time) list \<Rightarrow> (int \<times> adapter_summary option) option" where
  "adapter_main p ms =
     (let caught = (\<lambda>e. if is_std_exception e then Some (1, None) else None)
      in case bag_adapter p of
           Inl e \<Rightarrow> caught e
         | Inr n \<Rightarrow>
             (case adapter_run (an_tracing n) (an_imu_index n) (an_camera_index n) ms (an_adapter n) of
                Inl e \<Rightarrow> caught e
              | Inr (jobs, a) \<Rightarrow> Some (0, Some (log_summary (an_tracing n) a))))"

section \<open>Facts\<close>

lemma bag_adapter_new: "bag_adapter p = Inr n \<Longrightarrow> an_adapter n = adapter_new"
  by (auto simp: bag_adapter_def Let_def split: sum.splits)

text \<open>
  A summary accounts for every message, and its trace for every message or none; the node can be ready
  only for a number of subscribers that its parameter allows.
\<close>

lemma adapter_main_summary:
  assumes "adapter_main p ms = Some (0, Some s)" and "\<forall>m \<in> set ms. \<exists>t. de_exit (fst (snd m)) = Inr t"
  shows "ct_received (as_imu s) = ct_published (as_imu s) + ct_dropped (as_imu s)"
    and "ct_received (as_camera s) = ct_published (as_camera s) + ct_dropped (as_camera s)"
    and "ct_received (as_imu s) + ct_received (as_camera s) = vsize ms"
    and "as_records s + as_omitted s = (if declare_parameter (ap_trace_delivery p) False then vsize ms else 0)"
proof -
  obtain n jobs a where n: "bag_adapter p = Inr n"
    and r: "adapter_run (an_tracing n) (an_imu_index n) (an_camera_index n) ms adapter_new = Inr (jobs, a)"
    and s: "s = log_summary (an_tracing n) a"
    using assms(1) by (auto simp: adapter_main_def Let_def bag_adapter_new split: sum.splits if_splits)
  have t: "an_tracing n = declare_parameter (ap_trace_delivery p) False"
    using n by (auto simp: bag_adapter_def Let_def split: sum.splits)
  note c = adapter_run_counts [OF r _ _ _ assms(2)]
  show "ct_received (as_imu s) = ct_published (as_imu s) + ct_dropped (as_imu s)"
    "ct_received (as_camera s) = ct_published (as_camera s) + ct_dropped (as_camera s)"
    "ct_received (as_imu s) + ct_received (as_camera s) = vsize ms"
    "as_records s + as_omitted s = (if declare_parameter (ap_trace_delivery p) False then vsize ms else 0)"
    using c unfolding s t
    by (auto simp: log_summary_def Let_def adapter_new_def counts_new_def stream_ok_def rows_seen_def)
qed

lemma bag_adapter_required:
  assumes "bag_adapter p = Inr n"
  shows "0 \<le> an_required n" and "an_required n < 2147483648 \<Longrightarrow> fst (readiness (an_required n) imu camera ij cj) \<longleftrightarrow>
    imu = 1 \<and> camera = 1 \<and> unat ij = nat (an_required n) \<and> unat cj = nat (an_required n)"
proof -
  show r: "0 \<le> an_required n"
    using assms by (auto simp: bag_adapter_def required_ok_def Let_def split: sum.splits if_splits)
  assume "an_required n < 2147483648"
  then have "nat (an_required n) < 18446744073709551616" by simp
  moreover have "(of_int (an_required n) :: u64) = of_nat (nat (an_required n))" using r by simp
  ultimately have "unat (of_int (an_required n) :: u64) = nat (an_required n)" by (simp only: unat_of_nat_u64)
  then show "fst (readiness (an_required n) imu camera ij cj) \<longleftrightarrow>
      imu = 1 \<and> camera = 1 \<and> unat ij = nat (an_required n) \<and> unat cj = nat (an_required n)"
    unfolding readiness_def by (auto simp: word_unat_eq_iff)
qed

text \<open>Without index files the node is built, and a negative number of subscribers is refused.\<close>

lemma bag_adapter_plain:
  assumes "ap_imu_source_index p = None" and "ap_camera_source_index p = None"
  shows "(\<exists>n. bag_adapter p = Inr n) \<longleftrightarrow> 0 \<le> declare_parameter (ap_required_job_subscribers p) 0"
  using assms by (simp add: bag_adapter_def Let_def declare_parameter_def source_job_index_def required_ok_def)

end
