(* ===== verification/Clocks.thy ===== *)
theory Clocks
  imports Prelude
begin

text \<open>
  Clocks and absolute sleeps, written out in each of the programs: \<open>clock_ns\<close> and \<open>sleep_until_ns\<close>
  of \<^verbatim>\<open>src/ros2/scx_slam_workload/src/slam_pipeline.cpp\<close> and \<^verbatim>\<open>bag_adapter.cpp\<close>,
  \<open>thread_cpu_ns\<close> and \<open>sleep_until_ns\<close> of \<^verbatim>\<open>src/demo/slam_pipeline_demo.cpp\<close>, \<open>now\<close> and
  \<open>sleep_until\<close> of \<^verbatim>\<open>src/demo/edf_workload.c\<close>. A time is split into the seconds and nanoseconds
  of a \<open>timespec\<close> and put together again; a sleep that a signal interrupts is repeated with the same
  absolute target. The answers of the system calls are inputs.
\<close>

section \<open>Readings\<close>

type_synonym timespec = "u64 \<times> u64"

text \<open>The result of \<open>clock_gettime\<close>: \<open>Inl errno\<close> or the time.\<close>

definition clock_ns_sys :: "int + timespec \<Rightarrow> u64 res" where
  "clock_ns_sys r = (case r of Inl errno \<Rightarrow> Inl (System_error errno ''clock_gettime'')
     | Inr (sec, nsec) \<Rightarrow> Inr (sec * 1000000000 + nsec))"

text \<open>In C, \<open>fail\<close> prints and leaves the process: \<open>Inl\<close> what failed.\<close>

definition edf_now :: "timespec option \<Rightarrow> string + u64" where
  "edf_now r = (case r of None \<Rightarrow> Inl ''clock_gettime'' | Some (sec, nsec) \<Rightarrow> Inr (sec * 1000000000 + nsec))"

definition thread_cpu_ns :: "timespec \<Rightarrow> u64" where
  "thread_cpu_ns ts = fst ts * 1000000000 + snd ts"

section \<open>Sleeping\<close>

definition timespec_of :: "u64 \<Rightarrow> timespec" where
  "timespec_of target = (target div 1000000000, target mod 1000000000)"

definition EINTR :: int where "EINTR = 4"

text \<open>
  The retry loop over the answers of \<open>clock_nanosleep\<close>, with the target of every call; \<open>None\<close> while
  the answers given are all \<open>EINTR\<close>.
\<close>

fun nanosleep_loop :: "timespec \<Rightarrow> int list \<Rightarrow> (int \<times> timespec list) option" where
  "nanosleep_loop ts [] = None"
| "nanosleep_loop ts (rc # rcs) =
     (if rc = EINTR then map_option (\<lambda>(e, calls). (e, ts # calls)) (nanosleep_loop ts rcs)
      else Some (rc, [ts]))"

text \<open>The demo ignores an error, the ROS pipeline throws it, the EDF workload fails.\<close>

definition demo_sleep_until :: "u64 \<Rightarrow> int list \<Rightarrow> unit option" where
  "demo_sleep_until target rcs = map_option (\<lambda>_. ()) (nanosleep_loop (timespec_of target) rcs)"

definition ros_sleep_until :: "u64 \<Rightarrow> int list \<Rightarrow> unit res option" where
  "ros_sleep_until target rcs = map_option (\<lambda>(error, _).
     if error \<noteq> 0 then Inl (System_error error ''clock_nanosleep'') else Inr ())
       (nanosleep_loop (timespec_of target) rcs)"

definition edf_sleep_until :: "u64 \<Rightarrow> int list \<Rightarrow> (string + unit) option" where
  "edf_sleep_until target rcs = map_option (\<lambda>(error, _).
     if error \<noteq> 0 then Inl ''clock_nanosleep'' else Inr ()) (nanosleep_loop (timespec_of target) rcs)"

section \<open>Facts\<close>

text \<open>A target is a valid \<open>timespec\<close> and reads back as itself, over the whole range.\<close>

lemma timespec_valid: "snd (timespec_of t) < 1000000000"
  by (simp add: timespec_of_def word_less_nat_alt unat_mod)

lemma timespec_roundtrip:
  "clock_ns_sys (Inr (timespec_of t)) = Inr t" "edf_now (Some (timespec_of t)) = Inr t"
  "thread_cpu_ns (timespec_of t) = t"
proof -
  have "t div 1000000000 * 1000000000 + t mod 1000000000 = t" by (rule div_mult_mod_eq)
  then show "clock_ns_sys (Inr (timespec_of t)) = Inr t" "edf_now (Some (timespec_of t)) = Inr t"
    "thread_cpu_ns (timespec_of t) = t"
    by (simp_all add: clock_ns_sys_def edf_now_def thread_cpu_ns_def timespec_of_def)
qed

text \<open>The loop returns with the first answer that is not an interruption, every call with the target.\<close>

lemma nanosleep_loop_spec:
  "nanosleep_loop ts rcs =
     (case dropWhile (\<lambda>rc. rc = EINTR) rcs of
        [] \<Rightarrow> None
      | rc # _ \<Rightarrow> Some (rc, replicate (Suc (length (takeWhile (\<lambda>rc. rc = EINTR) rcs))) ts))"
proof (induction rcs)
  case (Cons rc rcs)
  then show ?case by (cases "dropWhile (\<lambda>rc. rc = EINTR) rcs") (simp_all del: dropWhile_eq_Nil_conv)
qed simp

lemma ros_sleep_returns:
  assumes "\<exists>rc \<in> set rcs. rc \<noteq> EINTR"
  shows "\<exists>rc \<in> set rcs. rc \<noteq> EINTR \<and> ros_sleep_until target rcs =
    Some (if rc \<noteq> 0 then Inl (System_error rc ''clock_nanosleep'') else Inr ())"
proof -
  obtain rc rest where d: "dropWhile (\<lambda>rc. rc = EINTR) rcs = rc # rest"
    using assms by (cases "dropWhile (\<lambda>rc. rc = EINTR) rcs") (auto simp: dropWhile_eq_Nil_conv)
  then have "rc \<noteq> EINTR" "rc \<in> set rcs"
    using hd_dropWhile [of "\<lambda>rc. rc = EINTR" rcs] set_dropWhileD [of rc "\<lambda>rc. rc = EINTR" rcs] by auto
  with d show ?thesis by (intro bexI [of _ rc]) (simp_all add: ros_sleep_until_def nanosleep_loop_spec)
qed

end
