(* ===== verification/Edf_Workload.thy ===== *)
theory Edf_Workload
  imports Pipeline_Stages Clocks
begin

text \<open>
  The two periodic tasks of \<^verbatim>\<open>src/demo/edf_workload.c\<close>: the tables, the hint of a job, and the worker
  thread from its enrolment to the restored policy. Return codes and clocks are inputs, the hint map is
  a parameter; \<open>fail\<close> ends the process and is an \<open>Inl\<close> with its message, also when a clock or a sleep
  fails; \<open>None\<close> means that the readings ended before a loop did. \<open>edf_args\<close> of the command line gives
  the CPU and the mode.
\<close>

section \<open>Tables\<close>

definition edf_period :: "nat \<Rightarrow> u64" where
  "edf_period task = (if task = 0 then 50000000 else 70000000)"

definition edf_work :: "nat \<Rightarrow> u64" where
  "edf_work task = (if task = 0 then 21000000 else 29500000)"

definition edf_reservation :: "nat \<Rightarrow> u64" where
  "edf_reservation task = (if task = 0 then 21200000 else 29700000)"

definition edf_count :: "nat \<Rightarrow> nat" where
  "edf_count task = (if task = 0 then 14 else 10)"

record edf_sample =
  es_release :: u64
  es_start :: u64
  es_end :: u64
  es_cpu :: u64

section \<open>Hints\<close>

definition edf_release :: "u64 \<Rightarrow> nat \<Rightarrow> nat \<Rightarrow> u64" where
  "edf_release epoch task job = epoch + of_nat job * edf_period task"

definition edf_hint :: "fresh_abi \<Rightarrow> u64 \<Rightarrow> nat \<Rightarrow> nat \<Rightarrow> fresh_task_hint" where
  "edf_hint abi epoch task job =
     hint_zero\<lparr>h_stage_id := of_nat task, h_class_id := FRESH_CLASS_DEADLINE abi,
       h_job_id := of_nat job + 1, h_release_ts_ns := edf_release epoch task job,
       h_deadline_ts_ns := edf_release epoch task job + edf_period task\<rparr>"

definition edf_publish ::
  "fresh_abi \<Rightarrow> 's publisher \<Rightarrow> u64 \<Rightarrow> string \<Rightarrow> u64 \<Rightarrow> nat \<Rightarrow> nat \<Rightarrow> 's \<Rightarrow> (string + unit) \<times> 's" where
  "edf_publish abi pub self mode epoch task job s =
     (if mode \<noteq> ''scx'' then (Inr (), s)
      else
        (case pub self (edf_hint abi epoch task job) s of
           (rc, t) \<Rightarrow> if rc \<noteq> 0 then (Inl ''publish hint'', t) else (Inr (), t)))"

section \<open>The worker\<close>

record edf_job_env =
  ej_sleep :: "int list"
  ej_start :: "timespec option"
  ej_begin :: "timespec option"
  ej_readings :: "timespec option list"
  ej_end :: "timespec option"

record edf_env =
  ee_affinity_rc :: int
  ee_enroll_rc :: int
  ee_actual_policy :: int
  ee_getparam_rc :: int
  ee_actual_priority :: int
  ee_after_barrier :: "timespec option"
  ee_jobs :: "edf_job_env list"
  ee_restore_rc :: int

definition edf_policy :: "string \<Rightarrow> int" where
  "edf_policy mode = (if mode = ''deadline'' then 6 else if mode = ''ordinary'' then 0
     else if mode = ''scx'' then 7 else 1)"

definition edf_priority :: "string \<Rightarrow> nat \<Rightarrow> int" where
  "edf_priority mode task =
     (if edf_policy mode \<noteq> 1 then 0
      else if mode = ''fifo-a'' \<and> task = 0 \<or> mode = ''fifo-b'' \<and> task = 1 then 60 else 50)"

text \<open>Enrolment and its verification; ordinary tasks make no call.\<close>

definition edf_enroll :: "string \<Rightarrow> nat \<Rightarrow> edf_env \<Rightarrow> string + unit" where
  "edf_enroll mode task env =
     (if mode = ''deadline'' \<and> ee_enroll_rc env \<noteq> 0 then Inl ''SCHED_DEADLINE admission''
      else if mode \<noteq> ''deadline'' \<and> mode \<noteq> ''ordinary'' \<and> ee_enroll_rc env \<noteq> 0 then Inl ''enrollment''
      else if ee_actual_policy env \<noteq> edf_policy mode \<or> ee_getparam_rc env \<noteq> 0 \<or>
        ee_actual_priority env \<noteq> edf_priority mode task then Inl ''policy verification''
      else Inr ())"

text \<open>
  The work of a job: the CPU clock is read until the work is used, then once more for the sample. A
  reading that fails ends the process.
\<close>

fun edf_busy :: "u64 \<Rightarrow> u64 \<Rightarrow> timespec option list \<Rightarrow> (string + u64) option" where
  "edf_busy start work [] = None"
| "edf_busy start work (r # rs) =
     (case edf_now r of
        Inl what \<Rightarrow> Some (Inl what)
      | Inr t \<Rightarrow>
          if t - start < work then edf_busy start work rs
          else
            (case rs of
               [] \<Rightarrow> None
             | q # _ \<Rightarrow> Some (case edf_now q of Inl what \<Rightarrow> Inl what | Inr u \<Rightarrow> Inr (u - start))))"

definition edf_run_job :: "u64 \<Rightarrow> nat \<Rightarrow> nat \<Rightarrow> edf_job_env \<Rightarrow> (string + edf_sample) option" where
  "edf_run_job epoch task j e =
     (case edf_sleep_until (edf_release epoch task j) (ej_sleep e) of
        None \<Rightarrow> None | Some (Inl what) \<Rightarrow> Some (Inl what) | Some (Inr _) \<Rightarrow>
     (case edf_now (ej_start e) of Inl what \<Rightarrow> Some (Inl what) | Inr start \<Rightarrow>
     (case edf_now (ej_begin e) of Inl what \<Rightarrow> Some (Inl what) | Inr begin1 \<Rightarrow>
     (case edf_busy begin1 (edf_work task) (ej_readings e) of
        None \<Rightarrow> None | Some (Inl what) \<Rightarrow> Some (Inl what) | Some (Inr used) \<Rightarrow>
     (case edf_now (ej_end e) of Inl what \<Rightarrow> Some (Inl what) | Inr fin \<Rightarrow>
        Some (Inr \<lparr>es_release = edf_release epoch task j, es_start = start, es_end = fin, es_cpu = used\<rparr>))))))"

fun edf_jobs ::
  "fresh_abi \<Rightarrow> 's publisher \<Rightarrow> u64 \<Rightarrow> string \<Rightarrow> u64 \<Rightarrow> nat \<Rightarrow> nat \<Rightarrow> edf_job_env list \<Rightarrow> 's \<Rightarrow>
   ((string + edf_sample list) \<times> 's) option" where
  "edf_jobs abi pub self mode epoch task j [] s =
     (if j < edf_count task then None else Some (Inr [], s))"
| "edf_jobs abi pub self mode epoch task j (e # es) s =
     (if \<not> j < edf_count task then Some (Inr [], s)
      else
        (case (if j \<noteq> 0 then edf_publish abi pub self mode epoch task j s else (Inr (), s)) of
           (Inl what, t) \<Rightarrow> Some (Inl what, t)
         | (Inr _, t) \<Rightarrow>
             (case edf_run_job epoch task j e of
                None \<Rightarrow> None
              | Some (Inl what) \<Rightarrow> Some (Inl what, t)
              | Some (Inr sample) \<Rightarrow>
                  (case edf_jobs abi pub self mode epoch task (Suc j) es t of
                     None \<Rightarrow> None
                   | Some (Inl what, u) \<Rightarrow> Some (Inl what, u)
                   | Some (Inr samples, u) \<Rightarrow> Some (Inr (sample # samples), u)))))"

definition edf_worker ::
  "fresh_abi \<Rightarrow> 's publisher \<Rightarrow> ('s \<Rightarrow> int \<times> 's) \<Rightarrow> u64 \<Rightarrow> string \<Rightarrow> u64 \<Rightarrow> nat \<Rightarrow> edf_env \<Rightarrow> 's \<Rightarrow>
   ((string + edf_sample list) \<times> 's) option" where
  "edf_worker abi pub clr self mode epoch task env s =
     (if ee_affinity_rc env \<noteq> 0 then Some (Inl ''affinity'', s)
      else
        (case edf_publish abi pub self mode epoch task 0 s of
           (Inl what, s1) \<Rightarrow> Some (Inl what, s1)
         | (Inr _, s1) \<Rightarrow>
             (case edf_enroll mode task env of
                Inl what \<Rightarrow> Some (Inl what, s1)
              | Inr _ \<Rightarrow>
                  (case edf_now (ee_after_barrier env) of Inl what \<Rightarrow> Some (Inl what, s1) | Inr now \<Rightarrow>
                  if now \<ge> epoch then Some (Inl ''late enrollment'', s1)
                  else
                    (case edf_jobs abi pub self mode epoch task 0 (ee_jobs env) s1 of
                       None \<Rightarrow> None
                     | Some (Inl what, s2) \<Rightarrow> Some (Inl what, s2)
                     | Some (Inr samples, s2) \<Rightarrow>
                         if ee_restore_rc env \<noteq> 0 then Some (Inl ''restore policy'', s2)
                         else if mode = ''scx'' then
                           (case clr s2 of (rc, s3) \<Rightarrow>
                              if rc \<noteq> 0 then Some (Inl ''clear hint'', s3) else Some (Inr samples, s3))
                         else Some (Inr samples, s2))))))"

section \<open>Lemmas\<close>

text \<open>The hint map after the publications of a run of jobs.\<close>

definition edf_hints :: "fresh_abi \<Rightarrow> 's publisher \<Rightarrow> u64 \<Rightarrow> string \<Rightarrow> u64 \<Rightarrow> nat \<Rightarrow> nat list \<Rightarrow> 's \<Rightarrow> 's" where
  "edf_hints abi pub self mode epoch task js s =
     (if mode = ''scx'' then fold (\<lambda>j s. snd (pub self (edf_hint abi epoch task j) s)) js s else s)"

lemma edf_publish_hints:
  "edf_publish abi pub self mode epoch task j s = (Inr (), t) \<Longrightarrow>
   t = edf_hints abi pub self mode epoch task [j] s"
  by (auto simp: edf_publish_def edf_hints_def split: prod.splits if_splits)

lemma edf_hints_Cons:
  "edf_hints abi pub self mode epoch task (j # js) s =
     edf_hints abi pub self mode epoch task js (edf_hints abi pub self mode epoch task [j] s)"
  by (simp add: edf_hints_def)

lemma edf_run_job_release: "edf_run_job epoch task j e = Some (Inr x) \<Longrightarrow> es_release x = edf_release epoch task j"
  by (auto simp: edf_run_job_def split: option.splits sum.splits)

lemma edf_jobs_spec:
  "edf_jobs abi pub self mode epoch task j es s = Some (Inr samples, t) \<Longrightarrow> j \<le> edf_count task \<Longrightarrow>
   map es_release samples = map (edf_release epoch task) [j..<edf_count task] \<and>
   t = edf_hints abi pub self mode epoch task (filter (\<lambda>k. k \<noteq> 0) [j..<edf_count task]) s"
proof (induction es arbitrary: j s samples)
  case Nil
  then show ?case by (simp add: edf_hints_def split: if_splits)
next
  case (Cons e es)
  show ?case
  proof (cases "j < edf_count task")
    case False
    with Cons.prems show ?thesis by (simp add: edf_hints_def)
  next
    case True
    define p where "p = (if j \<noteq> 0 then edf_publish abi pub self mode epoch task j s else (Inr (), s))"
    from Cons.prems(1) True obtain s1 x xs where p: "p = (Inr (), s1)"
      and x: "edf_run_job epoch task j e = Some (Inr x)"
      and r: "edf_jobs abi pub self mode epoch task (Suc j) es s1 = Some (Inr xs, t)"
      and samples: "samples = x # xs"
      by (auto simp: p_def split: prod.splits sum.splits option.splits)
    have "s1 = edf_hints abi pub self mode epoch task (if j = 0 then [] else [j]) s"
    proof (cases "j = 0")
      case True
      with p show ?thesis by (simp add: p_def edf_hints_def)
    next
      case False
      with p have "edf_publish abi pub self mode epoch task j s = (Inr (), s1)" by (simp add: p_def)
      from edf_publish_hints [OF this] False show ?thesis by simp
    qed
    moreover have "[j..<edf_count task] = j # [Suc j..<edf_count task]" using True by (rule upt_conv_Cons)
    ultimately show ?thesis
      using Cons.IH [OF r] True samples edf_run_job_release [OF x] by (simp add: edf_hints_Cons edf_hints_def)
  qed
qed

text \<open>
  The reservations of both tasks never ask for more time than there is: with implicit deadlines this is
  the condition under which earliest-deadline-first meets every deadline on one CPU.
\<close>

lemma edf_demand:
  "t div unat (edf_period 0) * unat (edf_reservation 0) + t div unat (edf_period 1) * unat (edf_reservation 1) \<le> t"
proof -
  have "50000000 * (t div 50000000) \<le> t" "70000000 * (t div 70000000) \<le> t" by simp_all
  then have "t div 50000000 * 21200000 + t div 70000000 * 29700000 \<le> t" by linarith
  then show ?thesis by (simp add: edf_period_def edf_reservation_def)
qed

text \<open>What a worker went through when it returned its samples.\<close>

lemma edf_worker_cases:
  assumes "edf_worker abi pub clr self mode epoch task env s = Some (Inr samples, t)"
  obtains s1 s2 where "edf_publish abi pub self mode epoch task 0 s = (Inr (), s1)"
    and "\<exists>now. edf_now (ee_after_barrier env) = Inr now \<and> now < epoch"
    and "edf_jobs abi pub self mode epoch task 0 (ee_jobs env) s1 = Some (Inr samples, s2)"
    and "t = (if mode = ''scx'' then snd (clr s2) else s2)"
proof -
  obtain s1 where p: "edf_publish abi pub self mode epoch task 0 s = (Inr (), s1)"
    using assms by (auto simp: edf_worker_def split: if_splits prod.splits sum.splits)
  with assms that show ?thesis
    by (auto simp: edf_worker_def not_le split: if_splits prod.splits sum.splits option.splits)
qed

section \<open>Properties\<close>

text \<open>
  C36: A worker that returns has recorded exactly its 14 or 10 jobs, released one period apart from the
  epoch on, so that both tasks end at the same time, two hyperperiods later; the deadline in the hint of
  a job is the release of the next; under the hinted policy every job's hint was published, in order and
  before the job, and the slot was cleared at the end; without it the map is left alone.
\<close>

theorem edf_worker_exact:
  assumes "edf_worker abi pub clr self mode epoch task env s = Some (Inr samples, t)" and "task < 2"
  shows "map es_release samples = map (edf_release epoch task) [0..<edf_count task] \<and>
    edf_release epoch task (edf_count task) = epoch + 700000000 \<and>
    h_deadline_ts_ns (edf_hint abi epoch task j) = edf_release epoch task (Suc j) \<and>
    (\<exists>now. edf_now (ee_after_barrier env) = Inr now \<and> now < epoch) \<and>
    t = (if mode = ''scx'' then snd (clr (edf_hints abi pub self mode epoch task [0..<edf_count task] s)) else s)"
proof -
  obtain s1 s2 where p: "edf_publish abi pub self mode epoch task 0 s = (Inr (), s1)"
    and b: "\<exists>now. edf_now (ee_after_barrier env) = Inr now \<and> now < epoch"
    and j: "edf_jobs abi pub self mode epoch task 0 (ee_jobs env) s1 = Some (Inr samples, s2)"
    and c: "t = (if mode = ''scx'' then snd (clr s2) else s2)"
    using assms(1) by (rule edf_worker_cases)
  have "0 < edf_count task" by (simp add: edf_count_def)
  then have u: "[0..<edf_count task] = 0 # [Suc 0..<edf_count task]" by (rule upt_conv_Cons)
  have f: "filter (\<lambda>k. k \<noteq> 0) [0..<edf_count task] = [Suc 0..<edf_count task]"
    unfolding u by (simp add: filter_id_conv)
  have "s2 = edf_hints abi pub self mode epoch task [Suc 0..<edf_count task] s1"
    using edf_jobs_spec [OF j] unfolding f by blast
  then have s2: "s2 = edf_hints abi pub self mode epoch task [0..<edf_count task] s"
    unfolding u edf_hints_Cons [of abi pub self mode epoch task 0 "[Suc 0..<edf_count task]" s]
    by (simp only: edf_publish_hints [OF p])
  have t: "t = (if mode = ''scx'' then snd (clr (edf_hints abi pub self mode epoch task [0..<edf_count task] s)) else s)"
    using c s2 by (simp add: edf_hints_def)
  have "edf_release epoch task (edf_count task) = epoch + 700000000"
    by (simp add: edf_release_def edf_count_def edf_period_def)
  moreover have "h_deadline_ts_ns (edf_hint abi epoch task j) = edf_release epoch task (Suc j)"
    by (simp add: edf_hint_def edf_release_def algebra_simps)
  ultimately show ?thesis using edf_jobs_spec [OF j] b t by simp
qed

section \<open>Witness\<close>

definition demo_edf_job :: edf_job_env where
  "demo_edf_job = \<lparr>ej_sleep = [4, 0], ej_start = Some (0, 0), ej_begin = Some (0, 0),
     ej_readings = [Some (0, 29500000), Some (0, 29500001)], ej_end = Some (0, 0)\<rparr>"

definition demo_edf_env :: edf_env where
  "demo_edf_env = \<lparr>ee_affinity_rc = 0, ee_enroll_rc = 0, ee_actual_policy = 0, ee_getparam_rc = 0,
     ee_actual_priority = 0, ee_after_barrier = Some (0, 400),
     ee_jobs = [demo_edf_job, demo_edf_job, demo_edf_job, demo_edf_job, demo_edf_job,
       demo_edf_job, demo_edf_job, demo_edf_job, demo_edf_job, demo_edf_job],
     ee_restore_rc = 0\<rparr>"

definition demo_edf_abi :: fresh_abi where
  "demo_edf_abi = \<lparr>FRESH_STAGE_UNSPECIFIED = 255, FRESH_CLASS_BACKGROUND = 0, FRESH_CLASS_DEADLINE = 1,
     FRESH_CLASS_URGENT = 2\<rparr>"

lemma demo_edf_job_runs: "\<exists>x. edf_run_job epoch 1 j demo_edf_job = Some (Inr x)"
  by (simp add: edf_run_job_def demo_edf_job_def edf_work_def word_less_nat_alt edf_now_def
      edf_sleep_until_def EINTR_def)

lemma demo_edf_returns:
  "\<exists>samples. edf_worker demo_edf_abi map_write (Pair 0) 7 ''ordinary'' 500 1 demo_edf_env (\<lambda>_. None) =
     Some (Inr samples, \<lambda>_. None)"
proof -
  obtain x where x: "\<And>j. edf_run_job 500 1 j demo_edf_job = Some (Inr (x j))"
    using demo_edf_job_runs [of 500] by metis
  show ?thesis
    by (simp add: edf_worker_def demo_edf_env_def edf_publish_def edf_enroll_def edf_policy_def
      edf_priority_def edf_count_def x [unfolded One_nat_def] word_le_nat_alt edf_now_def)
qed

theorem edf_worker_exact_witness:
  "\<exists>samples. edf_worker demo_edf_abi map_write (Pair 0) 7 ''ordinary'' 500 1 demo_edf_env (\<lambda>_. None) =
     Some (Inr samples, \<lambda>_. None) \<and> map es_release samples = map (edf_release 500 1) [0..<edf_count 1]"
proof -
  obtain samples where r: "edf_worker demo_edf_abi map_write (Pair 0) 7 ''ordinary'' 500 1 demo_edf_env (\<lambda>_. None) =
      Some (Inr samples, \<lambda>_. None)" using demo_edf_returns by blast
  from edf_worker_exact [OF r] r show ?thesis by simp
qed

end

