(* ===== verification/Edf_Main.thy ===== *)
theory Edf_Main
  imports Edf_Workload Command_Line Clocks
begin

text \<open>
  \<open>main\<close> of \<^verbatim>\<open>src/demo/edf_workload.c\<close>: the arguments, the epoch, the two threads and the rows of the
  table it prints. Each worker has the slot of its own thread in the hint map, so the two states of the
  slots are kept apart. \<open>fail\<close> ends the process with status 2 whichever thread calls it.
\<close>

datatype edf_outcome = Status int | Failed string | Rows "(char \<times> nat \<times> u64 \<times> u64 \<times> u64 \<times> u64 \<times> u64) list"

record 's edf_main_env =
  en_open_rc :: int
  en_now :: "timespec option"
  en_create_rc :: "nat \<Rightarrow> int"
  en_self :: "nat \<Rightarrow> u64"
  en_slot :: "nat \<Rightarrow> 's"
  en_worker :: "nat \<Rightarrow> edf_env"

definition edf_open :: "string \<Rightarrow> int \<Rightarrow> string + unit" where
  "edf_open mode rc = (if mode = ''scx'' \<and> rc \<noteq> 0 then Inl ''open hints'' else Inr ())"

definition edf_epoch :: "timespec option \<Rightarrow> string + u64" where
  "edf_epoch r = (case edf_now r of Inl what \<Rightarrow> Inl what | Inr t \<Rightarrow> Inr (t + 500000000))"

definition edf_create :: "(nat \<Rightarrow> int) \<Rightarrow> string + unit" where
  "edf_create rc = (if rc 0 \<noteq> 0 \<or> rc 1 \<noteq> 0 then Inl ''pthread_create'' else Inr ())"

text \<open>A line of the table: task, job, release, start, end, CPU time, deadline.\<close>

definition edf_row :: "nat \<Rightarrow> nat \<Rightarrow> edf_sample \<Rightarrow> char \<times> nat \<times> u64 \<times> u64 \<times> u64 \<times> u64 \<times> u64" where
  "edf_row task j x = (if task = 0 then CHR ''A'' else CHR ''B'', j + 1, es_release x, es_start x, es_end x,
     es_cpu x, es_release x + edf_period task)"

definition edf_rows :: "nat \<Rightarrow> edf_sample list \<Rightarrow> (char \<times> nat \<times> u64 \<times> u64 \<times> u64 \<times> u64 \<times> u64) list" where
  "edf_rows task samples = map (\<lambda>j. edf_row task j (samples ! j)) [0..<edf_count task]"

text \<open>
  Both workers run; a failure of either ends the process, otherwise \<open>main\<close> prints once both have
  returned. \<open>None\<close> while one of them has not.
\<close>

definition edf_join ::
  "((string + edf_sample list) \<times> 's) option \<Rightarrow> ((string + edf_sample list) \<times> 's) option \<Rightarrow> edf_outcome option" where
  "edf_join a b =
     (case (a, b) of
        (Some (Inl what, _), _) \<Rightarrow> Some (Failed what)
      | (_, Some (Inl what, _)) \<Rightarrow> Some (Failed what)
      | (Some (Inr xs, _), Some (Inr ys, _)) \<Rightarrow> Some (Rows (edf_rows 0 xs @ edf_rows 1 ys))
      | _ \<Rightarrow> None)"

definition edf_main ::
  "fresh_abi \<Rightarrow> 's publisher \<Rightarrow> ('s \<Rightarrow> int \<times> 's) \<Rightarrow> string list \<Rightarrow> 's edf_main_env \<Rightarrow> edf_outcome option" where
  "edf_main abi pub clr args env =
     (case edf_args args of Inl c \<Rightarrow> Some (Status c) | Inr (cpu, mode) \<Rightarrow>
     (case edf_open mode (en_open_rc env) of Inl what \<Rightarrow> Some (Failed what) | Inr _ \<Rightarrow>
     (case edf_epoch (en_now env) of Inl what \<Rightarrow> Some (Failed what) | Inr epoch \<Rightarrow>
     (case edf_create (en_create_rc env) of Inl what \<Rightarrow> Some (Failed what) | Inr _ \<Rightarrow>
        edf_join
          (edf_worker abi pub clr (en_self env 0) mode epoch 0 (en_worker env 0) (en_slot env 0))
          (edf_worker abi pub clr (en_self env 1) mode epoch 1 (en_worker env 1) (en_slot env 1))))))"

section \<open>The table\<close>

lemma edf_worker_releases:
  assumes "edf_worker abi pub clr self mode epoch task env s = Some (Inr samples, t)"
  shows "map es_release samples = map (edf_release epoch task) [0..<edf_count task]"
  using assms by (rule edf_worker_cases) (auto dest: edf_jobs_spec)

lemma edf_rows_releases:
  assumes "map es_release samples = map (edf_release epoch task) [0..<edf_count task]"
  shows "map (\<lambda>(name, j, release, start, fin, cpu, deadline). (name, j, release, deadline)) (edf_rows task samples) =
    map (\<lambda>j. (if task = 0 then CHR ''A'' else CHR ''B'', Suc j, edf_release epoch task j, edf_release epoch task (Suc j)))
      [0..<edf_count task]"
proof -
  have "length samples = edf_count task" using arg_cong [OF assms, of length] by simp
  then have "es_release (samples ! j) = edf_release epoch task j" if "j < edf_count task" for j
    using that arg_cong [OF assms, of "\<lambda>xs. xs ! j"] by simp
  then show ?thesis by (simp add: edf_rows_def edf_row_def edf_release_def algebra_simps)
qed

text \<open>
  The table has the 14 jobs of the first task and then the 10 of the second, each with its number, its
  release one period after the one before, starting half a second after the clock was read, and the
  release of the next job as its deadline.
\<close>

lemma edf_table:
  assumes "edf_main abi pub clr args env = Some (Rows rows)"
  obtains t where "edf_now (en_now env) = Inr t"
    and "map (\<lambda>(name, j, release, start, fin, cpu, deadline). (name, j, release, deadline)) rows =
      map (\<lambda>j. (CHR ''A'', Suc j, edf_release (t + 500000000) 0 j, edf_release (t + 500000000) 0 (Suc j))) [0..<14] @
      map (\<lambda>j. (CHR ''B'', Suc j, edf_release (t + 500000000) 1 j, edf_release (t + 500000000) 1 (Suc j))) [0..<10]"
proof -
  from assms obtain cpu mode t xs ys u v where now: "edf_now (en_now env) = Inr t"
    and w: "edf_worker abi pub clr (en_self env 0) mode (t + 500000000) 0 (en_worker env 0) (en_slot env 0) = Some (Inr xs, u)"
      "edf_worker abi pub clr (en_self env 1) mode (t + 500000000) 1 (en_worker env 1) (en_slot env 1) = Some (Inr ys, v)"
    and rows: "rows = edf_rows 0 xs @ edf_rows 1 ys"
    by (auto simp: edf_main_def edf_epoch_def edf_join_def split: sum.splits prod.splits option.splits)
  have c: "edf_count 0 = 14" "edf_count 1 = 10" by (simp_all add: edf_count_def)
  show ?thesis
    using that [OF now] edf_rows_releases [OF edf_worker_releases [OF w(1)]]
      edf_rows_releases [OF edf_worker_releases [OF w(2)]]
    unfolding rows map_append c by simp
qed

text \<open>A late thread, a refused hint or a failed policy of either task leaves no table.\<close>

lemma edf_no_partial_table:
  assumes "edf_main abi pub clr args env = Some (Rows rows)"
  shows "length rows = 24"
  using assms by (auto simp: edf_main_def edf_epoch_def edf_join_def edf_rows_def edf_count_def
      split: sum.splits prod.splits option.splits)

end
