(* ===== verification/Dependent_Workload.thy ===== *)
theory Dependent_Workload
  imports Dependent_Graph Worker Command_Line
begin

text \<open>
  The main loop of \<^verbatim>\<open>src/demo/dependent_workload.cpp\<close> (lines 207 to 301), which composes the
  dependent graph with its worker threads: collect what the workers finished, release sensor and
  control jobs that are due, give the estimator the next batch, dispatch, and leave when the window
  is over and nothing is pending. \<open>main\<close> is the owner of every worker and of the graph; the worker
  threads run between any two of its critical sections. The completion closures of the jobs are the
  constructors of \<open>completion\<close>. The clock is a parameter: \<open>clock n\<close> is what the \<open>n\<close>-th reading by
  \<open>main\<close> gives, or the exception of \<open>clock_ns\<close>.
\<close>

section \<open>State\<close>

datatype completion =
    Offer_measurement measurement
  | Count_control control_result
  | Complete_batch batch
  | Keep_snapshot snapshot
  | Hog_done

datatype main_pc =
    M_collect nat
  | M_release
  | M_dispatch u64 nat
  | M_test u64
  | M_drained
  | M_finish nat
  | M_join nat
  | M_check nat
  | M_report
  | M_thrown exn

text \<open>
  The workers in the order of the vector \<open>workers\<close>: IMU, camera, estimator, control, mapping, then
  the hogs. Only the first \<open>dw_count\<close> exist.
\<close>

record 's workload =
  dw_pc :: main_pc
  dw_graph :: graph
  dw_workers :: "nat \<Rightarrow> (completion, 's) worker"
  dw_count :: nat
  dw_begin :: u64
  dw_end :: u64
  dw_next_imu :: u64
  dw_next_camera :: u64
  dw_next_control :: u64
  dw_imu_id :: u64
  dw_camera_id :: u64
  dw_control_id :: u64
  dw_usable :: u64
  dw_stale :: u64
  dw_missing :: u64
  dw_control_ages :: "u64 list"
  dw_burst_job :: u64
  dw_drained :: u64
  dw_reads :: nat

definition ms :: u64 where "ms = 1000000"

definition at_worker ::
  "nat \<Rightarrow> ((completion, 's) worker \<Rightarrow> (completion, 's) worker) \<Rightarrow> 's workload \<Rightarrow> 's workload" where
  "at_worker i f d = d\<lparr>dw_workers := (dw_workers d)(i := f (dw_workers d i))\<rparr>"

definition tick :: "'s workload \<Rightarrow> 's workload" where
  "tick d = d\<lparr>dw_reads := Suc (dw_reads d)\<rparr>"

text \<open>
  Dereferencing an empty \<open>std::optional\<close> or taking the front of an empty vector is undefined in
  C++; the model has this error there.
\<close>

definition no_element :: exn where
  "no_element = Runtime_error ''no element''"

section \<open>Construction\<close>

definition worker_class :: "fresh_abi \<Rightarrow> nat \<Rightarrow> u32" where
  "worker_class abi i =
     (if i < 3 then FRESH_CLASS_DEADLINE abi else if i = 3 then FRESH_CLASS_URGENT abi
      else FRESH_CLASS_BACKGROUND abi)"

text \<open>The constructions of the workers in order (lines 210 to 222); the first exception ends them.\<close>

fun construct_workers ::
  "fresh_abi \<Rightarrow> dep_options \<Rightarrow> (nat \<Rightarrow> 's startup_env) \<Rightarrow> 's \<Rightarrow> nat list \<Rightarrow>
   (nat \<Rightarrow> (completion, 's) worker) \<Rightarrow> (nat \<Rightarrow> (completion, 's) worker) res" where
  "construct_workers abi opts env s [] ws = Inr ws"
| "construct_workers abi opts env s (i # is) ws =
     (case worker_constructed (worker_startup abi (env i)
             (worker_new (dp_pin opts \<noteq> []) (worker_class abi i) (of_nat i)
               (i < 4 \<and> dp_policy opts = ''fifo'') s)) of
        None \<Rightarrow> Inl (Runtime_error ''not ready'')
      | Some (Inl e, w) \<Rightarrow> Inl e
      | Some (Inr _, w) \<Rightarrow> construct_workers abi opts env s is
          (ws(i := w\<lparr>wk_tracing := dp_trace_path opts \<noteq> []\<rparr>)))"

definition workload_start ::
  "(nat \<Rightarrow> u64 res) \<Rightarrow> fresh_abi \<Rightarrow> dep_options \<Rightarrow> (nat \<Rightarrow> 's startup_env) \<Rightarrow> 's \<Rightarrow> 's workload res" where
  "workload_start clock abi opts env s =
     (case Graph 32 8 of
        Inl e \<Rightarrow> Inl e
      | Inr g \<Rightarrow>
          (case construct_workers abi opts env s [0..<5 + nat (dp_hog_count opts)]
                  (\<lambda>_. worker_new False 0 0 False s) of
             Inl e \<Rightarrow> Inl e
           | Inr ws \<Rightarrow>
               (case clock 0 of
                  Inl e \<Rightarrow> Inl e
                | Inr t \<Rightarrow>
                    (let begin1 = t + 100 * ms;
                         end1 = begin1 + of_int (dp_seconds opts) * 1000 * ms
                     in Inr \<lparr>dw_pc = M_collect 0, dw_graph = g, dw_workers = ws,
                             dw_count = 5 + nat (dp_hog_count opts), dw_begin = begin1, dw_end = end1,
                             dw_next_imu = begin1, dw_next_camera = begin1, dw_next_control = begin1,
                             dw_imu_id = 0, dw_camera_id = 0, dw_control_id = 0, dw_usable = 0,
                             dw_stale = 0, dw_missing = 0, dw_control_ages = [], dw_burst_job = 0,
                             dw_drained = 0, dw_reads = 1\<rparr>))))"

section \<open>Collection\<close>

text \<open>The closures: the body of each lambda handed to a job.\<close>

definition count_control :: "control_result \<Rightarrow> 's workload \<Rightarrow> 's workload" where
  "count_control sel d =
     d\<lparr>dw_usable := dw_usable d + (if k_outcome sel = Usable then 1 else 0),
       dw_stale := dw_stale d + (if k_outcome sel = Stale then 1 else 0),
       dw_missing := dw_missing d + (if k_outcome sel = Missing then 1 else 0),
       dw_control_ages :=
         (case k_snapshot sel of
            None \<Rightarrow> dw_control_ages d
          | Some l \<Rightarrow> (case s_imu l of
              None \<Rightarrow> dw_control_ages d
            | Some m \<Rightarrow> dw_control_ages d @ [k_release sel - m_source_time m]))\<rparr>"

definition new_job :: "u64 \<Rightarrow> u64 \<Rightarrow> u64 \<Rightarrow> u64 \<Rightarrow> completion \<Rightarrow> completion job" where
  "new_job ident release deadline work c =
     \<lparr>j_id = ident, j_release = release, j_deadline = deadline, j_work = work, j_complete = c,
      j_assigned = 0, j_budget = 0, j_outcome = -1\<rparr>"

definition mapping_job :: "snapshot \<Rightarrow> measurement \<Rightarrow> completion job" where
  "mapping_job s m = new_job (s_batch_id s) (m_source_time m) (m_source_time m + 100 * ms) (2 * ms)
     (Keep_snapshot s)"

definition has_camera :: "batch \<Rightarrow> bool" where
  "has_camera b \<longleftrightarrow> list_ex (\<lambda>m. m_stream m = Stream_camera) (b_inputs b)"

definition run_completion ::
  "(nat \<Rightarrow> u64 res) \<Rightarrow> completion \<Rightarrow> 's workload \<Rightarrow> unit res \<times> 's workload" where
  "run_completion clock c d =
     (case c of
        Offer_measurement m \<Rightarrow>
          (case clock (dw_reads d) of
             Inl e \<Rightarrow> (Inl e, tick d)
           | Inr t \<Rightarrow>
               (case offer m t (dw_graph d) of
                  (Inl e, g) \<Rightarrow> (Inl e, (tick d)\<lparr>dw_graph := g\<rparr>)
                | (Inr _, g) \<Rightarrow> (Inr (), (tick d)\<lparr>dw_graph := g\<rparr>)))
      | Count_control sel \<Rightarrow> (Inr (), count_control sel d)
      | Complete_batch b \<Rightarrow>
          (case clock (dw_reads d) of
             Inl e \<Rightarrow> (Inl e, tick d)
           | Inr t \<Rightarrow>
               (case complete (b_id b) t (dw_graph d) of
                  (Inl e, g) \<Rightarrow> (Inl e, (tick d)\<lparr>dw_graph := g\<rparr>)
                | (Inr s, g) \<Rightarrow>
                    (let d1 = (tick d)\<lparr>dw_graph := g\<rparr>
                     in if has_camera b
                        then (case s_camera s of
                                None \<Rightarrow> (Inl no_element, d1)
                              | Some m \<Rightarrow>
                                  (Inr (), at_worker 4 (\<lambda>w. snd (worker_offer (mapping_job s m) w)) d1))
                        else (Inr (), d1))))
      | Keep_snapshot s \<Rightarrow> (Inr (), d)
      | Hog_done \<Rightarrow> (Inr (), d))"

definition collect_worker ::
  "(nat \<Rightarrow> u64 res) \<Rightarrow> nat \<Rightarrow> 's workload \<Rightarrow> unit res \<times> 's workload" where
  "collect_worker clock i d =
     (case worker_collect (clock (dw_reads d)) (dw_workers d i) of
        (Inl e, w) \<Rightarrow> (Inl e, at_worker i (\<lambda>_. w) (tick d))
      | (Inr None, w) \<Rightarrow> (Inr (), at_worker i (\<lambda>_. w) (tick d))
      | (Inr (Some (c, fin)), w) \<Rightarrow> run_completion clock c (at_worker i (\<lambda>_. w) (tick d)))"

section \<open>Releases\<close>

text \<open>
  The three loops \<open>while (next < end && next <= t)\<close>. The body moves \<open>next\<close> on; near the end of
  the range of \<open>uint64_t\<close> the addition could wrap and the loop not end, so it is a partial function.
\<close>

partial_function (option) release_loop ::
  "('a \<Rightarrow> u64) \<Rightarrow> ('a \<Rightarrow> unit res \<times> 'a) \<Rightarrow> u64 \<Rightarrow> u64 \<Rightarrow> 'a \<Rightarrow> (unit res \<times> 'a) option" where
  "release_loop next body fin t s =
     (if next s < fin \<and> next s \<le> t then
        (case body s of
           (Inl e, s1) \<Rightarrow> Some (Inl e, s1)
         | (Inr _, s1) \<Rightarrow> release_loop next body fin t s1)
      else Some (Inr (), s))"

declare release_loop.simps [code]

definition idle :: "('c, 's) worker \<Rightarrow> bool" where
  "idle w \<longleftrightarrow> \<not> wk_busy w \<and> wk_queue w = []"

definition refill_hog :: "u64 \<Rightarrow> nat \<Rightarrow> 's workload \<Rightarrow> 's workload" where
  "refill_hog t i d =
     (let w = dw_workers d i
      in if idle w then at_worker i (\<lambda>w. snd (worker_offer
              (new_job (wk_offered w + 1) t (t + 100 * ms) ms Hog_done) w)) d
         else d)"

definition imu_release :: "'s workload \<Rightarrow> unit res \<times> 's workload" where
  "imu_release d =
     (let q = dw_imu_id d + 1;
          release = dw_next_imu d;
          m = \<lparr>m_stream = Stream_imu, m_sequence = q, m_source_time = release\<rparr>;
          j = new_job q release (release + 5 * ms) 150000 (Offer_measurement m)
      in (Inr (), at_worker 0 (\<lambda>w. snd (worker_offer j w))
            (d\<lparr>dw_imu_id := q, dw_next_imu := release + 5 * ms\<rparr>)))"

definition camera_release :: "'s workload \<Rightarrow> unit res \<times> 's workload" where
  "camera_release d =
     (let q = dw_camera_id d + 1;
          release = dw_next_camera d;
          m = \<lparr>m_stream = Stream_camera, m_sequence = q, m_source_time = release\<rparr>;
          j = new_job q release (release + 33 * ms) (4 * ms) (Offer_measurement m)
      in (Inr (), at_worker 1 (\<lambda>w. snd (worker_offer j w))
            (d\<lparr>dw_camera_id := q, dw_next_camera := release + 50 * ms\<rparr>)))"

definition outcome_int :: "outcome \<Rightarrow> int" where
  "outcome_int oc = (case oc of Usable \<Rightarrow> 0 | Stale \<Rightarrow> 1 | Missing \<Rightarrow> 2)"

definition control_release :: "(nat \<Rightarrow> u64 res) \<Rightarrow> 's workload \<Rightarrow> unit res \<times> 's workload" where
  "control_release clock d =
     (let release = dw_next_control d;
          ident = dw_control_id d + 1;
          d1 = d\<lparr>dw_control_id := ident\<rparr>
      in if \<not> idle (dw_workers d 3)
         then (Inr (), at_worker 3 worker_skip (d1\<lparr>dw_next_control := release + 10 * ms\<rparr>))
         else case clock (dw_reads d) of
             Inl e \<Rightarrow> (Inl e, tick d1)
           | Inr now \<Rightarrow>
               (case control now (ident div 100) (20 * ms) (dw_graph d) of
                  (Inl e, g) \<Rightarrow> (Inl e, (tick d1)\<lparr>dw_graph := g\<rparr>)
                | (Inr sel, g) \<Rightarrow>
                    (let j = (new_job ident release (release + 10 * ms) 200000 (Count_control sel))
                               \<lparr>j_outcome := outcome_int (k_outcome sel)\<rparr>
                     in (Inr (), at_worker 3 (\<lambda>w. snd (worker_offer j w))
                           ((tick d1)\<lparr>dw_graph := g, dw_next_control := release + 10 * ms\<rparr>)))))"

section \<open>Estimation\<close>

definition input_cost :: "measurement \<Rightarrow> u64" where
  "input_cost m = (if m_stream m = Stream_imu then 100000 else 2 * ms)"

definition burst_input :: "measurement \<Rightarrow> bool" where
  "burst_input m \<longleftrightarrow> m_stream m = Stream_camera \<and> m_sequence m = 11"

definition bursting :: "dep_options \<Rightarrow> batch \<Rightarrow> bool" where
  "bursting opts b \<longleftrightarrow> dp_scenario opts = ''estimator-burst'' \<and> list_ex burst_input (b_inputs b)"

definition estimator_cost :: "dep_options \<Rightarrow> batch \<Rightarrow> u64" where
  "estimator_cost opts b =
     (let cost = fold (\<lambda>m c. c + input_cost m) (b_inputs b) 300000
      in if bursting opts b then cost + 80 * ms else cost)"

definition estimator_job :: "dep_options \<Rightarrow> batch \<Rightarrow> measurement \<Rightarrow> completion job" where
  "estimator_job opts b m =
     (new_job (b_id b) (m_source_time m) (m_source_time m + 33 * ms) (estimator_cost opts b)
        (Complete_batch b))
       \<lparr>j_budget := (if dp_scenario opts = ''estimator-burst'' then 4 * ms else 0)\<rparr>"

definition estimate ::
  "(nat \<Rightarrow> u64 res) \<Rightarrow> dep_options \<Rightarrow> 's workload \<Rightarrow> unit res \<times> 's workload" where
  "estimate clock opts d =
     (if \<not> idle (dw_workers d 2) then (Inr (), d)
      else case clock (dw_reads d) of
          Inl e \<Rightarrow> (Inl e, tick d)
        | Inr now \<Rightarrow>
            (case select now (dw_graph d) of
               (Inl e, g) \<Rightarrow> (Inl e, (tick d)\<lparr>dw_graph := g\<rparr>)
             | (Inr None, g) \<Rightarrow> (Inr (), (tick d)\<lparr>dw_graph := g\<rparr>)
             | (Inr (Some b), g) \<Rightarrow>
                 (case b_inputs b of
                    [] \<Rightarrow> (Inl no_element, (tick d)\<lparr>dw_graph := g\<rparr>)
                  | m # _ \<Rightarrow>
                      (Inr (), at_worker 2 (\<lambda>w. snd (worker_offer (estimator_job opts b m) w))
                         ((tick d)\<lparr>dw_graph := g, dw_burst_job :=
                             (if bursting opts b then b_id b else dw_burst_job d)\<rparr>)))))"

section \<open>One pass of the loop\<close>

definition and_then ::
  "(unit res \<times> 'a) option \<Rightarrow> ('a \<Rightarrow> (unit res \<times> 'a) option) \<Rightarrow> (unit res \<times> 'a) option" where
  "and_then p f = (case p of
     None \<Rightarrow> None | Some (Inl e, s) \<Rightarrow> Some (Inl e, s) | Some (Inr _, s) \<Rightarrow> f s)"

definition release_phase ::
  "(nat \<Rightarrow> u64 res) \<Rightarrow> dep_options \<Rightarrow> u64 \<Rightarrow> 's workload \<Rightarrow> (unit res \<times> 's workload) option" where
  "release_phase clock opts t d =
     (let d0 = (if dw_begin d \<le> t \<and> t < dw_end d then fold (refill_hog t) [5..<dw_count d] d else d)
      in and_then (release_loop dw_next_imu imu_release (dw_end d) t d0) (\<lambda>d1.
         and_then (release_loop dw_next_camera camera_release (dw_end d) t d1) (\<lambda>d2.
         and_then (release_loop dw_next_control (control_release clock) (dw_end d) t d2) (\<lambda>d3.
         Some (estimate clock opts d3)))))"

definition goto_next :: "main_pc \<Rightarrow> unit res \<times> 's workload \<Rightarrow> 's workload" where
  "goto_next pc p = (case p of (Inl e, d) \<Rightarrow> d\<lparr>dw_pc := M_thrown e\<rparr> | (Inr _, d) \<Rightarrow> d\<lparr>dw_pc := pc\<rparr>)"

definition dispatch_worker ::
  "(nat \<Rightarrow> u64 res) \<Rightarrow> (u64 \<Rightarrow> fresh_task_hint \<Rightarrow> 's \<Rightarrow> int \<times> 's) \<Rightarrow> nat \<Rightarrow> 's workload \<Rightarrow>
   unit res \<times> 's workload" where
  "dispatch_worker clock pub i d =
     (case worker_dispatch pub (clock (dw_reads d)) (dw_workers d i) of
        (r, w) \<Rightarrow> (r, at_worker i (\<lambda>_. w) (tick d)))"

definition nothing_pending :: "'s workload \<Rightarrow> bool" where
  "nothing_pending d \<longleftrightarrow> (\<forall>i \<in> {..<dw_count d}. idle (dw_workers d i)) \<and>
     pending (dw_graph d) Stream_imu = Inr 0 \<and> pending (dw_graph d) Stream_camera = Inr 0"

definition main_step ::
  "(nat \<Rightarrow> u64 res) \<Rightarrow> fresh_abi \<Rightarrow> (u64 \<Rightarrow> fresh_task_hint \<Rightarrow> 's \<Rightarrow> int \<times> 's) \<Rightarrow> dep_options \<Rightarrow>
   's workload \<Rightarrow> 's workload option" where
  "main_step clock abi pub opts d =
     (case dw_pc d of
        M_collect i \<Rightarrow>
          Some (if i < dw_count d then goto_next (M_collect (Suc i)) (collect_worker clock i d)
                else d\<lparr>dw_pc := M_release\<rparr>)
      | M_release \<Rightarrow>
          (case clock (dw_reads d) of
             Inl e \<Rightarrow> Some ((tick d)\<lparr>dw_pc := M_thrown e\<rparr>)
           | Inr t \<Rightarrow> map_option (goto_next (M_dispatch t 0)) (release_phase clock opts t (tick d)))
      | M_dispatch t i \<Rightarrow>
          Some (if i < dw_count d then goto_next (M_dispatch t (Suc i)) (dispatch_worker clock pub i d)
                else d\<lparr>dw_pc := M_test t\<rparr>)
      | M_test t \<Rightarrow>
          Some (d\<lparr>dw_pc := (if dw_end d \<le> t \<and> nothing_pending d then M_drained else M_collect 0)\<rparr>)
      | M_drained \<Rightarrow>
          (case clock (dw_reads d) of
             Inl e \<Rightarrow> Some ((tick d)\<lparr>dw_pc := M_thrown e\<rparr>)
           | Inr t \<Rightarrow> Some ((tick d)\<lparr>dw_drained := t, dw_pc := M_finish 0\<rparr>))
      | M_finish i \<Rightarrow>
          Some (if i < dw_count d
                then (at_worker i (worker_finish abi pub) d)\<lparr>dw_pc := M_join i\<rparr>
                else d\<lparr>dw_pc := M_check 0\<rparr>)
      | M_join i \<Rightarrow>
          (case worker_join (dw_workers d i) of
             None \<Rightarrow> None
           | Some w \<Rightarrow> Some ((at_worker i (\<lambda>_. w) d)\<lparr>dw_pc := M_finish (Suc i)\<rparr>))
      | M_check i \<Rightarrow>
          Some (if i < dw_count d then goto_next (M_check (Suc i)) (worker_check (dw_workers d i), d)
                else d\<lparr>dw_pc := M_report\<rparr>)
      | M_report \<Rightarrow> None
      | M_thrown e \<Rightarrow> None)"

definition thread_step_at :: "nat \<Rightarrow> 's thread_env \<Rightarrow> 's workload \<Rightarrow> 's workload option" where
  "thread_step_at i env d =
     (if i < dw_count d
      then map_option (\<lambda>w. at_worker i (\<lambda>_. w) d) (thread_run env (dw_workers d i)) else None)"

inductive workload_step ::
  "(nat \<Rightarrow> u64 res) \<Rightarrow> fresh_abi \<Rightarrow> (u64 \<Rightarrow> fresh_task_hint \<Rightarrow> 's \<Rightarrow> int \<times> 's) \<Rightarrow> dep_options \<Rightarrow>
   's workload \<Rightarrow> 's workload \<Rightarrow> bool"
  for clock abi pub opts where
  step_main: "main_step clock abi pub opts d = Some d1 \<Longrightarrow> workload_step clock abi pub opts d d1"
| step_thread: "thread_step_at i env d = Some d1 \<Longrightarrow> workload_step clock abi pub opts d d1"
| step_wake: "i < dw_count d \<Longrightarrow> workload_step clock abi pub opts d (at_worker i spurious_wake d)"

definition workload_init ::
  "(nat \<Rightarrow> u64 res) \<Rightarrow> fresh_abi \<Rightarrow> dep_options \<Rightarrow> 's workload \<Rightarrow> bool" where
  "workload_init clock abi opts d \<longleftrightarrow> (\<exists>env s. workload_start clock abi opts env s = Inr d)"

text \<open>The 99th percentile of the control ages, in microseconds, as printed.\<close>

definition control_age_p99 :: "u64 list \<Rightarrow> u64" where
  "control_age_p99 ages =
     (if ages = [] then 0 else sort ages ! ((length ages * 99 + 99) div 100 - 1) div 1000)"

end
