(* ===== verification/Workload_Invariant.thy ===== *)
theory Workload_Invariant
  imports Dependent_Workload
begin

text \<open>
  The invariant of the dependent workload and its preservation by every part of a pass of the main
  loop: what a worker's jobs are, that sensor jobs carry identities the graph has not seen, that the
  estimator holds exactly the graph's running batch, and that the release times follow the periods.
  Worker moves that change none of what the owner sees are \<open>quiet\<close>; the release loop has its own rule.
\<close>

section \<open>Time\<close>

definition monotonic :: "(nat \<Rightarrow> u64 res) \<Rightarrow> bool" where
  "monotonic clock \<longleftrightarrow> (\<forall>i j a b. i \<le> j \<longrightarrow> clock i = Inr a \<longrightarrow> clock j = Inr b \<longrightarrow> a \<le> b)"

text \<open>\<open>past clock n t\<close>: no reading from the \<open>n\<close>-th on is before \<open>t\<close>.\<close>

definition past :: "(nat \<Rightarrow> u64 res) \<Rightarrow> nat \<Rightarrow> u64 \<Rightarrow> bool" where
  "past clock n t \<longleftrightarrow> (\<forall>k a. n \<le> k \<longrightarrow> clock k = Inr a \<longrightarrow> t \<le> a)"

lemma past_later: "past clock n t \<Longrightarrow> n \<le> k \<Longrightarrow> past clock k t"
  unfolding past_def by (meson order_trans)

lemma past_earlier: "past clock n t \<Longrightarrow> u \<le> t \<Longrightarrow> past clock n u"
  unfolding past_def by (blast intro: order_trans)

lemma past_read: "monotonic clock \<Longrightarrow> clock k = Inr t \<Longrightarrow> k \<le> n \<Longrightarrow> past clock n t"
  unfolding past_def monotonic_def by (meson order_trans)

lemma past_now: "past clock n t \<Longrightarrow> clock n = Inr a \<Longrightarrow> t \<le> a"
  unfolding past_def by blast

section \<open>The release loop\<close>

text \<open>
  The loop returns when its body moves \<open>next\<close> forward, and keeps what the body keeps; \<open>T\<close> says what
  an exception of the body leaves.
\<close>

lemma release_loop_rule:
  assumes "I s"
    and body: "\<And>s. I s \<Longrightarrow> next s < fin \<Longrightarrow> next s \<le> t \<Longrightarrow>
      (case body s of (Inl e, s1) \<Rightarrow> T e s1 | (Inr _, s1) \<Rightarrow> I s1 \<and> next s < next s1)"
  shows "\<exists>r s1. release_loop next body fin t s = Some (r, s1) \<and>
    (case r of Inl e \<Rightarrow> T e s1 | Inr _ \<Rightarrow> I s1 \<and> (fin \<le> next s1 \<or> t < next s1))"
  using assms(1)
proof (induction "unat fin - unat (next s)" arbitrary: s rule: less_induct)
  case less
  show ?case
  proof (cases "next s < fin \<and> next s \<le> t")
    case False
    then have "release_loop next body fin t s = Some (Inr (), s)"
      by (subst release_loop.simps) (simp only: if_False)
    with False less.prems show ?thesis by (auto simp: not_less not_le)
  next
    case True
    obtain r s1 where b: "body s = (r, s1)" by fastforce
    show ?thesis
    proof (cases r)
      case (Inl e)
      with True b have "release_loop next body fin t s = Some (Inl e, s1)"
        by (subst release_loop.simps) simp
      with body [OF less.prems] True b Inl show ?thesis by simp
    next
      case (Inr u)
      with True b have l: "release_loop next body fin t s = release_loop next body fin t s1"
        by (subst release_loop.simps) simp
      have i: "I s1" "next s < next s1" using body [OF less.prems] True b Inr by simp_all
      with True have "unat fin - unat (next s1) < unat fin - unat (next s)"
        by (auto simp: word_less_nat_alt)
      from less.hyps [OF this i(1)] show ?thesis unfolding l .
    qed
  qed
qed

section \<open>Moves of a worker\<close>

text \<open>
  What the rest of the program sees of a worker: its counters, whether it is idle, and the jobs it
  holds in order. A quiet move changes none of that.
\<close>

definition quiet :: "('c, 's) worker \<Rightarrow> ('c, 's) worker \<Rightarrow> bool" where
  "quiet w v \<longleftrightarrow> worker_ok v \<and> wk_offered v = wk_offered w \<and> wk_dropped v = wk_dropped w \<and>
     wk_completed v = wk_completed w \<and> idle v = idle w \<and>
     (wk_error v = None \<longrightarrow> wk_error w = None \<and> backlog v = backlog w)"

lemma quiet_line:
  assumes "worker_ok w" and "worker_apply abi pub op w = (Inr (), v)"
    and "accepted op w = []" and "collected op w = []" and "wk_error v = None"
  shows "wk_error w = None \<and> backlog v = backlog w"
  using wk_apply_line [OF assms(1,2,5)] error_sticky [OF assms(2,5)] assms(3,4) by simp

lemma quiet_apply:
  fixes w :: "('c, 's) worker"
  assumes "worker_ok w" and "worker_apply abi pub op w = (Inr (), v)"
    and "accepted op w = []" and "collected op w = []"
    and "wk_offered v = wk_offered w" and "wk_dropped v = wk_dropped w"
    and "wk_completed v = wk_completed w" and "idle v = idle w"
  shows "quiet w v"
  using wk_apply_ok [OF assms(1,2)] quiet_line [OF assms(1-4)] assms(5-8) by (simp add: quiet_def)

lemma quiet_thread:
  assumes "worker_ok w" and "thread_run env w = Some v"
  shows "quiet w v"
proof (rule quiet_apply [OF assms(1), where op = "Op_thread env"])
  show "worker_apply abi pub (Op_thread env) w = (Inr (), v)" for abi pub using assms(2) by simp
  have "wk_offered v = wk_offered w \<and> wk_dropped v = wk_dropped w \<and>
      wk_completed v = wk_completed w \<and> idle v = idle w"
    using assms(2)
  proof (cases rule: thread_cases)
    case shutdown
    show ?thesis unfolding shutdown(4)
      by (rule worker_shutdown_cases [of env w]) (simp_all add: worker_fail_def idle_def)
  qed (simp_all add: worker_fail_def idle_def)
  then show "wk_offered v = wk_offered w" "wk_dropped v = wk_dropped w"
    "wk_completed v = wk_completed w" "idle v = idle w" by simp_all
qed (simp_all add: accepted_def collected_def)

lemma quiet_wake: "worker_ok w \<Longrightarrow> quiet w (spurious_wake w)"
  by (rule quiet_apply [where op = Op_wake]) (simp_all add: accepted_def collected_def idle_def)

lemma quiet_dispatch:
  assumes "worker_ok w" and "worker_dispatch pub now w = (Inr (), v)"
  shows "quiet w v"
proof (rule quiet_apply [OF assms(1), where op = "Op_dispatch now"])
  show "worker_apply abi pub (Op_dispatch now) w = (Inr (), v)" for abi using assms(2) by simp
  have "wk_offered v = wk_offered w \<and> wk_dropped v = wk_dropped w \<and>
      wk_completed v = wk_completed w \<and> idle v = idle w"
    using assms(2) by (cases rule: wk_dispatch_cases) (simp_all add: idle_def)
  then show "wk_offered v = wk_offered w" "wk_dropped v = wk_dropped w"
    "wk_completed v = wk_completed w" "idle v = idle w" by simp_all
qed (simp_all add: accepted_def collected_def)

lemma quiet_finish:
  assumes "worker_ok w"
  shows "quiet w (worker_finish abi pub w)"
proof (rule quiet_apply [OF assms, where op = Op_finish])
  show "worker_apply abi pub Op_finish w = (Inr (), worker_finish abi pub w)" by simp
  let ?v = "worker_finish abi pub w"
  have "wk_offered ?v = wk_offered w \<and> wk_dropped ?v = wk_dropped w \<and>
      wk_completed ?v = wk_completed w \<and> idle ?v = idle w"
    by (rule wk_finish_cases [of abi pub w]) (simp_all add: idle_def)
  then show "wk_offered ?v = wk_offered w" "wk_dropped ?v = wk_dropped w"
    "wk_completed ?v = wk_completed w" "idle ?v = idle w" by simp_all
qed (simp_all add: accepted_def collected_def)

lemma quiet_join: "worker_ok w \<Longrightarrow> worker_join w = Some v \<Longrightarrow> quiet w v"
  by (auto simp: worker_join_def quiet_def worker_ok_def counted_def handed_over_def rests_def pipeline_def
      backlog_def idle_def split: if_splits)

lemma idle_backlog:
  assumes "worker_ok w" and "wk_error w = None"
  shows "idle w \<longleftrightarrow> backlog w = []"
  using assms by (auto simp: idle_def backlog_def worker_ok_def handed_over_def rests_def split: if_splits)

lemma move_line:
  assumes "worker_ok w" and "worker_apply abi pub op w = (Inr (), v)" and "wk_error v = None"
  shows "backlog w @ map unassigned (accepted op w) =
    map (unassigned \<circ> r_job) (collected op w) @ backlog v"
  using assms by (rule wk_apply_line)

lemma offer_move:
  fixes w :: "('c, 's) worker"
  assumes "worker_ok w" and "v = snd (worker_offer j w)"
  shows "worker_ok v" "wk_offered v = wk_offered w + 1" "wk_completed v = wk_completed w"
    "wk_error v = wk_error w" "backlog v = backlog w \<or> backlog v = backlog w @ [unassigned j]"
    "idle w \<Longrightarrow> backlog v = backlog w @ [unassigned j]" "\<not> idle v"
proof -
  have len: "length (wk_queue w) \<le> 32" using assms(1) by (simp add: worker_ok_def)
  show "worker_ok v" using wk_offer_ok [OF assms(1), of j] assms(2) by simp
  have "wk_offered v = wk_offered w + 1 \<and> wk_completed v = wk_completed w \<and> wk_error v = wk_error w \<and>
      (backlog v = backlog w \<or> backlog v = backlog w @ [unassigned j]) \<and>
      (idle w \<longrightarrow> backlog v = backlog w @ [unassigned j]) \<and> \<not> idle v"
    using len
  proof (cases rule: wk_offer_cases [where j = j])
    case accept
    with assms(2) show ?thesis by (simp add: backlog_def pipeline_def idle_def)
  next
    case reject
    then have "wk_queue w \<noteq> []" by auto
    with reject assms(2) show ?thesis
      by (simp add: backlog_def pipeline_def idle_def worker_skip_def)
  qed
  then show "wk_offered v = wk_offered w + 1" "wk_completed v = wk_completed w"
    "wk_error v = wk_error w" "backlog v = backlog w \<or> backlog v = backlog w @ [unassigned j]"
    "idle w \<Longrightarrow> backlog v = backlog w @ [unassigned j]" "\<not> idle v" by simp_all
qed

lemma skip_move:
  "worker_ok w \<Longrightarrow> worker_ok (worker_skip w)" "wk_offered (worker_skip w) = wk_offered w + 1"
  "wk_completed (worker_skip w) = wk_completed w" "wk_error (worker_skip w) = wk_error w"
  "backlog (worker_skip w) = backlog w" "idle (worker_skip w) = idle w"
  by (simp_all add: wk_skip_ok) (simp_all add: worker_skip_def backlog_def pipeline_def idle_def)

lemma collect_move:
  fixes w :: "('c, 's) worker"
  assumes "worker_ok w" and "worker_collect now w = (Inr (Some (c, fin)), v)"
  obtains j where "worker_ok v" "wk_error w = None" "wk_error v = None" "wk_offered v = wk_offered w"
    "wk_completed v = wk_completed w + 1" "backlog w = j # backlog v" "j_complete j = c"
proof -
  have ap: "worker_apply abi pub (Op_collect now) w = (Inr (), v)" for abi pub
    using assms(2) by simp
  from assms(2) show ?thesis
  proof (cases rule: wk_collect_cases)
    case (collected q)
    have "wk_error v = None" using collected(1,4) by (simp add: credit_def)
    from move_line [OF assms(1) ap this] collected(2) have "backlog w = unassigned (r_job q) # backlog v"
      by (simp add: accepted_def collected_def)
    moreover have "j_complete (unassigned (r_job q)) = c" using collected(3) by (simp add: unassigned_def)
    ultimately show ?thesis
      using wk_collect_ok [OF assms] collected(1,4) \<open>wk_error v = None\<close>
      by (intro that [of "unassigned (r_job q)"]) (simp_all add: credit_def)
  qed simp_all
qed

lemma collect_none: "worker_collect now w = (Inr None, v) \<Longrightarrow> v = w"
  by (erule wk_collect_cases) simp_all

section \<open>Moves of the graph\<close>

lemma offer_succeeds:
  assumes "index (m_stream m) = Inr k" and "m_source_time m \<le> t" and "g_clock_time g \<le> t"
    and "\<forall>q. g_last_sequence g k = Some q \<longrightarrow> q < m_sequence m"
  obtains b h where "offer m t g = (Inr b, h)" "g_clock_time h = t"
    "g_last_sequence h = (g_last_sequence g)(k := Some (m_sequence m))"
    "c_offered (g_accounting h k) = c_offered (g_accounting g k) + 1"
    "\<forall>l. l \<noteq> k \<longrightarrow> g_accounting h l = g_accounting g l" "g_running h = g_running g"
proof (cases m t g rule: offer_cases)
  case threw
  have "\<not> (case g_last_sequence g k of None \<Rightarrow> False | Some q \<Rightarrow> m_sequence m \<le> q)"
    using assms(4) by (auto split: option.splits simp: not_le)
  with threw(1) assms(1-3) have False
    by (simp add: offer_def advance_def Let_def not_less split: if_splits)
  then show ?thesis ..
next
  case (rejected i)
  with assms(1) have "i = k" by simp
  show ?thesis by (rule that [OF rejected(5)]) (simp_all add: \<open>i = k\<close>)
next
  case (accepted i)
  with assms(1) have "i = k" by simp
  show ?thesis by (rule that [OF accepted(5)]) (simp_all add: \<open>i = k\<close>)
qed

text \<open>What the sensor workers rely on: identities seen and offers counted.\<close>

definition sensors_kept :: "graph \<Rightarrow> graph \<Rightarrow> bool" where
  "sensors_kept g h \<longleftrightarrow> g_last_sequence h = g_last_sequence g \<and>
     (\<forall>i. c_offered (g_accounting h i) = c_offered (g_accounting g i))"

lemma control_succeeds:
  assumes "g_clock_time g \<le> t"
  obtains sel h where "control t sp age g = (Inr sel, h)" "g_clock_time h = t" "sensors_kept g h"
    "g_running h = g_running g"
  using assms by (auto simp: control_def advance_def Let_def sensors_kept_def not_less)

lemma select_succeeds:
  assumes "graph_ok g" and "g_clock_time g \<le> t"
  obtains (none) h where "select t g = (Inr None, h)" "g_clock_time h = t" "sensors_kept g h"
      "g_running h = g_running g"
  | (batch) b h where "select t g = (Inr (Some b), h)" "g_clock_time h = t" "sensors_kept g h"
      "g_running g = None" "g_running h = Some b" "b_inputs b \<noteq> []"
proof -
  obtain b q0 q1 where
    sel: "select t g =
       (if g_running g \<noteq> None \<or> b = [] then (Inr None, g\<lparr>g_clock_time := t\<rparr>)
        else (Inr (Some \<lparr>b_id = g_next_batch g, b_inputs = b\<rparr>),
              g\<lparr>g_clock_time := t, g_inbox := (g_inbox g)(0 := q0, 1 := q1),
                g_next_batch := g_next_batch g + 1,
                g_running := Some \<lparr>b_id = g_next_batch g, b_inputs = b\<rparr>\<rparr>))"
    by (rule select_unfold [OF assms])
  show ?thesis
  proof (cases "g_running g \<noteq> None \<or> b = []")
    case True
    then have "select t g = (Inr None, g\<lparr>g_clock_time := t\<rparr>)" using sel by (simp only: if_True)
    then show ?thesis by (rule none) (simp_all add: sensors_kept_def)
  next
    case False
    then have "select t g = (Inr (Some \<lparr>b_id = g_next_batch g, b_inputs = b\<rparr>),
        g\<lparr>g_clock_time := t, g_inbox := (g_inbox g)(0 := q0, 1 := q1),
          g_next_batch := g_next_batch g + 1,
          g_running := Some \<lparr>b_id = g_next_batch g, b_inputs = b\<rparr>\<rparr>)"
      using sel by (simp only: if_False)
    then show ?thesis by (rule batch) (use False in \<open>simp_all add: sensors_kept_def\<close>)
  qed
qed

lemma completion_succeeds:
  assumes "graph_ok g" and "g_running g = Some b" and "g_clock_time g \<le> t"
  obtains s h where "complete (b_id b) t g = (Inr s, h)" "g_clock_time h = t" "sensors_kept g h"
    "g_running h = None" "has_camera b \<Longrightarrow> s_camera s \<noteq> None"
  using assms(1)
proof (cases rule: complete_cases [where bid = "b_id b" and t = t])
  case threw
  with assms show ?thesis by (auto simp: not_less [symmetric])
next
  case (finished run)
  with assms(2) have "run = b" by simp
  define s where "s = retain_all (b_inputs b)
    ((case g_latest g of None \<Rightarrow> snapshot_zero | Some l \<Rightarrow> l)\<lparr>s_batch_id := b_id b, s_completed := t\<rparr>)"
  have "complete (b_id b) t g = (Inr s, (add_consumed (b_inputs b) (g\<lparr>g_clock_time := t\<rparr>))
      \<lparr>g_latest := Some s, g_running := None\<rparr>)"
    using finished(5) unfolding \<open>run = b\<close> s_def by (simp add: Let_def)
  then show ?thesis
  proof (rule that)
    assume "has_camera b"
    then have "filter (\<lambda>m. m_stream m = Stream_camera) (b_inputs b) \<noteq> []"
      by (auto simp: has_camera_def list_ex_iff filter_empty_conv)
    then show "s_camera s \<noteq> None" by (simp add: s_def retain_all_def foldl_retain_None)
  qed (simp_all add: sensors_kept_def add_consumed_def)
qed

section \<open>Invariant\<close>

definition belongs :: "nat \<Rightarrow> completion \<Rightarrow> bool" where
  "belongs i c = (case c of Offer_measurement m \<Rightarrow> i < 2 | Complete_batch b \<Rightarrow> i = 2
     | Count_control sel \<Rightarrow> i = 3 | Keep_snapshot s \<Rightarrow> i = 4 | Hog_done \<Rightarrow> 5 \<le> i)"

definition worker_good :: "nat \<Rightarrow> (completion, 's) worker \<Rightarrow> bool" where
  "worker_good i w \<longleftrightarrow> worker_ok w \<and>
     (wk_error w = None \<longrightarrow> (\<forall>j \<in> set (backlog w). belongs i (j_complete j)))"

text \<open>
  A job of a sensor worker: its measurement is newer than any the graph has seen of that stream, was
  released by now, and carries the identity of the job. \<open>lo\<close> is the last identity the graph has
  seen, \<open>hi\<close> the last one released.
\<close>

definition sensor_job ::
  "(nat \<Rightarrow> u64 res) \<Rightarrow> nat \<Rightarrow> stream \<Rightarrow> u64 option \<Rightarrow> u64 \<Rightarrow> completion job \<Rightarrow> bool" where
  "sensor_job clock n s lo hi j \<longleftrightarrow> j_id j \<le> hi \<and> (\<forall>q. lo = Some q \<longrightarrow> q < j_id j) \<and>
     (\<exists>m. j_complete j = Offer_measurement m \<and> m_stream m = s \<and> m_sequence m = j_id j \<and>
          past clock n (m_source_time m))"

definition sensor_line ::
  "(nat \<Rightarrow> u64 res) \<Rightarrow> nat \<Rightarrow> stream \<Rightarrow> u64 option \<Rightarrow> u64 \<Rightarrow> completion job list \<Rightarrow> bool" where
  "sensor_line clock n s lo hi js \<longleftrightarrow> sorted_wrt (<) (map j_id js) \<and>
     (\<forall>j \<in> set js. sensor_job clock n s lo hi j)"

definition sensor_ok ::
  "(nat \<Rightarrow> u64 res) \<Rightarrow> nat \<Rightarrow> graph \<Rightarrow> nat \<Rightarrow> stream \<Rightarrow> (completion, 's) worker \<Rightarrow> u64 \<Rightarrow> bool" where
  "sensor_ok clock n g i s w ident \<longleftrightarrow> wk_offered w = ident \<and>
     wk_completed w = c_offered (g_accounting g i) \<and> (\<forall>q. g_last_sequence g i = Some q \<longrightarrow> q \<le> ident) \<and>
     (wk_error w = None \<longrightarrow> sensor_line clock n s (g_last_sequence g i) ident (backlog w))"

definition estimator_ok :: "graph \<Rightarrow> (completion, 's) worker \<Rightarrow> bool" where
  "estimator_ok g w \<longleftrightarrow> (idle w \<longleftrightarrow> g_running g = None) \<and>
     (wk_error w = None \<longrightarrow> map j_complete (backlog w) =
        (case g_running g of None \<Rightarrow> [] | Some b \<Rightarrow> [Complete_batch b]))"

definition schedule_ok :: "u64 \<Rightarrow> u64 \<Rightarrow> nat \<Rightarrow> u64 \<Rightarrow> u64 \<Rightarrow> bool" where
  "schedule_ok start fin period ident next \<longleftrightarrow> unat next = unat start + unat ident * period \<and>
     (next = start \<or> unat next < unat fin + period)"

definition window_ok :: "dep_options \<Rightarrow> u64 \<Rightarrow> u64 \<Rightarrow> bool" where
  "window_ok opts start fin \<longleftrightarrow> unat fin = unat start + nat (dp_seconds opts) * 1000000000 \<and>
     unat fin < 18000000000000000000"

definition workload_ok :: "(nat \<Rightarrow> u64 res) \<Rightarrow> dep_options \<Rightarrow> 's workload \<Rightarrow> bool" where
  "workload_ok clock opts d \<longleftrightarrow> graph_ok (dw_graph d) \<and>
     past clock (dw_reads d) (g_clock_time (dw_graph d)) \<and> 5 \<le> dw_count d \<and>
     (\<forall>i < dw_count d. worker_good i (dw_workers d i)) \<and>
     sensor_ok clock (dw_reads d) (dw_graph d) 0 Stream_imu (dw_workers d 0) (dw_imu_id d) \<and>
     sensor_ok clock (dw_reads d) (dw_graph d) 1 Stream_camera (dw_workers d 1) (dw_camera_id d) \<and>
     estimator_ok (dw_graph d) (dw_workers d 2) \<and>
     wk_offered (dw_workers d 3) = dw_control_id d \<and>
     wk_completed (dw_workers d 3) = dw_usable d + dw_stale d + dw_missing d \<and>
     schedule_ok (dw_begin d) (dw_end d) 5000000 (dw_imu_id d) (dw_next_imu d) \<and>
     schedule_ok (dw_begin d) (dw_end d) 50000000 (dw_camera_id d) (dw_next_camera d) \<and>
     schedule_ok (dw_begin d) (dw_end d) 10000000 (dw_control_id d) (dw_next_control d) \<and>
     window_ok opts (dw_begin d) (dw_end d)"

lemma workload_okD:
  assumes "workload_ok clock opts d"
  shows "graph_ok (dw_graph d)" "past clock (dw_reads d) (g_clock_time (dw_graph d))"
    "5 \<le> dw_count d" "i < dw_count d \<Longrightarrow> worker_good i (dw_workers d i)"
    "sensor_ok clock (dw_reads d) (dw_graph d) 0 Stream_imu (dw_workers d 0) (dw_imu_id d)"
    "sensor_ok clock (dw_reads d) (dw_graph d) 1 Stream_camera (dw_workers d 1) (dw_camera_id d)"
    "estimator_ok (dw_graph d) (dw_workers d 2)"
  using assms by (simp_all add: workload_ok_def)

lemma worker_goodD: "worker_good i w \<Longrightarrow> worker_ok w"
  by (simp add: worker_good_def)

section \<open>Preservation by quiet moves and by time\<close>

lemma good_quiet: "worker_good i w \<Longrightarrow> quiet w v \<Longrightarrow> worker_good i v"
  by (simp add: worker_good_def quiet_def)

lemma sensor_quiet: "sensor_ok clock n g i s w ident \<Longrightarrow> quiet w v \<Longrightarrow> sensor_ok clock n g i s v ident"
  by (simp add: sensor_ok_def quiet_def)

lemma estimator_quiet: "estimator_ok g w \<Longrightarrow> quiet w v \<Longrightarrow> estimator_ok g v"
  by (simp add: estimator_ok_def quiet_def)

lemma workload_quiet:
  assumes "workload_ok clock opts d" and "quiet (dw_workers d i) v"
  shows "workload_ok clock opts (at_worker i (\<lambda>_. v) d)"
  using assms good_quiet [of _ "dw_workers d i" v]
  by (auto simp: workload_ok_def at_worker_def quiet_def [of "dw_workers d 3"]
      intro: sensor_quiet estimator_quiet)

lemma sensor_line_later:
  "sensor_line clock n s lo hi js \<Longrightarrow> n \<le> k \<Longrightarrow> sensor_line clock k s lo hi js"
  unfolding sensor_line_def sensor_job_def by (meson past_later)

lemma sensor_later: "sensor_ok clock n g i s w ident \<Longrightarrow> n \<le> k \<Longrightarrow> sensor_ok clock k g i s w ident"
  by (auto simp: sensor_ok_def intro: sensor_line_later)

lemma workload_tick: "workload_ok clock opts d \<Longrightarrow> workload_ok clock opts (tick d)"
  by (auto simp: workload_ok_def tick_def intro: past_later sensor_later)

lemma sensor_kept:
  "sensor_ok clock n g i s w ident \<Longrightarrow> sensors_kept g h \<Longrightarrow> sensor_ok clock n h i s w ident"
  by (simp add: sensor_ok_def sensors_kept_def)

lemma workload_graph:
  assumes "workload_ok clock opts d" and "graph_ok h" and "sensors_kept (dw_graph d) h"
    and "past clock (dw_reads d) (g_clock_time h)" and "estimator_ok h (dw_workers d 2)"
  shows "workload_ok clock opts (d\<lparr>dw_graph := h\<rparr>)"
  using assms by (auto simp: workload_ok_def intro: sensor_kept)

section \<open>Preservation by releases\<close>

lemma unassigned_simps [simp]:
  "j_id (unassigned j) = j_id j" "j_complete (unassigned j) = j_complete j"
  by (simp_all add: unassigned_def)

lemma ms_unat: "unat (5 * ms) = 5000000" "unat (50 * ms) = 50000000" "unat (10 * ms) = 10000000"
  by (simp_all add: ms_def)

lemma schedule_next:
  assumes "schedule_ok start fin p ident next" and "next < fin" and "unat fin < 18000000000000000000"
    and "unat period = p" and "2 \<le> p" and "p \<le> 100000000"
  shows "schedule_ok start fin p (ident + 1) (next + period)" and "next < next + period"
    and "ident < ident + 1"
proof -
  have n: "unat next < unat fin" using assms(2) by (simp add: word_less_nat_alt)
  then have u: "unat (next + period) = unat next + p"
    using assms(3,4,6) unat_add_u64 [of "next" period] by simp
  have "unat ident * 2 \<le> unat ident * p" using assms(5) by simp
  also have "\<dots> \<le> unat next" using assms(1) by (simp add: schedule_ok_def)
  finally have i: "unat (ident + 1) = unat ident + 1"
    using n assms(3) unat_add_u64 [of ident 1] by simp
  show "next < next + period" "ident < ident + 1"
    using u i assms(5) by (simp_all add: word_less_nat_alt)
  show "schedule_ok start fin p (ident + 1) (next + period)"
    using assms(1) n u i by (simp add: schedule_ok_def)
qed

lemma good_offer:
  assumes "worker_good i w" and "belongs i (j_complete j)"
  shows "worker_good i (snd (worker_offer j w))"
  using offer_move(1,4,5) [OF worker_goodD [OF assms(1)] refl, of j] assms
  by (auto simp: worker_good_def)

lemma sensor_release:
  assumes "sensor_ok clock n g i s w ident" and "worker_ok w" and "past clock n release"
    and "ident < ident + 1"
    and "j = new_job (ident + 1) release deadline work
      (Offer_measurement \<lparr>m_stream = s, m_sequence = ident + 1, m_source_time = release\<rparr>)"
  shows "sensor_ok clock n g i s (snd (worker_offer j w)) (ident + 1)"
proof -
  note mv = offer_move(2-5) [OF assms(2) refl, of j]
  have up: "q < ident + 1" if "q \<le> ident" for q using that assms(4) by (rule le_less_trans)
  have line: "sensor_line clock n s (g_last_sequence g i) (ident + 1) (backlog w)"
    and new: "sensor_line clock n s (g_last_sequence g i) (ident + 1) (backlog w @ [unassigned j])"
    if "wk_error w = None"
  proof -
    have old: "sensor_line clock n s (g_last_sequence g i) ident (backlog w)"
      using assms(1) that by (simp add: sensor_ok_def)
    then show l: "sensor_line clock n s (g_last_sequence g i) (ident + 1) (backlog w)"
      unfolding sensor_line_def sensor_job_def by (meson less_imp_le up)
    have "sensor_job clock n s (g_last_sequence g i) (ident + 1) (unassigned j)"
      using assms(1,3) up by (simp add: sensor_job_def sensor_ok_def assms(5) new_job_def)
    moreover have "j_id x < ident + 1" if "x \<in> set (backlog w)" for x
      using old that up by (auto simp: sensor_line_def sensor_job_def)
    ultimately show "sensor_line clock n s (g_last_sequence g i) (ident + 1) (backlog w @ [unassigned j])"
      using l by (auto simp: sensor_line_def sorted_wrt_append assms(5) new_job_def)
  qed
  have "sensor_line clock n s (g_last_sequence g i) (ident + 1) (backlog (snd (worker_offer j w)))"
    if "wk_error w = None"
    using mv(4) line [OF that] new [OF that] by metis
  with assms(1) mv(1-3) up show ?thesis
    by (auto simp: sensor_ok_def less_imp_le)
qed

definition advanced :: "'s workload \<Rightarrow> 's workload \<Rightarrow> bool" where
  "advanced d d1 \<longleftrightarrow> dw_count d1 = dw_count d \<and> dw_begin d1 = dw_begin d \<and> dw_end d1 = dw_end d \<and>
     dw_reads d \<le> dw_reads d1 \<and> dw_next_imu d \<le> dw_next_imu d1 \<and>
     dw_next_camera d \<le> dw_next_camera d1 \<and> dw_next_control d \<le> dw_next_control d1"

lemma advanced_refl [simp]: "advanced d d"
  by (simp add: advanced_def)

lemma advanced_trans: "advanced a b \<Longrightarrow> advanced b c \<Longrightarrow> advanced a c"
  unfolding advanced_def by (auto intro: order_trans)

lemma refill_hog_ok:
  assumes "workload_ok clock opts d" and "5 \<le> i"
  shows "workload_ok clock opts (refill_hog t i d) \<and> advanced d (refill_hog t i d)"
proof -
  let ?j = "new_job (wk_offered (dw_workers d i) + 1) t (t + 100 * ms) ms Hog_done"
  have "belongs i (j_complete ?j)" using assms(2) by (simp add: belongs_def new_job_def)
  then have "worker_good i (snd (worker_offer ?j (dw_workers d i)))" if "i < dw_count d"
    using workload_okD(4) [OF assms(1) that] by (rule good_offer [rotated])
  then have "workload_ok clock opts (at_worker i (\<lambda>w. snd (worker_offer ?j w)) d)"
    using assms by (auto simp: workload_ok_def at_worker_def)
  then show ?thesis
    using assms(1) by (simp add: refill_hog_def Let_def at_worker_def advanced_def)
qed

lemma refill_hogs_ok:
  assumes "workload_ok clock opts d" and "\<forall>i \<in> set is. 5 \<le> i"
  shows "workload_ok clock opts (fold (refill_hog t) is d) \<and> advanced d (fold (refill_hog t) is d)"
  using assms
proof (induction "is" arbitrary: d)
  case (Cons i "is")
  have "workload_ok clock opts (refill_hog t i d)" "advanced d (refill_hog t i d)"
    using refill_hog_ok [OF Cons.prems(1), of i t] Cons.prems(2) by simp_all
  with Cons.IH [of "refill_hog t i d"] Cons.prems(2) show ?case by (auto intro: advanced_trans)
qed simp

lemma imu_release_ok:
  assumes ok: "workload_ok clock opts d" and due: "dw_next_imu d < dw_end d"
    and past: "past clock (dw_reads d) (dw_next_imu d)"
  obtains d1 where "imu_release d = (Inr (), d1)" "workload_ok clock opts d1" "advanced d d1"
    "dw_next_imu d < dw_next_imu d1" "dw_reads d1 = dw_reads d"
proof -
  have "unat (dw_end d) < 18000000000000000000"
    "schedule_ok (dw_begin d) (dw_end d) 5000000 (dw_imu_id d) (dw_next_imu d)"
    using ok by (simp_all add: workload_ok_def window_ok_def)
  note nx = schedule_next [OF this(2) due this(1) ms_unat(1)]
  have wk: "worker_good 0 (dw_workers d 0)" using ok by (auto simp: workload_ok_def)
  let ?m = "\<lparr>m_stream = Stream_imu, m_sequence = dw_imu_id d + 1, m_source_time = dw_next_imu d\<rparr>"
  let ?j = "new_job (dw_imu_id d + 1) (dw_next_imu d) (dw_next_imu d + 5 * ms) 150000 (Offer_measurement ?m)"
  have "sensor_ok clock (dw_reads d) (dw_graph d) 0 Stream_imu (snd (worker_offer ?j (dw_workers d 0)))
      (dw_imu_id d + 1)"
    by (rule sensor_release [OF workload_okD(5) [OF ok] worker_goodD [OF wk] past _ refl]) (use nx in simp)
  moreover have "worker_good 0 (snd (worker_offer ?j (dw_workers d 0)))"
    using wk by (rule good_offer) (simp add: belongs_def new_job_def)
  ultimately have "workload_ok clock opts (snd (imu_release d))"
    using ok nx by (auto simp: workload_ok_def imu_release_def Let_def at_worker_def)
  moreover have "imu_release d = (Inr (), snd (imu_release d))" by (simp add: imu_release_def Let_def)
  moreover have "advanced d (snd (imu_release d)) \<and> dw_next_imu d < dw_next_imu (snd (imu_release d)) \<and>
      dw_reads (snd (imu_release d)) = dw_reads d"
    using nx by (simp add: imu_release_def Let_def at_worker_def advanced_def)
  ultimately show ?thesis using that by blast
qed

lemma camera_release_ok:
  assumes ok: "workload_ok clock opts d" and due: "dw_next_camera d < dw_end d"
    and past: "past clock (dw_reads d) (dw_next_camera d)"
  obtains d1 where "camera_release d = (Inr (), d1)" "workload_ok clock opts d1" "advanced d d1"
    "dw_next_camera d < dw_next_camera d1" "dw_reads d1 = dw_reads d"
proof -
  have "unat (dw_end d) < 18000000000000000000"
    "schedule_ok (dw_begin d) (dw_end d) 50000000 (dw_camera_id d) (dw_next_camera d)"
    using ok by (simp_all add: workload_ok_def window_ok_def)
  note nx = schedule_next [OF this(2) due this(1) ms_unat(2)]
  have wk: "worker_good 1 (dw_workers d 1)" using ok by (auto simp: workload_ok_def)
  let ?m = "\<lparr>m_stream = Stream_camera, m_sequence = dw_camera_id d + 1, m_source_time = dw_next_camera d\<rparr>"
  let ?j = "new_job (dw_camera_id d + 1) (dw_next_camera d) (dw_next_camera d + 33 * ms) (4 * ms) (Offer_measurement ?m)"
  have "sensor_ok clock (dw_reads d) (dw_graph d) 1 Stream_camera (snd (worker_offer ?j (dw_workers d 1)))
      (dw_camera_id d + 1)"
    by (rule sensor_release [OF workload_okD(6) [OF ok] worker_goodD [OF wk] past _ refl]) (use nx in simp)
  moreover have "worker_good 1 (snd (worker_offer ?j (dw_workers d 1)))"
    using wk by (rule good_offer) (simp add: belongs_def new_job_def)
  ultimately have "workload_ok clock opts (snd (camera_release d))"
    using ok nx by (auto simp: workload_ok_def camera_release_def Let_def at_worker_def)
  moreover have "camera_release d = (Inr (), snd (camera_release d))" by (simp add: camera_release_def Let_def)
  moreover have "advanced d (snd (camera_release d)) \<and> dw_next_camera d < dw_next_camera (snd (camera_release d)) \<and>
      dw_reads (snd (camera_release d)) = dw_reads d"
    using nx by (simp add: camera_release_def Let_def at_worker_def advanced_def)
  ultimately show ?thesis using that by blast
qed

text \<open>Operations of the graph that keep the sensors' view, under the current reading.\<close>

lemma workload_graph_now:
  assumes "monotonic clock" and "workload_ok clock opts d" and "clock (dw_reads d) = Inr t"
    and "graph_ok h" and "g_clock_time h = t" and "sensors_kept (dw_graph d) h"
    and "g_running h = g_running (dw_graph d)"
  shows "workload_ok clock opts ((tick d)\<lparr>dw_graph := h\<rparr>)"
proof (rule workload_graph [OF workload_tick [OF assms(2)]])
  show "past clock (dw_reads (tick d)) (g_clock_time h)"
    using past_read [OF assms(1,3)] assms(5) by (simp add: tick_def)
  show "estimator_ok h (dw_workers (tick d) 2)"
    using workload_okD(7) [OF assms(2)] assms(7) by (simp add: estimator_ok_def tick_def)
qed (use assms in \<open>simp_all add: tick_def\<close>)

lemma control_release_ok:
  assumes mono: "monotonic clock" and ok: "workload_ok clock opts d"
    and due: "dw_next_control d < dw_end d"
  obtains (threw) e d1 where "control_release clock d = (Inl e, d1)" "clock (dw_reads d) = Inl e"
  | (released) d1 where "control_release clock d = (Inr (), d1)" "workload_ok clock opts d1" "advanced d d1"
      "dw_next_control d < dw_next_control d1"
proof -
  have "unat (dw_end d) < 18000000000000000000"
    "schedule_ok (dw_begin d) (dw_end d) 10000000 (dw_control_id d) (dw_next_control d)"
    using ok by (simp_all add: workload_ok_def window_ok_def)
  note nx = schedule_next [OF this(2) due this(1) ms_unat(3)]
  have wk: "worker_good 3 (dw_workers d 3)" using ok by (auto simp: workload_ok_def)
  show ?thesis
  proof (cases "idle (dw_workers d 3)")
    case False
    define d1 where "d1 = at_worker 3 worker_skip
      (d\<lparr>dw_control_id := dw_control_id d + 1, dw_next_control := dw_next_control d + 10 * ms\<rparr>)"
    have "control_release clock d = (Inr (), d1)"
      using False by (simp add: control_release_def Let_def d1_def)
    moreover have "worker_good 3 (worker_skip (dw_workers d 3))"
      using wk skip_move(1,4,5) [of "dw_workers d 3"] by (simp add: worker_good_def)
    then have "workload_ok clock opts d1"
      using ok nx by (auto simp: workload_ok_def d1_def at_worker_def skip_move)
    moreover have "advanced d d1 \<and> dw_next_control d < dw_next_control d1"
      using nx by (simp add: d1_def at_worker_def advanced_def)
    ultimately show ?thesis using released by blast
  next
    case True
    show ?thesis
    proof (cases "clock (dw_reads d)")
      case (Inl e)
      with True show ?thesis by (intro threw) (simp_all add: control_release_def Let_def)
    next
      case (Inr now)
      have "g_clock_time (dw_graph d) \<le> now" using workload_okD(2) [OF ok] Inr by (rule past_now)
      then obtain sel h where c: "control now ((dw_control_id d + 1) div 100) (20 * ms) (dw_graph d) = (Inr sel, h)"
        and h: "g_clock_time h = now" "sensors_kept (dw_graph d) h" "g_running h = g_running (dw_graph d)"
        by (rule control_succeeds)
      have "graph_ok h" using control_ok [OF workload_okD(1) [OF ok]] c by (metis snd_conv)
      note g = workload_graph_now [OF mono ok Inr this h]
      define j where "j = (new_job (dw_control_id d + 1) (dw_next_control d)
        (dw_next_control d + 10 * ms) 200000 (Count_control sel))\<lparr>j_outcome := outcome_int (k_outcome sel)\<rparr>"
      define d1 where "d1 = at_worker 3 (\<lambda>w. snd (worker_offer j w)) ((tick (d\<lparr>dw_control_id := dw_control_id d + 1\<rparr>))
        \<lparr>dw_graph := h, dw_next_control := dw_next_control d + 10 * ms\<rparr>)"
      have "control_release clock d = (Inr (), d1)"
        using True Inr c by (simp add: control_release_def Let_def d1_def j_def)
      moreover have "worker_good 3 (snd (worker_offer j (dw_workers d 3)))"
        using wk by (rule good_offer) (simp add: belongs_def new_job_def j_def)
      then have "workload_ok clock opts d1"
        using g nx offer_move(2,3) [OF worker_goodD [OF wk] refl, of j]
        by (auto simp: workload_ok_def d1_def at_worker_def tick_def)
      moreover have "advanced d d1 \<and> dw_next_control d < dw_next_control d1"
        using nx by (simp add: d1_def at_worker_def advanced_def tick_def)
      ultimately show ?thesis using released by blast
    qed
  qed
qed

lemma estimate_ok:
  assumes mono: "monotonic clock" and ok: "workload_ok clock opts d"
  obtains (threw) e d1 where "estimate clock opts d = (Inl e, d1)" "clock (dw_reads d) = Inl e"
  | (returned) d1 where "estimate clock opts d = (Inr (), d1)" "workload_ok clock opts d1" "advanced d d1"
proof (cases "idle (dw_workers d 2)")
  case False
  with ok show ?thesis by (intro returned [of d]) (simp_all add: estimate_def)
next
  case True
  have wk: "worker_good 2 (dw_workers d 2)" using ok by (auto simp: workload_ok_def)
  show ?thesis
  proof (cases "clock (dw_reads d)")
    case (Inl e)
    with True show ?thesis by (intro threw) (simp_all add: estimate_def)
  next
    case (Inr now)
    have g0: "graph_ok (dw_graph d)" and "g_clock_time (dw_graph d) \<le> now"
      using workload_okD(1) [OF ok] past_now [OF workload_okD(2) [OF ok] Inr] by simp_all
    then show ?thesis
    proof (cases rule: select_succeeds)
      case (none h)
      have "graph_ok h" using select_ok [OF g0] none(1) by (metis snd_conv)
      from workload_graph_now [OF mono ok Inr this none(2-4)] True Inr none(1) show ?thesis
        by (intro returned [of "(tick d)\<lparr>dw_graph := h\<rparr>"]) (simp_all add: estimate_def advanced_def tick_def)
    next
      case (batch b h)
      have gh: "graph_ok h" using select_ok [OF g0] batch(1) by (metis snd_conv)
      obtain m ms where b: "b_inputs b = m # ms" using batch(6) by (auto simp: neq_Nil_conv)
      define j where "j = estimator_job opts b m"
      define w where "w = snd (worker_offer j (dw_workers d 2))"
      define d1 where "d1 = at_worker 2 (\<lambda>w. snd (worker_offer j w)) ((tick d)\<lparr>dw_graph := h, dw_burst_job :=
        (if bursting opts b then b_id b else dw_burst_job d)\<rparr>)"
      have e: "estimate clock opts d = (Inr (), d1)"
        using True Inr batch(1) b by (simp add: estimate_def d1_def j_def)
      note mv = offer_move [OF worker_goodD [OF wk] w_def]
      have jc: "j_complete j = Complete_batch b" by (simp add: j_def estimator_job_def new_job_def)
      have "worker_good 2 w" unfolding w_def
        using wk by (rule good_offer) (simp add: belongs_def jc)
      moreover have "estimator_ok h w"
        using mv(4) mv(6) [OF True] mv(7) batch(4,5) workload_okD(7) [OF ok]
        by (simp add: estimator_ok_def jc)
      moreover have "past clock (dw_reads (tick d)) (g_clock_time h)"
        using past_read [OF mono Inr] batch(2) by (simp add: tick_def)
      ultimately have "workload_ok clock opts d1"
        using workload_tick [OF ok] gh batch(3)
        by (auto simp: workload_ok_def d1_def at_worker_def tick_def w_def [symmetric] intro: sensor_kept)
      with e show ?thesis
        by (intro returned [of d1]) (simp_all add: d1_def at_worker_def advanced_def tick_def)
    qed
  qed
qed

section \<open>A pass of the loop\<close>

definition clock_failure :: "(nat \<Rightarrow> u64 res) \<Rightarrow> exn \<Rightarrow> bool" where
  "clock_failure clock e \<longleftrightarrow> (\<exists>n. clock n = Inl e)"

text \<open>
  What a phase of the loop may do: it always returns, an exception is a failing clock, and otherwise
  the invariant holds again.
\<close>

definition phase_ok ::
  "(nat \<Rightarrow> u64 res) \<Rightarrow> dep_options \<Rightarrow> 's workload \<Rightarrow> ('s workload \<Rightarrow> bool) \<Rightarrow>
   (unit res \<times> 's workload) option \<Rightarrow> bool" where
  "phase_ok clock opts d Q p \<longleftrightarrow> (\<exists>r d1. p = Some (r, d1) \<and>
     (case r of Inl e \<Rightarrow> clock_failure clock e
      | Inr _ \<Rightarrow> workload_ok clock opts d1 \<and> advanced d d1 \<and> Q d1))"

lemma phase_loop:
  assumes "workload_ok clock opts d"
    and body: "\<And>s. workload_ok clock opts s \<Longrightarrow> advanced d s \<Longrightarrow> next s < dw_end s \<Longrightarrow> next s \<le> t \<Longrightarrow>
      (\<exists>e s1. body s = (Inl e, s1) \<and> clock_failure clock e) \<or>
      (\<exists>s1. body s = (Inr (), s1) \<and> workload_ok clock opts s1 \<and> advanced s s1 \<and> next s < next s1)"
  shows "phase_ok clock opts d (\<lambda>s. dw_end d \<le> t \<longrightarrow> dw_end d \<le> next s)
    (release_loop next body (dw_end d) t d)"
proof -
  let ?I = "\<lambda>s. workload_ok clock opts s \<and> advanced d s"
  have "\<exists>r s1. release_loop next body (dw_end d) t d = Some (r, s1) \<and>
    (case r of Inl e \<Rightarrow> clock_failure clock e | Inr _ \<Rightarrow> ?I s1 \<and> (dw_end d \<le> next s1 \<or> t < next s1))"
  proof (rule release_loop_rule [where I = ?I and T = "\<lambda>e s. clock_failure clock e"])
    show "?I d" using assms(1) by simp
    fix s
    assume i: "?I s" and n: "next s < dw_end d" "next s \<le> t"
    have "dw_end s = dw_end d" using i by (simp add: advanced_def)
    with body [of s] i n consider
      e s1 where "body s = (Inl e, s1)" "clock_failure clock e"
      | s1 where "body s = (Inr (), s1)" "workload_ok clock opts s1" "advanced s s1" "next s < next s1"
      by fastforce
    then show "case body s of (Inl e, s1) \<Rightarrow> clock_failure clock e | (Inr _, s1) \<Rightarrow> ?I s1 \<and> next s < next s1"
    proof cases
      case 2
      with i show ?thesis by (simp add: advanced_trans [of d s s1])
    qed simp
  qed
  then show ?thesis unfolding phase_ok_def
    by (fastforce split: sum.splits intro: order_trans less_imp_le)
qed

lemma phase_cases:
  assumes "phase_ok clock opts d Q p"
  obtains (threw) e d1 where "p = Some (Inl e, d1)" "clock_failure clock e"
  | (returned) d1 where "p = Some (Inr (), d1)" "workload_ok clock opts d1" "advanced d d1" "Q d1"
  using assms unfolding phase_ok_def by (elim exE conjE) (auto split: sum.splits)

lemma phase_intros:
  "clock_failure clock e \<Longrightarrow> phase_ok clock opts d Q (Some (Inl e, d1))"
  "workload_ok clock opts d1 \<Longrightarrow> advanced d d1 \<Longrightarrow> Q d1 \<Longrightarrow> phase_ok clock opts d Q (Some (Inr (), d1))"
  by (simp_all add: phase_ok_def)

lemma phase_then:
  assumes "phase_ok clock opts d Q p"
    and "\<And>d1. workload_ok clock opts d1 \<Longrightarrow> advanced d d1 \<Longrightarrow> Q d1 \<Longrightarrow> phase_ok clock opts d R (f d1)"
  shows "phase_ok clock opts d R (and_then p f)"
  using assms(1)
proof (cases rule: phase_cases)
  case threw
  then show ?thesis by (simp add: and_then_def phase_intros)
next
  case returned
  with assms(2) show ?thesis by (simp add: and_then_def)
qed

lemma phase_from:
  assumes "phase_ok clock opts d1 Q p" and "advanced d d1" and "\<And>s. advanced d1 s \<Longrightarrow> Q s \<Longrightarrow> R s"
  shows "phase_ok clock opts d R p"
  using assms(1)
proof (cases rule: phase_cases)
  case threw
  then show ?thesis by (simp add: phase_intros)
next
  case returned
  with assms(3) advanced_trans [OF assms(2) returned(3)] show ?thesis by (simp add: phase_intros)
qed

definition released :: "'s workload \<Rightarrow> bool" where
  "released d \<longleftrightarrow> dw_end d \<le> dw_next_imu d \<and> dw_end d \<le> dw_next_camera d \<and> dw_end d \<le> dw_next_control d"

lemma release_phase_ok:
  assumes mono: "monotonic clock" and ok: "workload_ok clock opts d" and now: "past clock (dw_reads d) t"
  shows "phase_ok clock opts d (\<lambda>s. dw_end d \<le> t \<longrightarrow> released s) (release_phase clock opts t d)"
proof -
  define d0 where "d0 = (if dw_begin d \<le> t \<and> t < dw_end d then fold (refill_hog t) [5..<dw_count d] d else d)"
  have ok0: "workload_ok clock opts d0" "advanced d d0"
    unfolding d0_def using refill_hogs_ok [OF ok, of "[5..<dw_count d]"] ok by simp_all
  have p: "past clock (dw_reads s) x" if "advanced d s" "x \<le> t" for s :: "'a workload" and x
    using past_earlier [OF past_later [OF now] that(2)] that(1) by (simp add: advanced_def)
  have fin: "dw_end s = dw_end d" if "advanced d s" for s :: "'a workload"
    using that by (simp add: advanced_def)
  have imu: "phase_ok clock opts s (\<lambda>u. dw_end s \<le> t \<longrightarrow> dw_end s \<le> dw_next_imu u)
      (release_loop dw_next_imu imu_release (dw_end s) t s)"
    if s: "workload_ok clock opts s" "advanced d s" for s :: "'a workload"
    by (rule phase_loop [OF s(1)])
      (metis imu_release_ok p advanced_trans s(2))
  have cam: "phase_ok clock opts s (\<lambda>u. dw_end s \<le> t \<longrightarrow> dw_end s \<le> dw_next_camera u)
      (release_loop dw_next_camera camera_release (dw_end s) t s)"
    if s: "workload_ok clock opts s" "advanced d s" for s :: "'a workload"
    by (rule phase_loop [OF s(1)])
      (metis camera_release_ok p advanced_trans s(2))
  have ctl: "phase_ok clock opts s (\<lambda>u. dw_end s \<le> t \<longrightarrow> dw_end s \<le> dw_next_control u)
      (release_loop dw_next_control (control_release clock) (dw_end s) t s)"
    if s: "workload_ok clock opts s" for s :: "'a workload"
    by (rule phase_loop [OF s])
      (metis control_release_ok [OF mono] clock_failure_def)
  have est: "phase_ok clock opts s (\<lambda>u. True) (Some (estimate clock opts s))"
    if s: "workload_ok clock opts s" for s :: "'a workload"
    using mono s by (cases rule: estimate_ok) (auto simp: phase_ok_def clock_failure_def)
  show ?thesis unfolding release_phase_def Let_def d0_def [symmetric]
  proof (rule phase_then)
    show "phase_ok clock opts d (\<lambda>u. dw_end d \<le> t \<longrightarrow> dw_end d \<le> dw_next_imu u)
        (release_loop dw_next_imu imu_release (dw_end d) t d0)"
      using phase_from [OF imu [OF ok0] ok0(2)] fin [OF ok0(2)] by simp
  next
    fix d1 :: "'a workload"
    assume 1: "workload_ok clock opts d1" "advanced d d1" "dw_end d \<le> t \<longrightarrow> dw_end d \<le> dw_next_imu d1"
    show "phase_ok clock opts d (\<lambda>s. dw_end d \<le> t \<longrightarrow> released s)
        (and_then (release_loop dw_next_camera camera_release (dw_end d) t d1) (\<lambda>d2.
         and_then (release_loop dw_next_control (control_release clock) (dw_end d) t d2) (\<lambda>d3.
         Some (estimate clock opts d3))))"
    proof (rule phase_then)
      show "phase_ok clock opts d (\<lambda>u. dw_end d \<le> t \<longrightarrow> dw_end d \<le> dw_next_imu u \<and> dw_end d \<le> dw_next_camera u)
          (release_loop dw_next_camera camera_release (dw_end d) t d1)"
        by (rule phase_from [OF cam [OF 1(1,2), unfolded fin [OF 1(2)]] 1(2)])
          (use 1(3) in \<open>auto simp: advanced_def intro: order_trans\<close>)
    next
      fix d2 :: "'a workload"
      assume 2: "workload_ok clock opts d2" "advanced d d2"
        "dw_end d \<le> t \<longrightarrow> dw_end d \<le> dw_next_imu d2 \<and> dw_end d \<le> dw_next_camera d2"
      show "phase_ok clock opts d (\<lambda>s. dw_end d \<le> t \<longrightarrow> released s)
        (and_then (release_loop dw_next_control (control_release clock) (dw_end d) t d2) (\<lambda>d3.
         Some (estimate clock opts d3)))"
      proof (rule phase_then)
        show "phase_ok clock opts d (\<lambda>u. dw_end d \<le> t \<longrightarrow> released u)
            (release_loop dw_next_control (control_release clock) (dw_end d) t d2)"
          by (rule phase_from [OF ctl [OF 2(1), unfolded fin [OF 2(2)]] 2(2)])
            (use 2(3) fin [OF 2(2)] in \<open>auto simp: advanced_def released_def intro: order_trans\<close>)
      next
        fix d3 :: "'a workload"
        assume 3: "workload_ok clock opts d3" "advanced d d3" "dw_end d \<le> t \<longrightarrow> released d3"
        then show "phase_ok clock opts d (\<lambda>s. dw_end d \<le> t \<longrightarrow> released s) (Some (estimate clock opts d3))"
          by (intro phase_from [OF est [OF 3(1)] 3(2)])
            (auto simp: advanced_def released_def intro: order_trans)
      qed
    qed
  qed
qed

section \<open>Collection\<close>

lemma collect_throws: "worker_collect now w = (Inl e, v) \<Longrightarrow> wk_error w = Some e \<or> now = Inl e"
  by (auto simp: worker_collect_def Let_def split: option.splits sum.splits if_splits)

lemma dispatch_throws:
  "worker_dispatch pub now w = (Inl e, v) \<Longrightarrow>
   wk_error w = Some e \<or> now = Inl e \<or> e = Runtime_error ''hint publication failed''"
  by (erule wk_dispatch_cases) simp_all

lemma sensor_collect:
  assumes ok: "sensor_ok clock n g k s w ident" and w: "wk_error w = None" "backlog w = j # backlog v"
    and v: "wk_offered v = wk_offered w" "wk_completed v = wk_completed w + 1"
    and m: "j_complete j = Offer_measurement m" and k: "index s = Inr k"
    and t: "clock n = Inr t" "g_clock_time g \<le> t"
  obtains b h where "offer m t g = (Inr b, h)" "g_clock_time h = t" "sensor_ok clock n h k s v ident"
    "g_running h = g_running g"
    "\<forall>l. l \<noteq> k \<longrightarrow> g_last_sequence h l = g_last_sequence g l \<and> g_accounting h l = g_accounting g l"
proof -
  have line: "sensor_line clock n s (g_last_sequence g k) ident (j # backlog v)"
    using ok w by (simp add: sensor_ok_def)
  then have "sensor_job clock n s (g_last_sequence g k) ident j" by (simp add: sensor_line_def)
  then have j: "m_stream m = s" "m_sequence m = j_id j" "past clock n (m_source_time m)" "j_id j \<le> ident"
    "\<forall>q. g_last_sequence g k = Some q \<longrightarrow> q < j_id j"
    using m by (auto simp: sensor_job_def)
  obtain b h where o: "offer m t g = (Inr b, h)" "g_clock_time h = t"
    "g_last_sequence h = (g_last_sequence g)(k := Some (m_sequence m))"
    "c_offered (g_accounting h k) = c_offered (g_accounting g k) + 1"
    "\<forall>l. l \<noteq> k \<longrightarrow> g_accounting h l = g_accounting g l" "g_running h = g_running g"
    using offer_succeeds [of m k t g] j k past_now [OF j(3) t(1)] t(2) by metis
  have "sensor_line clock n s (Some (j_id j)) ident (backlog v)"
    using line by (auto simp: sensor_line_def sensor_job_def)
  then have "sensor_ok clock n h k s v ident"
    using ok v o(3,4) j(2,4) by (simp add: sensor_ok_def)
  with o show ?thesis by (intro that [of b h]) simp_all
qed

lemma sensor_other:
  assumes "sensor_ok clock n g l s w ident" and "l \<noteq> k"
    and "\<forall>l. l \<noteq> k \<longrightarrow> g_last_sequence h l = g_last_sequence g l \<and> g_accounting h l = g_accounting g l"
  shows "sensor_ok clock n h l s w ident"
  using assms by (simp add: sensor_ok_def)

text \<open>The exceptions the loop may end with.\<close>

definition permitted :: "(nat \<Rightarrow> u64 res) \<Rightarrow> 's workload \<Rightarrow> exn \<Rightarrow> bool" where
  "permitted clock d e \<longleftrightarrow> (\<exists>i < dw_count d. wk_error (dw_workers d i) = Some e) \<or>
     clock_failure clock e \<or> e = Runtime_error ''hint publication failed''"

lemma estimator_collect:
  assumes "estimator_ok g w" and "wk_error w = None" and "backlog w = j # backlog v" and "worker_ok v"
    and "wk_error v = None"
  obtains b where "j_complete j = Complete_batch b" "g_running g = Some b" "backlog v = []" "idle v"
  using assms idle_backlog [OF assms(4,5)] by (auto simp: estimator_ok_def split: option.splits)

text \<open>One collected job of the worker \<open>i\<close>, before its closure runs.\<close>

definition collecting ::
  "(nat \<Rightarrow> u64 res) \<Rightarrow> dep_options \<Rightarrow> nat \<Rightarrow> completion job \<Rightarrow> (completion, 's) worker \<Rightarrow> 's workload \<Rightarrow> bool" where
  "collecting clock opts i j v d \<longleftrightarrow> workload_ok clock opts d \<and> i < dw_count d \<and> worker_ok v \<and>
     wk_error (dw_workers d i) = None \<and> wk_error v = None \<and>
     wk_offered v = wk_offered (dw_workers d i) \<and>
     wk_completed v = wk_completed (dw_workers d i) + 1 \<and> backlog (dw_workers d i) = j # backlog v"

lemma collecting_good: "collecting clock opts i j v d \<Longrightarrow> worker_good i v \<and> belongs i (j_complete j)"
  using workload_okD(4) [of clock opts d i] by (auto simp: collecting_def worker_good_def)

lemma collect_imu:
  assumes c: "collecting clock opts 0 j v d" and mono: "monotonic clock"
    and m: "j_complete j = Offer_measurement m" and t: "clock (dw_reads d) = Inr t"
  obtains b h where "offer m t (dw_graph d) = (Inr b, h)"
    "workload_ok clock opts ((tick (at_worker 0 (\<lambda>_. v) d))\<lparr>dw_graph := h\<rparr>)"
proof -
  have ok: "workload_ok clock opts d" using c by (simp add: collecting_def)
  have w: "wk_error (dw_workers d 0) = None" "backlog (dw_workers d 0) = j # backlog v"
    "wk_offered v = wk_offered (dw_workers d 0)" "wk_completed v = wk_completed (dw_workers d 0) + 1"
    using c by (simp_all add: collecting_def)
  obtain b h where o: "offer m t (dw_graph d) = (Inr b, h)" "g_clock_time h = t"
    "sensor_ok clock (dw_reads d) h 0 Stream_imu v (dw_imu_id d)" "g_running h = g_running (dw_graph d)"
    "\<forall>l. l \<noteq> 0 \<longrightarrow> g_last_sequence h l = g_last_sequence (dw_graph d) l \<and>
       g_accounting h l = g_accounting (dw_graph d) l"
    by (rule sensor_collect [OF workload_okD(5) [OF ok] w m index_simps(1) t past_now [OF workload_okD(2) [OF ok] t]])
  have g: "graph_ok h" using offer_ok [OF workload_okD(1) [OF ok]] o(1) by (metis snd_conv)
  have "sensor_ok clock (dw_reads d) h 1 Stream_camera (dw_workers d 1) (dw_camera_id d)"
    by (rule sensor_other [OF workload_okD(6) [OF ok] _ o(5)]) simp
  moreover have "past clock (Suc (dw_reads d)) (g_clock_time h)"
    using past_read [OF mono t] o(2) by simp
  moreover have "estimator_ok h (dw_workers d 2)"
    using workload_okD(7) [OF ok] o(4) by (simp add: estimator_ok_def)
  ultimately have "workload_ok clock opts ((tick (at_worker 0 (\<lambda>_. v) d))\<lparr>dw_graph := h\<rparr>)"
    using ok collecting_good [OF c] g o(3)
    by (auto simp: workload_ok_def at_worker_def tick_def intro: sensor_later)
  with o(1) show ?thesis by (rule that)
qed

lemma index_camera: "index Stream_camera = Inr 1"
  by simp

lemma collect_camera:
  assumes c: "collecting clock opts 1 j v d" and mono: "monotonic clock"
    and m: "j_complete j = Offer_measurement m" and t: "clock (dw_reads d) = Inr t"
  obtains b h where "offer m t (dw_graph d) = (Inr b, h)"
    "workload_ok clock opts ((tick (at_worker 1 (\<lambda>_. v) d))\<lparr>dw_graph := h\<rparr>)"
proof -
  have ok: "workload_ok clock opts d" using c by (simp add: collecting_def)
  have w: "wk_error (dw_workers d 1) = None" "backlog (dw_workers d 1) = j # backlog v"
    "wk_offered v = wk_offered (dw_workers d 1)" "wk_completed v = wk_completed (dw_workers d 1) + 1"
    using c by (simp_all add: collecting_def)
  obtain b h where o: "offer m t (dw_graph d) = (Inr b, h)" "g_clock_time h = t"
    "sensor_ok clock (dw_reads d) h 1 Stream_camera v (dw_camera_id d)" "g_running h = g_running (dw_graph d)"
    "\<forall>l. l \<noteq> 1 \<longrightarrow> g_last_sequence h l = g_last_sequence (dw_graph d) l \<and>
       g_accounting h l = g_accounting (dw_graph d) l"
    by (rule sensor_collect [OF workload_okD(6) [OF ok] w m index_camera t past_now [OF workload_okD(2) [OF ok] t]])
  have g: "graph_ok h" using offer_ok [OF workload_okD(1) [OF ok]] o(1) by (metis snd_conv)
  have "sensor_ok clock (dw_reads d) h 0 Stream_imu (dw_workers d 0) (dw_imu_id d)"
    by (rule sensor_other [OF workload_okD(5) [OF ok] _ o(5)]) simp
  moreover have "past clock (Suc (dw_reads d)) (g_clock_time h)"
    using past_read [OF mono t] o(2) by simp
  moreover have "estimator_ok h (dw_workers d 2)"
    using workload_okD(7) [OF ok] o(4) by (simp add: estimator_ok_def)
  ultimately have "workload_ok clock opts ((tick (at_worker 1 (\<lambda>_. v) d))\<lparr>dw_graph := h\<rparr>)"
    using ok collecting_good [OF c] g o(3)
    by (auto simp: workload_ok_def at_worker_def tick_def intro: sensor_later)
  with o(1) show ?thesis by (rule that)
qed

lemma collect_estimator:
  assumes c: "collecting clock opts 2 j v d" and mono: "monotonic clock"
    and m: "j_complete j = Complete_batch b" and t: "clock (dw_reads d) = Inr t"
  obtains s h where "complete (b_id b) t (dw_graph d) = (Inr s, h)"
    "has_camera b \<Longrightarrow> s_camera s \<noteq> None"
    "workload_ok clock opts ((tick (at_worker 2 (\<lambda>_. v) d))\<lparr>dw_graph := h\<rparr>)"
proof -
  have ok: "workload_ok clock opts d" using c by (simp add: collecting_def)
  have "wk_error (dw_workers d 2) = None" "backlog (dw_workers d 2) = j # backlog v" "worker_ok v" "wk_error v = None"
    using c by (simp_all add: collecting_def)
  then obtain b' where b: "j_complete j = Complete_batch b'" "g_running (dw_graph d) = Some b'"
    "backlog v = []" "idle v"
    by (rule estimator_collect [OF workload_okD(7) [OF ok]])
  have run: "g_running (dw_graph d) = Some b" using b(1,2) m by simp
  obtain s h where o: "complete (b_id b) t (dw_graph d) = (Inr s, h)" "g_clock_time h = t"
    "sensors_kept (dw_graph d) h" "g_running h = None" "has_camera b \<Longrightarrow> s_camera s \<noteq> None"
    using completion_succeeds [OF workload_okD(1) [OF ok] run past_now [OF workload_okD(2) [OF ok] t]] by blast
  have g: "graph_ok h" using complete_ok [OF workload_okD(1) [OF ok]] o(1) by (metis snd_conv)
  have "past clock (Suc (dw_reads d)) (g_clock_time h)" using past_read [OF mono t] o(2) by simp
  moreover have "estimator_ok h v" using b(3,4) o(4) by (simp add: estimator_ok_def)
  ultimately have "workload_ok clock opts ((tick (at_worker 2 (\<lambda>_. v) d))\<lparr>dw_graph := h\<rparr>)"
    using ok collecting_good [OF c] g o(3)
    by (auto simp: workload_ok_def at_worker_def tick_def intro: sensor_later sensor_kept)
  with o(1,5) show ?thesis by (rule that)
qed

lemma collect_control:
  assumes "collecting clock opts 3 j v d"
  shows "workload_ok clock opts (count_control sel (at_worker 3 (\<lambda>_. v) d))"
  using assms collecting_good [OF assms]
  by (cases "k_outcome sel") (auto simp: collecting_def workload_ok_def at_worker_def count_control_def)

lemma collect_plain:
  assumes "collecting clock opts i j v d" and "4 \<le> i"
  shows "workload_ok clock opts (at_worker i (\<lambda>_. v) d)"
  using assms collecting_good [OF assms(1)]
  by (auto simp: collecting_def workload_ok_def at_worker_def)

lemma mapping_offer_ok:
  assumes "workload_ok clock opts d"
  shows "workload_ok clock opts (at_worker 4 (\<lambda>w. snd (worker_offer (mapping_job s m) w)) d)"
proof -
  have "worker_good 4 (snd (worker_offer (mapping_job s m) (dw_workers d 4)))"
    using workload_okD(3,4) [OF assms] by (intro good_offer) (auto simp: belongs_def mapping_job_def new_job_def)
  with assms show ?thesis by (auto simp: workload_ok_def at_worker_def)
qed

definition step_result ::
  "(nat \<Rightarrow> u64 res) \<Rightarrow> dep_options \<Rightarrow> 's workload \<Rightarrow> unit res \<times> 's workload \<Rightarrow> bool" where
  "step_result clock opts d p \<longleftrightarrow> (case p of
     (Inl e, _) \<Rightarrow> permitted clock d e | (Inr _, d1) \<Rightarrow> workload_ok clock opts d1 \<and> advanced d d1)"

lemma step_result_intros:
  "permitted clock d e \<Longrightarrow> step_result clock opts d (Inl e, d1)"
  "workload_ok clock opts d1 \<Longrightarrow> advanced d d1 \<Longrightarrow> step_result clock opts d (Inr (), d1)"
  by (simp_all add: step_result_def)

lemma permitted_clock: "clock n = Inl e \<Longrightarrow> permitted clock d e"
  by (auto simp: permitted_def clock_failure_def)

lemma completion_ok:
  assumes mono: "monotonic clock" and c: "collecting clock opts i j v d"
  shows "step_result clock opts d (run_completion clock (j_complete j) (at_worker i (\<lambda>_. v) d))"
proof -
  let ?d = "at_worker i (\<lambda>_. v) d"
  have reads: "dw_reads ?d = dw_reads d" and graph: "dw_graph ?d = dw_graph d"
    by (simp_all add: at_worker_def)
  have adv: "advanced d ?d" "advanced d ((tick ?d)\<lparr>dw_graph := h\<rparr>)" "advanced d (count_control sel ?d)"
    "advanced d (at_worker k f ((tick ?d)\<lparr>dw_graph := h\<rparr>))" for k f h sel
    by (simp_all add: advanced_def at_worker_def tick_def count_control_def)
  show ?thesis
  proof (cases "j_complete j")
    case (Offer_measurement m)
    then have i: "i = 0 \<or> i = 1" using collecting_good [OF c] by (auto simp: belongs_def)
    show ?thesis
    proof (cases "clock (dw_reads d)")
      case (Inl e)
      then show ?thesis by (simp add: run_completion_def Offer_measurement reads step_result_intros permitted_clock)
    next
      case (Inr t)
      have "\<exists>b h. offer m t (dw_graph d) = (Inr b, h) \<and> workload_ok clock opts ((tick ?d)\<lparr>dw_graph := h\<rparr>)"
        using i c collect_imu [OF _ mono Offer_measurement Inr] collect_camera [OF _ mono Offer_measurement Inr]
        by metis
      then show ?thesis
        by (auto simp: run_completion_def Offer_measurement reads graph Inr intro!: step_result_intros adv)
    qed
  next
    case (Complete_batch b)
    then have i: "i = 2" using collecting_good [OF c] by (auto simp: belongs_def)
    show ?thesis
    proof (cases "clock (dw_reads d)")
      case (Inl e)
      then show ?thesis by (simp add: run_completion_def Complete_batch reads step_result_intros permitted_clock)
    next
      case (Inr t)
      obtain s h where o: "complete (b_id b) t (dw_graph d) = (Inr s, h)"
        "has_camera b \<Longrightarrow> s_camera s \<noteq> None" "workload_ok clock opts ((tick ?d)\<lparr>dw_graph := h\<rparr>)"
        using collect_estimator [OF c [unfolded i] mono Complete_batch Inr] i by metis
      then show ?thesis
        by (auto simp: run_completion_def Complete_batch reads graph Inr Let_def
            intro!: step_result_intros mapping_offer_ok adv)
    qed
  next
    case (Count_control sel)
    then have "i = 3" using collecting_good [OF c] by (auto simp: belongs_def)
    with collect_control [of clock opts j v d sel] c adv(3) [of sel] show ?thesis
      by (simp add: run_completion_def Count_control step_result_intros)
  next
    case (Keep_snapshot s)
    then have "4 \<le> i" using collecting_good [OF c] by (auto simp: belongs_def)
    with collect_plain [OF c] show ?thesis
      by (auto simp: run_completion_def Keep_snapshot intro!: step_result_intros adv)
  next
    case Hog_done
    then have "4 \<le> i" using collecting_good [OF c] by (auto simp: belongs_def)
    with collect_plain [OF c] show ?thesis
      by (auto simp: run_completion_def Hog_done intro!: step_result_intros adv)
  qed
qed

lemma advanced_tick: "step_result clock opts (tick d) p \<Longrightarrow> step_result clock opts d p"
  by (auto simp: step_result_def advanced_def tick_def permitted_def split: prod.splits sum.splits)

lemma advanced_at [simp]: "advanced d (at_worker i f d)" "advanced d (at_worker i f (tick d))"
  by (simp_all add: advanced_def at_worker_def tick_def)

lemma collect_worker_ok:
  assumes mono: "monotonic clock" and ok: "workload_ok clock opts d" and i: "i < dw_count d"
  shows "step_result clock opts d (collect_worker clock i d)"
proof -
  let ?w = "dw_workers d i"
  have wk: "worker_ok ?w" using workload_okD(4) [OF ok i] by (rule worker_goodD)
  obtain r v where c: "worker_collect (clock (dw_reads d)) ?w = (r, v)" by fastforce
  consider e where "r = Inl e" | "r = Inr None" | cb fin where "r = Inr (Some (cb, fin))"
    by (cases r) (auto, metis option.exhaust prod.exhaust)
  then show ?thesis
  proof cases
    case (1 e)
    then have "wk_error ?w = Some e \<or> clock (dw_reads d) = Inl e" using collect_throws c by fast
    then have "permitted clock d e" using i by (auto simp: permitted_def clock_failure_def)
    with 1 c show ?thesis by (simp add: collect_worker_def step_result_intros)
  next
    case 2
    with c have "v = ?w" by (simp add: collect_none)
    then have "at_worker i (\<lambda>_. v) (tick d) = tick d" by (simp add: at_worker_def tick_def)
    with 2 c workload_tick [OF ok] show ?thesis
      by (simp add: collect_worker_def step_result_def advanced_def tick_def)
  next
    case (3 cb fin)
    have "worker_collect (clock (dw_reads d)) ?w = (Inr (Some (cb, fin)), v)" using c 3 by simp
    from wk this obtain j where j: "worker_ok v" "wk_error ?w = None" "wk_error v = None" "wk_offered v = wk_offered ?w"
      "wk_completed v = wk_completed ?w + 1" "backlog ?w = j # backlog v" "j_complete j = cb"
      by (rule collect_move)
    have "collecting clock opts i j v (tick d)"
      using j i workload_tick [OF ok] by (simp add: collecting_def tick_def)
    from advanced_tick [OF completion_ok [OF mono this]] show ?thesis
      using c 3 j(7) by (simp add: collect_worker_def)
  qed
qed

lemma dispatch_worker_ok:
  assumes ok: "workload_ok clock opts d" and i: "i < dw_count d"
  shows "step_result clock opts d (dispatch_worker clock pub i d)"
proof -
  let ?w = "dw_workers d i"
  have wk: "worker_ok ?w" using workload_okD(4) [OF ok i] by (rule worker_goodD)
  obtain r v where c: "worker_dispatch pub (clock (dw_reads d)) ?w = (r, v)" by fastforce
  show ?thesis
  proof (cases r)
    case (Inl e)
    with c have "worker_dispatch pub (clock (dw_reads d)) ?w = (Inl e, v)" by simp
    then have "wk_error ?w = Some e \<or> clock (dw_reads d) = Inl e \<or>
      e = Runtime_error ''hint publication failed''" by (rule dispatch_throws)
    then have "permitted clock d e" using i by (auto simp: permitted_def clock_failure_def)
    with Inl c show ?thesis by (simp add: dispatch_worker_def step_result_intros)
  next
    case (Inr u)
    then have "quiet (dw_workers (tick d) i) v" using quiet_dispatch [OF wk] c by (simp add: tick_def)
    from workload_quiet [OF workload_tick [OF ok] this] Inr c show ?thesis
      by (simp add: dispatch_worker_def step_result_intros)
  qed
qed

end
