(* ===== verification/Workload_Results.thy ===== *)
theory Workload_Results
  imports Workload_Invariant
begin

text \<open>
  The main loop of the dependent workload as a whole: steps of \<open>main\<close> and of the worker threads keep
  the invariant from the start on, so the loop fails only for outside reasons and its final report
  accounts for every release.
\<close>

section \<open>The program\<close>

definition pc_ok :: "'s workload \<Rightarrow> bool" where
  "pc_ok d \<longleftrightarrow> (case dw_pc d of
       M_dispatch t i \<Rightarrow> dw_end d \<le> t \<longrightarrow> released d
     | M_test t \<Rightarrow> dw_end d \<le> t \<longrightarrow> released d
     | M_drained \<Rightarrow> released d \<and> nothing_pending d
     | M_finish i \<Rightarrow> released d \<and> nothing_pending d
     | M_join i \<Rightarrow> released d \<and> nothing_pending d \<and> i < dw_count d
     | M_check i \<Rightarrow> released d \<and> nothing_pending d
     | M_report \<Rightarrow> released d \<and> nothing_pending d
     | _ \<Rightarrow> True)"

definition settled :: "(nat \<Rightarrow> u64 res) \<Rightarrow> dep_options \<Rightarrow> 's workload \<Rightarrow> bool" where
  "settled clock opts d \<longleftrightarrow> (\<exists>e. dw_pc d = M_thrown e) \<or> workload_ok clock opts d \<and> pc_ok d"

lemma workload_pc [simp]:
  "workload_ok clock opts (d\<lparr>dw_pc := pc\<rparr>) = workload_ok clock opts d"
  "workload_ok clock opts (d\<lparr>dw_drained := t\<rparr>) = workload_ok clock opts d"
  by (simp_all add: workload_ok_def)

lemma released_pc [simp]:
  "released (d\<lparr>dw_pc := pc\<rparr>) = released d" "nothing_pending (d\<lparr>dw_pc := pc\<rparr>) = nothing_pending d"
  "released (d\<lparr>dw_drained := t\<rparr>) = released d"
  "nothing_pending (d\<lparr>dw_drained := t\<rparr>) = nothing_pending d"
  "released (tick d) = released d" "nothing_pending (tick d) = nothing_pending d"
  "released (at_worker i f d) = released d"
  by (simp_all add: released_def nothing_pending_def tick_def at_worker_def)

lemma released_advanced: "released d \<Longrightarrow> advanced d d1 \<Longrightarrow> released d1"
  unfolding released_def advanced_def by (auto intro: order_trans)

lemma pending_quiet:
  "nothing_pending d \<Longrightarrow> quiet (dw_workers d i) v \<Longrightarrow> nothing_pending (at_worker i (\<lambda>_. v) d)"
  by (auto simp: nothing_pending_def at_worker_def quiet_def)

lemma pc_ok_quiet:
  assumes "pc_ok d" and "quiet (dw_workers d i) v"
  shows "pc_ok (at_worker i (\<lambda>_. v) d)"
  using assms pending_quiet [OF _ assms(2)]
  by (auto simp: pc_ok_def at_worker_def released_def split: main_pc.splits)

lemma settled_quiet:
  assumes "settled clock opts d" and "i < dw_count d"
    and "worker_ok (dw_workers d i) \<Longrightarrow> quiet (dw_workers d i) v"
  shows "settled clock opts (at_worker i (\<lambda>_. v) d)"
proof (cases "\<exists>e. dw_pc d = M_thrown e")
  case True
  then show ?thesis by (simp add: settled_def at_worker_def)
next
  case False
  then have ok: "workload_ok clock opts d" "pc_ok d" using assms(1) by (auto simp: settled_def)
  have "quiet (dw_workers d i) v" by (rule assms(3) [OF worker_goodD [OF workload_okD(4) [OF ok(1) assms(2)]]])
  with ok assms(2) show ?thesis by (simp add: settled_def workload_quiet pc_ok_quiet)
qed

lemma settled_thread:
  assumes "settled clock opts d" and "thread_step_at i env d = Some d1"
  shows "settled clock opts d1"
proof -
  obtain v where i: "i < dw_count d" and v: "thread_run env (dw_workers d i) = Some v"
    and d1: "d1 = at_worker i (\<lambda>_. v) d"
    using assms(2) by (auto simp: thread_step_at_def split: if_splits)
  show ?thesis unfolding d1 by (rule settled_quiet [OF assms(1) i]) (rule quiet_thread [OF _ v])
qed

lemma settled_wake:
  assumes "settled clock opts d" and "i < dw_count d"
  shows "settled clock opts (at_worker i spurious_wake d)"
proof -
  have "at_worker i spurious_wake d = at_worker i (\<lambda>_. spurious_wake (dw_workers d i)) d"
    by (simp add: at_worker_def)
  then show ?thesis using settled_quiet [OF assms quiet_wake] by simp
qed

text \<open>What a step of \<open>main\<close> does to a settled state: the exceptions, and the invariant.\<close>

definition step_sound :: "(nat \<Rightarrow> u64 res) \<Rightarrow> dep_options \<Rightarrow> 's workload \<Rightarrow> 's workload \<Rightarrow> bool" where
  "step_sound clock opts d d1 \<longleftrightarrow> (\<exists>e. dw_pc d1 = M_thrown e \<and> permitted clock d e) \<or>
     (\<forall>e. dw_pc d1 \<noteq> M_thrown e) \<and> workload_ok clock opts d1 \<and> pc_ok d1"

lemma step_thrown: "permitted clock d e \<Longrightarrow> step_sound clock opts d (d1\<lparr>dw_pc := M_thrown e\<rparr>)"
  by (simp add: step_sound_def)

lemma step_goto:
  assumes "step_result clock opts d p" and "\<forall>e. pc \<noteq> M_thrown e"
    and "\<And>d1. workload_ok clock opts d1 \<Longrightarrow> advanced d d1 \<Longrightarrow> pc_ok (d1\<lparr>dw_pc := pc\<rparr>)"
  shows "step_sound clock opts d (goto_next pc p)"
  using assms by (cases p; cases "fst p") (auto simp: step_result_def goto_next_def step_sound_def)

lemma main_step_cases:
  assumes mono: "monotonic clock" and ok: "workload_ok clock opts d" and pc: "pc_ok d"
    and step: "main_step clock abi pub opts d = Some d1"
  shows "step_sound clock opts d d1"
proof (cases "dw_pc d")
  case (M_collect i)
  show ?thesis
  proof (cases "i < dw_count d")
    case True
    with step M_collect have "d1 = goto_next (M_collect (Suc i)) (collect_worker clock i d)"
      by (simp add: main_step_def)
    then show ?thesis using collect_worker_ok [OF mono ok True] by (auto intro!: step_goto simp: pc_ok_def)
  next
    case False
    with step M_collect ok show ?thesis by (auto simp: main_step_def step_sound_def pc_ok_def)
  qed
next
  case M_release
  show ?thesis
  proof (cases "clock (dw_reads d)")
    case (Inl e)
    with step M_release have "d1 = (tick d)\<lparr>dw_pc := M_thrown e\<rparr>" by (simp add: main_step_def)
    moreover have "permitted clock d e" using Inl by (auto simp: permitted_def clock_failure_def)
    ultimately show ?thesis by (simp add: step_thrown)
  next
    case (Inr t)
    have now: "past clock (dw_reads (tick d)) t" using past_read [OF mono Inr] by (simp add: tick_def)
    obtain r s where r: "release_phase clock opts t (tick d) = Some (r, s)"
      "d1 = goto_next (M_dispatch t 0) (r, s)"
      using step M_release Inr by (auto simp: main_step_def)
    from release_phase_ok [OF mono workload_tick [OF ok] now] show ?thesis
    proof (cases rule: phase_cases)
      case (threw e u)
      then have "permitted clock d e" by (simp add: permitted_def)
      with threw r show ?thesis by (simp add: goto_next_def step_thrown)
    next
      case (returned u)
      have "dw_end u = dw_end d" using returned(3) by (simp add: advanced_def tick_def)
      moreover have "d1 = u\<lparr>dw_pc := M_dispatch t 0\<rparr>"
        using r returned(1) by (auto simp: goto_next_def)
      ultimately show ?thesis using returned(2,4) by (simp add: step_sound_def pc_ok_def tick_def)
    qed
  qed
next
  case (M_dispatch t i)
  then have rel: "dw_end d \<le> t \<longrightarrow> released d" using pc by (simp add: pc_ok_def)
  show ?thesis
  proof (cases "i < dw_count d")
    case True
    have "pc_ok (u\<lparr>dw_pc := M_dispatch t (Suc i)\<rparr>)" if "advanced d u" for u :: "'a workload"
      using rel that released_advanced [of d u] by (auto simp: pc_ok_def advanced_def)
    then have "step_sound clock opts d (goto_next (M_dispatch t (Suc i)) (dispatch_worker clock pub i d))"
      by (intro step_goto [OF dispatch_worker_ok [OF ok True]]) simp_all
    with step M_dispatch True show ?thesis by (simp add: main_step_def)
  next
    case False
    with step M_dispatch ok rel show ?thesis by (auto simp: main_step_def step_sound_def pc_ok_def)
  qed
next
  case (M_test t)
  with step ok pc show ?thesis
    by (auto simp: main_step_def step_sound_def pc_ok_def split: if_splits)
next
  case M_drained
  with step ok pc show ?thesis
    by (cases "clock (dw_reads d)")
      (auto simp: main_step_def step_sound_def pc_ok_def permitted_clock workload_tick)
next
  case (M_finish i)
  then have q: "released d" "nothing_pending d" using pc by (simp_all add: pc_ok_def)
  show ?thesis
  proof (cases "i < dw_count d")
    case True
    have "quiet (dw_workers d i) (worker_finish abi pub (dw_workers d i))"
      using quiet_finish worker_goodD [OF workload_okD(4) [OF ok True]] by blast
    from workload_quiet [OF ok this] pending_quiet [OF q(2) this]
    have u: "workload_ok clock opts (at_worker i (worker_finish abi pub) d)"
      "nothing_pending (at_worker i (worker_finish abi pub) d)" by (simp_all add: at_worker_def)
    have "d1 = (at_worker i (worker_finish abi pub) d)\<lparr>dw_pc := M_join i\<rparr>"
      using step M_finish True by (simp add: main_step_def)
    moreover have "dw_count (at_worker i (worker_finish abi pub) d) = dw_count d"
      by (simp add: at_worker_def)
    ultimately show ?thesis using u q(1) True by (simp add: step_sound_def pc_ok_def)
  next
    case False
    with step M_finish ok q show ?thesis by (auto simp: main_step_def step_sound_def pc_ok_def)
  qed
next
  case (M_join i)
  then have q: "released d" "nothing_pending d" "i < dw_count d" using pc by (simp_all add: pc_ok_def)
  obtain v where v: "worker_join (dw_workers d i) = Some v"
    "d1 = (at_worker i (\<lambda>_. v) d)\<lparr>dw_pc := M_finish (Suc i)\<rparr>"
    using step M_join by (auto simp: main_step_def split: option.splits)
  have "quiet (dw_workers d i) v"
    using quiet_join [OF worker_goodD [OF workload_okD(4) [OF ok q(3)]] v(1)] .
  from workload_quiet [OF ok this] pending_quiet [OF q(2) this] v(2) q(1) show ?thesis
    by (simp add: step_sound_def pc_ok_def)
next
  case (M_check i)
  then have q: "released d" "nothing_pending d" using pc by (simp_all add: pc_ok_def)
  show ?thesis
  proof (cases "i < dw_count d")
    case True
    then have "d1 = goto_next (M_check (Suc i)) (worker_check (dw_workers d i), d)"
      using step M_check by (simp add: main_step_def)
    with ok q True show ?thesis
      by (auto simp: goto_next_def worker_check_def step_sound_def pc_ok_def permitted_def
          split: option.splits)
  next
    case False
    with step M_check ok q show ?thesis by (auto simp: main_step_def step_sound_def pc_ok_def)
  qed
qed (use step in \<open>simp_all add: main_step_def\<close>)

lemma settled_step:
  assumes "monotonic clock" and "settled clock opts d" and "workload_step clock abi pub opts d d1"
  shows "settled clock opts d1"
  using assms(3)
proof cases
  case step_main
  then have "\<forall>e. dw_pc d \<noteq> M_thrown e" by (auto simp: main_step_def)
  with assms(2) have "workload_ok clock opts d" "pc_ok d" by (auto simp: settled_def)
  from main_step_cases [OF assms(1) this step_main] show ?thesis
    by (auto simp: step_sound_def settled_def)
next
  case (step_thread i env)
  from assms(2) step_thread show ?thesis by (rule settled_thread)
next
  case (step_wake i)
  with assms(2) settled_wake show ?thesis by simp
qed

section \<open>The start\<close>

definition fresh_worker :: "('c, 's) worker \<Rightarrow> bool" where
  "fresh_worker w \<longleftrightarrow> worker_ok w \<and> wk_error w = None \<and> wk_offered w = 0 \<and> wk_completed w = 0 \<and>
     backlog w = [] \<and> idle w"

lemma fresh_init: "worker_init w \<Longrightarrow> fresh_worker (w\<lparr>wk_tracing := b\<rparr>)"
  using wk_init_ok [of w] wk_init_unused [of w]
  by (auto simp: fresh_worker_def unused_def backlog_def pipeline_def idle_def worker_ok_def
      counted_def handed_over_def rests_def)

lemma construct_fresh:
  assumes "construct_workers abi opts env s is ws = Inr vs"
  shows "(i \<in> set is \<longrightarrow> fresh_worker (vs i)) \<and> (i \<notin> set is \<longrightarrow> vs i = ws i)"
  using assms
proof (induction "is" arbitrary: ws)
  case (Cons k "is")
  obtain w where w: "worker_constructed (worker_startup abi (env k)
      (worker_new (dp_pin opts \<noteq> []) (worker_class abi k) (of_nat k)
        (k < 4 \<and> dp_policy opts = ''fifo'') s)) = Some (Inr (), w)"
    and r: "construct_workers abi opts env s is (ws(k := w\<lparr>wk_tracing := dp_trace_path opts \<noteq> []\<rparr>)) = Inr vs"
    using Cons.prems by (auto split: option.splits sum.splits)
  have "worker_init w" unfolding worker_init_def using w by blast
  then have "fresh_worker (w\<lparr>wk_tracing := dp_trace_path opts \<noteq> []\<rparr>)" by (rule fresh_init)
  with Cons.IH [OF r] show ?case by auto
qed simp

lemma seconds_unat:
  assumes "1 \<le> secs" and "secs \<le> 60"
  shows "unat (of_int secs * 1000 * ms :: u64) = nat secs * 1000000000"
proof -
  have "of_int secs * 1000 * ms = (of_nat (nat secs * 1000000000) :: u64)"
    using assms(1) by (simp add: ms_def)
  moreover have "nat secs * 1000000000 < 18446744073709551616" using assms by simp
  ultimately show ?thesis by (simp only: unat_of_nat_u64)
qed

lemma window_start:
  assumes "1 \<le> dp_seconds opts" and "dp_seconds opts \<le> 60" and "t < 9223372036854775808"
  shows "window_ok opts (t + 100 * ms) (t + 100 * ms + of_int (dp_seconds opts) * 1000 * ms)"
proof -
  note u = seconds_unat [OF assms(1,2)]
  have t: "unat t < 9223372036854775808" using assms(3) by (simp add: word_less_nat_alt)
  have n: "nat (dp_seconds opts) \<le> 60" using assms(2) by simp
  have b: "unat (t + 100 * ms) = unat t + 100000000"
    using t unat_add_u64 [of t "100 * ms"] by (simp add: ms_def)
  then have "unat (t + 100 * ms + of_int (dp_seconds opts) * 1000 * ms) =
      unat (t + 100 * ms) + nat (dp_seconds opts) * 1000000000"
    using t n u unat_add_u64 [of "t + 100 * ms" "of_int (dp_seconds opts) * 1000 * ms"] by simp
  with t n b show ?thesis by (simp add: window_ok_def)
qed

lemma settled_init:
  assumes "workload_init clock abi opts d" and "1 \<le> dp_seconds opts" and "dp_seconds opts \<le> 60"
    and "\<forall>t. clock 0 = Inr t \<longrightarrow> t < 9223372036854775808"
  shows "settled clock opts d"
proof -
  obtain env s where "workload_start clock abi opts env s = Inr d"
    using assms(1) by (auto simp: workload_init_def)
  then obtain g ws t where g: "Graph 32 8 = Inr g" and t: "clock 0 = Inr t"
    and ws: "construct_workers abi opts env s [0..<5 + nat (dp_hog_count opts)] (\<lambda>_. worker_new False 0 0 False s) = Inr ws"
    and d: "d = \<lparr>dw_pc = M_collect 0, dw_graph = g, dw_workers = ws,
       dw_count = 5 + nat (dp_hog_count opts), dw_begin = t + 100 * ms,
       dw_end = t + 100 * ms + of_int (dp_seconds opts) * 1000 * ms,
       dw_next_imu = t + 100 * ms, dw_next_camera = t + 100 * ms, dw_next_control = t + 100 * ms,
       dw_imu_id = 0, dw_camera_id = 0, dw_control_id = 0, dw_usable = 0, dw_stale = 0, dw_missing = 0,
       dw_control_ages = [], dw_burst_job = 0, dw_drained = 0, dw_reads = 1\<rparr>"
    by (auto simp: workload_start_def Let_def split: sum.splits)
  have win: "window_ok opts (t + 100 * ms) (t + 100 * ms + of_int (dp_seconds opts) * 1000 * ms)"
    using assms(2-4) t by (intro window_start) auto
  have fresh: "fresh_worker (ws i)" if "i < 5 + nat (dp_hog_count opts)" for i
    using construct_fresh [OF ws, of i] that by simp
  have w: "fresh_worker (ws 0)" "fresh_worker (ws 1)" "fresh_worker (ws 2)" "fresh_worker (ws 3)"
    using fresh by simp_all
  have good: "\<forall>i < 5 + nat (dp_hog_count opts). worker_good i (ws i)"
    using fresh by (auto simp: worker_good_def fresh_worker_def)
  have e: "g = \<lparr>g_capacity = 32, g_limit = 8, g_inbox = (\<lambda>_. []), g_accounting = (\<lambda>_. counts_zero),
      g_last_sequence = (\<lambda>_. None), g_running = None, g_latest = None, g_next_batch = 1,
      g_next_tick = 1, g_clock_time = 0\<rparr>"
    using g by (simp add: Graph_def)
  have "workload_ok clock opts d"
    unfolding workload_ok_def d
    using win good w Graph_ok [OF g]
    by (simp add: e past_def sensor_ok_def sensor_line_def estimator_ok_def schedule_ok_def
        fresh_worker_def counts_zero_def)
  then show ?thesis by (simp add: settled_def d pc_ok_def)
qed

lemma settled_reach:
  assumes "monotonic clock" and "1 \<le> dp_seconds opts" and "dp_seconds opts \<le> 60"
    and "\<forall>t. clock 0 = Inr t \<longrightarrow> t < 9223372036854775808"
    and "reach (workload_init clock abi opts) (workload_step clock abi pub opts) d"
  shows "settled clock opts d"
  using assms(5)
proof (induction rule: reach.induct)
  case (reach_init d)
  then show ?case using assms(2-4) by (rule settled_init)
next
  case (reach_step d d1)
  then show ?case using settled_step [OF assms(1)] by blast
qed

section \<open>Results\<close>

lemma schedule_done:
  assumes "schedule_ok start fin p ident next" and "window_ok opts start fin" and "fin \<le> next"
    and "1 \<le> dp_seconds opts" and "p * k = 1000000000" and "0 < p"
  shows "unat ident = nat (dp_seconds opts) * k"
proof -
  let ?n = "nat (dp_seconds opts)"
  have s: "unat fin = unat start + ?n * 1000000000" "1 \<le> ?n" using assms(2,4) by (simp_all add: window_ok_def)
  have n: "unat next = unat start + unat ident * p" "next = start \<or> unat next < unat fin + p"
    using assms(1) unfolding schedule_ok_def by blast+
  have f: "unat fin \<le> unat next" using assms(3) by (simp add: word_le_nat_alt)
  have e: "?n * 1000000000 = ?n * k * p" using assms(5) by (metis mult.assoc mult.commute)
  have "?n * k * p \<le> unat ident * p" using s(1) n(1) f unfolding e [symmetric] by linarith
  moreover have "unat ident * p < Suc (?n * k) * p"
    using s n f assms(6) e by auto
  ultimately have "?n * k \<le> unat ident" "unat ident < Suc (?n * k)"
    unfolding mult_le_cancel2 mult_less_cancel2 using assms(6) by blast+
  then show ?thesis by simp
qed

lemma idle_counted: "worker_ok w \<Longrightarrow> idle w \<Longrightarrow> wk_offered w = wk_dropped w + wk_completed w"
  by (simp add: worker_ok_def counted_def idle_def)

lemma report_accounting:
  assumes ok: "workload_ok clock opts d" and fin: "released d" "nothing_pending d" and secs: "1 \<le> dp_seconds opts"
  shows "unat (dw_imu_id d) = nat (dp_seconds opts) * 200" "unat (dw_camera_id d) = nat (dp_seconds opts) * 20"
    "unat (dw_control_id d) = nat (dp_seconds opts) * 100" "g_running (dw_graph d) = None"
    "dw_imu_id d = wk_dropped (dw_workers d 0) + c_dropped (g_accounting (dw_graph d) 0) +
       c_consumed (g_accounting (dw_graph d) 0)"
    "dw_camera_id d = wk_dropped (dw_workers d 1) + c_dropped (g_accounting (dw_graph d) 1) +
       c_consumed (g_accounting (dw_graph d) 1)"
    "dw_control_id d = wk_dropped (dw_workers d 3) + (dw_usable d + dw_stale d + dw_missing d)"
proof -
  have sch: "schedule_ok (dw_begin d) (dw_end d) 5000000 (dw_imu_id d) (dw_next_imu d)"
    "schedule_ok (dw_begin d) (dw_end d) 50000000 (dw_camera_id d) (dw_next_camera d)"
    "schedule_ok (dw_begin d) (dw_end d) 10000000 (dw_control_id d) (dw_next_control d)"
    "window_ok opts (dw_begin d) (dw_end d)"
    using ok by (simp_all add: workload_ok_def)
  have rel: "dw_end d \<le> dw_next_imu d" "dw_end d \<le> dw_next_camera d" "dw_end d \<le> dw_next_control d"
    using fin(1) by (simp_all add: released_def)
  show "unat (dw_imu_id d) = nat (dp_seconds opts) * 200"
    by (rule schedule_done [OF sch(1,4) rel(1) secs]) simp_all
  show "unat (dw_camera_id d) = nat (dp_seconds opts) * 20"
    by (rule schedule_done [OF sch(2,4) rel(2) secs]) simp_all
  show "unat (dw_control_id d) = nat (dp_seconds opts) * 100"
    by (rule schedule_done [OF sch(3,4) rel(3) secs]) simp_all
  have idle: "idle (dw_workers d i)" "worker_ok (dw_workers d i)" if "i < 5" for i
    using fin(2) that workload_okD(3,4) [OF ok] by (auto simp: nothing_pending_def worker_good_def)
  show run: "g_running (dw_graph d) = None"
    using workload_okD(7) [OF ok] idle [of 2] by (simp add: estimator_ok_def)
  have inbox: "vsize (g_inbox (dw_graph d) 0) = 0" "vsize (g_inbox (dw_graph d) 1) = 0"
    using fin(2) by (simp_all add: nothing_pending_def pending_def)
  have "stream_inv (g_clock_time (dw_graph d)) (g_capacity (dw_graph d)) (g_accounting (dw_graph d) 0)
      (g_inbox (dw_graph d) 0) [] Stream_imu"
    "stream_inv (g_clock_time (dw_graph d)) (g_capacity (dw_graph d)) (g_accounting (dw_graph d) 1)
      (g_inbox (dw_graph d) 1) [] Stream_camera"
    using workload_okD(1) [OF ok] run by (simp_all add: graph_ok_def)
  then have acc: "c_offered (g_accounting (dw_graph d) 0) =
      c_dropped (g_accounting (dw_graph d) 0) + c_consumed (g_accounting (dw_graph d) 0)"
    "c_offered (g_accounting (dw_graph d) 1) =
      c_dropped (g_accounting (dw_graph d) 1) + c_consumed (g_accounting (dw_graph d) 1)"
    using inbox by (simp_all add: stream_inv_def)
  have off: "wk_offered (dw_workers d 0) = dw_imu_id d" "wk_offered (dw_workers d 1) = dw_camera_id d"
    "wk_completed (dw_workers d 0) = c_offered (g_accounting (dw_graph d) 0)"
    "wk_completed (dw_workers d 1) = c_offered (g_accounting (dw_graph d) 1)"
    using workload_okD(5,6) [OF ok] by (simp_all add: sensor_ok_def)
  have ctl: "wk_offered (dw_workers d 3) = dw_control_id d"
    "wk_completed (dw_workers d 3) = dw_usable d + dw_stale d + dw_missing d"
    using ok by (simp_all add: workload_ok_def)
  show "dw_imu_id d = wk_dropped (dw_workers d 0) + c_dropped (g_accounting (dw_graph d) 0) +
       c_consumed (g_accounting (dw_graph d) 0)"
    unfolding off(1) [symmetric] using off(3) acc(1) idle_counted [of "dw_workers d 0"] idle [of 0]
    by (simp add: add.assoc)
  show "dw_camera_id d = wk_dropped (dw_workers d 1) + c_dropped (g_accounting (dw_graph d) 1) +
       c_consumed (g_accounting (dw_graph d) 1)"
    unfolding off(2) [symmetric] using off(4) acc(2) idle_counted [of "dw_workers d 1"] idle [of 1]
    by (simp add: add.assoc)
  show "dw_control_id d = wk_dropped (dw_workers d 3) + (dw_usable d + dw_stale d + dw_missing d)"
    unfolding ctl(1) [symmetric] using ctl(2) idle_counted [of "dw_workers d 3"] idle [of 3] by simp
qed

text \<open>The work of the estimator, without wrap-around.\<close>

lemma fold_cost:
  assumes "unat c + 2000000 * length ms1 < 18446744073709551616"
  shows "unat (fold (\<lambda>m c. c + input_cost m) ms1 c) = unat c +
    100000 * length (filter (\<lambda>m. m_stream m = Stream_imu) ms1) +
    2000000 * length (filter (\<lambda>m. m_stream m \<noteq> Stream_imu) ms1)"
  using assms
proof (induction ms1 arbitrary: c)
  case (Cons m ms1)
  have i: "unat (input_cost m) = (if m_stream m = Stream_imu then 100000 else 2000000)"
    by (simp add: input_cost_def ms_def)
  have "unat (c + input_cost m) = unat c + unat (input_cost m)"
    using Cons.prems i by (intro unat_add_u64) (simp split: if_splits)
  with Cons.IH [of "c + input_cost m"] Cons.prems i show ?case by (simp split: if_splits)
qed simp

lemma estimator_cost_exact:
  assumes "length (b_inputs b) \<le> 8"
  shows "unat (estimator_cost opts b) = 300000 +
    100000 * length (filter (\<lambda>m. m_stream m = Stream_imu) (b_inputs b)) +
    2000000 * length (filter (\<lambda>m. m_stream m \<noteq> Stream_imu) (b_inputs b)) +
    (if bursting opts b then 80000000 else 0)"
proof -
  let ?c = "fold (\<lambda>m c. c + input_cost m) (b_inputs b) 300000"
  have c: "unat ?c = 300000 + 100000 * length (filter (\<lambda>m. m_stream m = Stream_imu) (b_inputs b)) +
      2000000 * length (filter (\<lambda>m. m_stream m \<noteq> Stream_imu) (b_inputs b))"
    using fold_cost [of 300000 "b_inputs b"] assms by simp
  have "length (filter (\<lambda>m. m_stream m = Stream_imu) (b_inputs b)) \<le> 8"
    "length (filter (\<lambda>m. m_stream m \<noteq> Stream_imu) (b_inputs b)) \<le> 8"
    using assms by (auto intro: order_trans [OF length_filter_le])
  then have "unat (?c + 80 * ms) = unat ?c + 80000000"
    using c unat_add_u64 [of ?c "80 * ms"] by (simp add: ms_def)
  with c show ?thesis by (simp add: estimator_cost_def Let_def)
qed

lemma stream_total:
  assumes "graph_ok (dw_graph d)" and "worker_ok (dw_workers d i)"
    and "sensor_ok clock n (dw_graph d) i s (dw_workers d i) ident"
    and "i = 0 \<and> s = Stream_imu \<or> i = 1 \<and> s = Stream_camera"
  shows "ident = wk_dropped (dw_workers d i) + vsize (wk_queue (dw_workers d i)) +
    (if wk_busy (dw_workers d i) then 1 else 0) + c_dropped (g_accounting (dw_graph d) i) +
    c_consumed (g_accounting (dw_graph d) i) + vsize (g_inbox (dw_graph d) i) + in_flight (dw_graph d) s"
proof -
  have "c_offered (g_accounting (dw_graph d) i) = c_dropped (g_accounting (dw_graph d) i) +
      c_consumed (g_accounting (dw_graph d) i) + vsize (g_inbox (dw_graph d) i) + in_flight (dw_graph d) s"
    using assms(1,4)
    by (auto simp: graph_ok_def stream_inv_def in_flight_def running_inputs_def split: option.splits)
  moreover have "ident = wk_dropped (dw_workers d i) + c_offered (g_accounting (dw_graph d) i) +
      vsize (wk_queue (dw_workers d i)) + (if wk_busy (dw_workers d i) then 1 else 0)"
    using assms(2,3) by (auto simp: worker_ok_def counted_def sensor_ok_def)
  ultimately show ?thesis by (simp only: ac_simps)
qed

lemma main_step_stuck:
  assumes "monotonic clock" and "workload_ok clock opts d" and "main_step clock abi pub opts d = None"
  shows "(\<exists>e. dw_pc d = M_thrown e) \<or> dw_pc d = M_report \<or>
    (\<exists>i. dw_pc d = M_join i \<and> wk_thread (dw_workers d i) \<noteq> T_ended)"
proof (cases "dw_pc d")
  case M_release
  have False
  proof (cases "clock (dw_reads d)")
    case (Inl e)
    with M_release assms(3) show False by (simp add: main_step_def)
  next
    case (Inr t)
    have "past clock (dw_reads (tick d)) t" using past_read [OF assms(1) Inr] by (simp add: tick_def)
    from release_phase_ok [OF assms(1) workload_tick [OF assms(2)] this]
    have "release_phase clock opts t (tick d) \<noteq> None" by (cases rule: phase_cases) simp_all
    with M_release Inr assms(3) show False by (simp add: main_step_def)
  qed
  then show ?thesis ..
next
  case M_drained
  with assms(3) show ?thesis by (auto simp: main_step_def split: sum.splits)
next
  case (M_join i)
  with assms(3) show ?thesis by (auto simp: main_step_def worker_join_def split: option.splits if_splits)
qed (use assms(3) in \<open>simp_all add: main_step_def\<close>)

section \<open>A concrete start\<close>

fun main_steps ::
  "(nat \<Rightarrow> u64 res) \<Rightarrow> fresh_abi \<Rightarrow> (u64 \<Rightarrow> fresh_task_hint \<Rightarrow> 's \<Rightarrow> int \<times> 's) \<Rightarrow> dep_options \<Rightarrow>
   nat \<Rightarrow> 's workload \<Rightarrow> 's workload option" where
  "main_steps clock abi pub opts 0 d = Some d"
| "main_steps clock abi pub opts (Suc n) d =
     (case main_step clock abi pub opts d of
        None \<Rightarrow> None | Some d1 \<Rightarrow> main_steps clock abi pub opts n d1)"

lemma main_steps_reach:
  assumes "reach (workload_init clock abi opts) (workload_step clock abi pub opts) d"
    and "main_steps clock abi pub opts n d = Some d1"
  shows "reach (workload_init clock abi opts) (workload_step clock abi pub opts) d1"
  using assms
proof (induction n arbitrary: d)
  case (Suc n)
  then obtain d2 where "main_step clock abi pub opts d = Some d2" "main_steps clock abi pub opts n d2 = Some d1"
    by (auto split: option.splits)
  with Suc show ?case by (blast intro: reach_step step_main)
qed simp

definition demo_dep :: dep_options where
  "demo_dep = \<lparr>dp_cpu = 1, dp_housekeeping = 0, dp_seconds = 1, dp_hog_count = 0, dp_pin = ''p'',
     dp_trace_path = [], dp_policy = ''ordinary'', dp_scenario = ''nominal''\<rparr>"

definition demo_clock :: "nat \<Rightarrow> u64 res" where
  "demo_clock n = Inr (if n = 0 then 0 else 100000000)"

definition demo_started :: "(u64 \<Rightarrow> fresh_task_hint option) workload res" where
  "demo_started = workload_start demo_clock demo_abi demo_dep (\<lambda>_. demo_startup) (\<lambda>_. None)"

text \<open>The state after the first releases: one job of each sensor and of control is queued.\<close>

definition demo_released :: "(u64 \<Rightarrow> fresh_task_hint option) workload" where
  "demo_released = the (main_steps demo_clock demo_abi map_write demo_dep 7 (projr demo_started))"

lemma demo_started_ok: "\<not> isl demo_started"
  by code_simp

lemma demo_released_some:
  "\<not> Option.is_none (main_steps demo_clock demo_abi map_write demo_dep 7 (projr demo_started))"
  by code_simp

lemma demo_released_facts:
  "dw_pc demo_released = M_dispatch 100000000 0" "dw_imu_id demo_released = 1"
  "vsize (wk_queue (dw_workers demo_released 0)) = 1" "dw_control_id demo_released = 1"
  by code_simp+

lemma demo_released_reach:
  "reach (workload_init demo_clock demo_abi demo_dep)
     (workload_step demo_clock demo_abi map_write demo_dep) demo_released"
proof (rule main_steps_reach)
  have "demo_started = Inr (projr demo_started)" using demo_started_ok by (cases demo_started) simp_all
  then have "workload_init demo_clock demo_abi demo_dep (projr demo_started)"
    unfolding workload_init_def demo_started_def by blast
  then show "reach (workload_init demo_clock demo_abi demo_dep)
      (workload_step demo_clock demo_abi map_write demo_dep) (projr demo_started)" ..
  show "main_steps demo_clock demo_abi map_write demo_dep 7 (projr demo_started) = Some demo_released"
    using demo_released_some unfolding demo_released_def
    by (cases "main_steps demo_clock demo_abi map_write demo_dep 7 (projr demo_started)") simp_all
qed

lemma demo_clock_ok:
  "monotonic demo_clock" "\<forall>t. demo_clock 0 = Inr t \<longrightarrow> t < 9223372036854775808"
  by (auto simp: monotonic_def demo_clock_def)

lemma dep_check_seconds: "dep_check opts = Inr opts \<Longrightarrow> 1 \<le> dp_seconds opts \<and> dp_seconds opts \<le> 60"
  by (simp add: dep_check_def split: if_splits)

lemma demo_dep_ok: "dep_check demo_dep = Inr demo_dep"
  by (simp add: dep_check_def demo_dep_def CPU_SETSIZE_def)

section \<open>Properties\<close>

text \<open>
  C12: the dependent workload only fails for reasons outside its own logic. For options that
  passed the checks, a monotonic clock and any interleaving with the worker threads, an exception
  that ends the main loop is the stored error of a worker, a failed clock reading, or a refused hint:
  never one of the graph (clock moved backwards, repeated or stale identity, wrong completion owner),
  and no empty batch or empty camera snapshot is dereferenced. And \<open>main\<close> stops making steps only at
  the report, at an exception, or while it waits in \<open>join\<close> for a thread that has not ended: the
  three release loops always return.
\<close>

theorem workload_exceptions:
  assumes "dep_check opts = Inr opts" and "monotonic clock"
    and "\<forall>t. clock 0 = Inr t \<longrightarrow> t < 9223372036854775808"
    and "reach (workload_init clock abi opts) (workload_step clock abi pub opts) d"
  shows "(\<forall>d1 e. main_step clock abi pub opts d = Some d1 \<and> dw_pc d1 = M_thrown e \<longrightarrow>
           (\<exists>i < dw_count d. wk_error (dw_workers d i) = Some e) \<or> (\<exists>n. clock n = Inl e) \<or>
           e = Runtime_error ''hint publication failed'') \<and>
         (main_step clock abi pub opts d = None \<longrightarrow>
           (\<exists>e. dw_pc d = M_thrown e) \<or> dw_pc d = M_report \<or>
           (\<exists>i. dw_pc d = M_join i \<and> wk_thread (dw_workers d i) \<noteq> T_ended))"
proof -
  have s: "settled clock opts d"
    using settled_reach [OF assms(2) _ _ assms(3,4)] dep_check_seconds [OF assms(1)] by blast
  show ?thesis
  proof (cases "\<exists>e. dw_pc d = M_thrown e")
    case True
    then show ?thesis by (auto simp: main_step_def)
  next
    case False
    with s have ok: "workload_ok clock opts d" "pc_ok d" by (auto simp: settled_def)
    have "permitted clock d e" if "main_step clock abi pub opts d = Some d1" "dw_pc d1 = M_thrown e" for d1 e
      using main_step_cases [OF assms(2) ok that(1)] that(2) by (simp add: step_sound_def)
    with main_step_stuck [OF assms(2) ok(1), of abi pub] show ?thesis
      unfolding permitted_def clock_failure_def by blast
  qed
qed

theorem workload_exceptions_witness:
  "dw_pc demo_released = M_dispatch 100000000 0 \<and>
   (\<exists>d1. main_step demo_clock demo_abi map_write demo_dep demo_released = Some d1)"
  using workload_exceptions [OF demo_dep_ok demo_clock_ok demo_released_reach] demo_released_facts(1)
  by (cases "main_step demo_clock demo_abi map_write demo_dep demo_released") simp_all

text \<open>
  C13: end-to-end accounting of the dependent workload. However the threads interleave, at every
  point of the main loop each released IMU or camera sample is in exactly one place: rejected by its
  worker's queue, waiting or running there, dropped by the graph, waiting in the graph, in the running
  batch, or consumed. When the report is printed nothing is in between: exactly 200 IMU, 20 camera and
  100 control releases per second were made, every sample was rejected, dropped or consumed, and every
  control tick was skipped or counted as usable, stale or missing.
\<close>

theorem workload_accounting:
  assumes "dep_check opts = Inr opts" and "monotonic clock"
    and "\<forall>t. clock 0 = Inr t \<longrightarrow> t < 9223372036854775808"
    and "reach (workload_init clock abi opts) (workload_step clock abi pub opts) d"
    and "\<forall>e. dw_pc d \<noteq> M_thrown e"
  shows "dw_imu_id d = wk_dropped (dw_workers d 0) + vsize (wk_queue (dw_workers d 0)) +
           (if wk_busy (dw_workers d 0) then 1 else 0) + c_dropped (g_accounting (dw_graph d) 0) +
           c_consumed (g_accounting (dw_graph d) 0) + vsize (g_inbox (dw_graph d) 0) +
           in_flight (dw_graph d) Stream_imu \<and>
         dw_camera_id d = wk_dropped (dw_workers d 1) + vsize (wk_queue (dw_workers d 1)) +
           (if wk_busy (dw_workers d 1) then 1 else 0) + c_dropped (g_accounting (dw_graph d) 1) +
           c_consumed (g_accounting (dw_graph d) 1) + vsize (g_inbox (dw_graph d) 1) +
           in_flight (dw_graph d) Stream_camera \<and>
         (dw_pc d = M_report \<longrightarrow>
           unat (dw_imu_id d) = nat (dp_seconds opts) * 200 \<and>
           unat (dw_camera_id d) = nat (dp_seconds opts) * 20 \<and>
           unat (dw_control_id d) = nat (dp_seconds opts) * 100 \<and>
           dw_imu_id d = wk_dropped (dw_workers d 0) + c_dropped (g_accounting (dw_graph d) 0) +
             c_consumed (g_accounting (dw_graph d) 0) \<and>
           dw_camera_id d = wk_dropped (dw_workers d 1) + c_dropped (g_accounting (dw_graph d) 1) +
             c_consumed (g_accounting (dw_graph d) 1) \<and>
           dw_control_id d = wk_dropped (dw_workers d 3) + (dw_usable d + dw_stale d + dw_missing d))"
proof -
  have secs: "1 \<le> dp_seconds opts" using dep_check_seconds [OF assms(1)] by simp
  have "settled clock opts d"
    using settled_reach [OF assms(2) _ _ assms(3,4)] dep_check_seconds [OF assms(1)] by blast
  with assms(5) have ok: "workload_ok clock opts d" "pc_ok d" by (auto simp: settled_def)
  have wk: "worker_ok (dw_workers d 0)" "worker_ok (dw_workers d 1)"
    using worker_goodD [OF workload_okD(4) [OF ok(1), of 0]] worker_goodD [OF workload_okD(4) [OF ok(1), of 1]]
      workload_okD(3) [OF ok(1)] by simp_all
  note total = stream_total [OF workload_okD(1) [OF ok(1)] wk(1) workload_okD(5) [OF ok(1)]]
    stream_total [OF workload_okD(1) [OF ok(1)] wk(2) workload_okD(6) [OF ok(1)]]
  have fin: "released d \<and> nothing_pending d" if "dw_pc d = M_report"
    using ok(2) that by (simp add: pc_ok_def)
  show ?thesis
    by (intro conjI impI; (rule total)?)
      (use fin report_accounting [OF ok(1) _ _ secs] in \<open>simp_all\<close>)
qed

theorem workload_accounting_witness:
  "dw_imu_id demo_released = 1 \<and> vsize (wk_queue (dw_workers demo_released 0)) = 1 \<and>
   dw_imu_id demo_released = wk_dropped (dw_workers demo_released 0) +
     vsize (wk_queue (dw_workers demo_released 0)) +
     (if wk_busy (dw_workers demo_released 0) then 1 else 0) +
     c_dropped (g_accounting (dw_graph demo_released) 0) +
     c_consumed (g_accounting (dw_graph demo_released) 0) +
     vsize (g_inbox (dw_graph demo_released) 0) + in_flight (dw_graph demo_released) Stream_imu"
proof -
  have pc: "\<forall>e. dw_pc demo_released \<noteq> M_thrown e" by (simp add: demo_released_facts)
  show ?thesis
    using workload_accounting [OF demo_dep_ok demo_clock_ok demo_released_reach pc] demo_released_facts
    by blast
qed

end
