(* ===== verification/Workload_Report.thy ===== *)
theory Workload_Report
  imports Workload_Results
begin

text \<open>
  The two ends of \<open>main\<close> of \<^verbatim>\<open>src/demo/dependent_workload.cpp\<close>: what is opened before the workers are
  built (lines 199 to 206), and the trace and the report after the loop (lines 302 to 336).
\<close>

section \<open>Opening\<close>

text \<open>The answers: error of the affinity call, whether the trace file opened, result of \<open>freshqos_open\<close>.\<close>

definition workload_open :: "dep_options \<Rightarrow> int \<Rightarrow> bool \<Rightarrow> int \<Rightarrow> unit res" where
  "workload_open opts affinity_error trace_opened open_rc =
     (case pin_cpu affinity_error of
        Inl e \<Rightarrow> Inl e
      | Inr _ \<Rightarrow>
          if dp_trace_path opts \<noteq> [] \<and> \<not> trace_opened then Inl (Runtime_error ''cannot open trace output'')
          else if dp_pin opts \<noteq> [] \<and> open_rc \<noteq> 0 then Inl (Runtime_error ''open hints failed'')
          else Inr ())"

section \<open>The trace\<close>

definition worker_name :: "nat \<Rightarrow> string" where
  "worker_name i =
     (if i = 0 then ''imu_processing'' else if i = 1 then ''camera_processing'' else if i = 2 then ''estimator''
      else if i = 3 then ''control'' else if i = 4 then ''mapping'' else ''hog'' @ show_nat (i - 5))"

text \<open>The rows of all workers in order; the exception if the file did not take them.\<close>

definition write_trace :: "dep_options \<Rightarrow> bool \<Rightarrow> 's workload \<Rightarrow> (string \<times> trace_row) list res" where
  "write_trace opts written d =
     (if dp_trace_path opts = [] then Inr []
      else if \<not> written then Inl (Runtime_error ''trace write failed'')
      else Inr (concat (map (\<lambda>i. map (Pair (worker_name i)) (wk_traces (dw_workers d i))) [0..<dw_count d])))"

section \<open>The report\<close>

record worker_line =
  wl_name :: string
  wl_tid :: u64
  wl_class :: u32
  wl_policy :: int
  wl_priority :: int
  wl_enrollment :: "u64 \<times> u64"
  wl_shutdown :: "u64 \<times> u64"
  wl_offered :: u64
  wl_completed :: u64
  wl_dropped :: u64
  wl_late :: u64
  wl_pending :: u64
  wl_in_flight :: bool
  wl_cpu_us :: u64
  wl_max_start_us :: u64
  wl_max_age_us :: u64

definition worker_line_of :: "nat \<Rightarrow> ('c, 's) worker \<Rightarrow> worker_line" where
  "worker_line_of i w =
     \<lparr>wl_name = worker_name i, wl_tid = and (wk_tid w) 0xffffffff, wl_class = wk_cls w,
      wl_policy = wk_actual_policy w, wl_priority = wk_actual_priority w,
      wl_enrollment = (wk_enrollment_begin w, wk_enrollment_end w),
      wl_shutdown = (wk_shutdown_begin w, wk_shutdown_end w),
      wl_offered = wk_offered w, wl_completed = wk_completed w, wl_dropped = wk_dropped w,
      wl_late = wk_late w, wl_pending = vsize (wk_queue w), wl_in_flight = wk_busy w,
      wl_cpu_us = wk_cpu_time w div 1000, wl_max_start_us = wk_max_start w div 1000,
      wl_max_age_us = wk_max_age w div 1000\<rparr>"

record stream_line =
  sl_offered :: u64
  sl_consumed :: u64
  sl_dropped :: u64
  sl_pending :: u64
  sl_in_flight :: u64

definition stream_line_of :: "graph \<Rightarrow> stream \<Rightarrow> stream_line res" where
  "stream_line_of g s =
     (case counts_of g s of Inl e \<Rightarrow> Inl e | Inr c \<Rightarrow>
     (case pending g s of Inl e \<Rightarrow> Inl e | Inr n \<Rightarrow>
        Inr \<lparr>sl_offered = c_offered c, sl_consumed = c_consumed c, sl_dropped = c_dropped c,
             sl_pending = n, sl_in_flight = in_flight g s\<rparr>))"

record workload_report =
  rr_window_ns :: u64
  rr_drain_ns :: u64
  rr_workers :: "worker_line list"
  rr_imu :: stream_line
  rr_camera :: stream_line
  rr_usable :: u64
  rr_stale :: u64
  rr_missing :: u64
  rr_burst :: "u64 option"
  rr_age_samples :: u64
  rr_age_p99_us :: u64
  rr_age_max_us :: u64

definition workload_report_of :: "dep_options \<Rightarrow> 's workload \<Rightarrow> workload_report res" where
  "workload_report_of opts d =
     (case stream_line_of (dw_graph d) Stream_imu of Inl e \<Rightarrow> Inl e | Inr imu \<Rightarrow>
     (case stream_line_of (dw_graph d) Stream_camera of Inl e \<Rightarrow> Inl e | Inr camera \<Rightarrow>
        Inr \<lparr>rr_window_ns = dw_end d - dw_begin d, rr_drain_ns = dw_drained d - dw_end d,
             rr_workers = map (\<lambda>i. worker_line_of i (dw_workers d i)) [0..<dw_count d],
             rr_imu = imu, rr_camera = camera, rr_usable = dw_usable d, rr_stale = dw_stale d,
             rr_missing = dw_missing d,
             rr_burst = (if dp_scenario opts = ''estimator-burst'' then Some (dw_burst_job d) else None),
             rr_age_samples = vsize (dw_control_ages d), rr_age_p99_us = control_age_p99 (dw_control_ages d),
             rr_age_max_us = (if dw_control_ages d = [] then 0 else last (sort (dw_control_ages d)) div 1000)\<rparr>))"

section \<open>Facts\<close>

text \<open>
  The report of a drained workload never throws and balances line by line: the window is the duration
  asked for, no worker has work left, every offered job of a worker is completed or dropped, and every
  measurement offered to the graph is consumed or dropped.
\<close>

lemma workload_report_balanced:
  assumes ok: "workload_ok clock opts d" and fin: "released d" "nothing_pending d" and secs: "1 \<le> dp_seconds opts"
  obtains r where "workload_report_of opts d = Inr r"
    and "unat (rr_window_ns r) = nat (dp_seconds opts) * 1000000000"
    and "\<forall>l \<in> set (rr_workers r). wl_pending l = 0 \<and> \<not> wl_in_flight l \<and> wl_offered l = wl_dropped l + wl_completed l"
    and "\<forall>l \<in> {rr_imu r, rr_camera r}. sl_pending l = 0 \<and> sl_in_flight l = 0 \<and> sl_offered l = sl_dropped l + sl_consumed l"
proof -
  let ?g = "dw_graph d"
  have run: "g_running ?g = None" using report_accounting [OF ok fin secs] by blast
  have gok: "graph_ok ?g" by (rule workload_okD(1) [OF ok])
  have line: "\<exists>l. stream_line_of ?g s = Inr l \<and> sl_pending l = 0 \<and> sl_in_flight l = 0 \<and>
      sl_offered l = sl_dropped l + sl_consumed l" if "s = Stream_imu \<or> s = Stream_camera" for s
    using that gok run fin(2)
    by (auto simp: stream_line_of_def counts_of_def pending_def index_def in_flight_def nothing_pending_def
        graph_ok_def stream_inv_def)
  obtain imu where imu: "stream_line_of ?g Stream_imu = Inr imu" "sl_pending imu = 0" "sl_in_flight imu = 0"
    "sl_offered imu = sl_dropped imu + sl_consumed imu" using line by blast
  obtain cam where cam: "stream_line_of ?g Stream_camera = Inr cam" "sl_pending cam = 0" "sl_in_flight cam = 0"
    "sl_offered cam = sl_dropped cam + sl_consumed cam" using line by blast
  have win: "unat (dw_end d - dw_begin d) = nat (dp_seconds opts) * 1000000000"
  proof -
    have e: "unat (dw_end d) = unat (dw_begin d) + nat (dp_seconds opts) * 1000000000"
      using ok by (simp add: workload_ok_def window_ok_def)
    then have "dw_begin d \<le> dw_end d" by (simp add: word_le_nat_alt)
    from unat_sub [OF this] e show ?thesis by simp
  qed
  have idle: "idle (dw_workers d i) \<and> wk_offered (dw_workers d i) = wk_dropped (dw_workers d i) + wk_completed (dw_workers d i)"
    if "i < dw_count d" for i
    using that fin(2) idle_counted [of "dw_workers d i"] worker_goodD [OF workload_okD(4) [OF ok that]]
    by (auto simp: nothing_pending_def)
  show ?thesis
    by (rule that) (use imu cam win idle in
      \<open>auto simp: workload_report_of_def worker_line_of_def idle_def vsize_def\<close>)
qed

text \<open>A reached report, that is: after the loop and the joins, without an exception.\<close>

lemma workload_report_reached:
  assumes "monotonic clock" and "1 \<le> dp_seconds opts" and "dp_seconds opts \<le> 60"
    and "\<forall>t. clock 0 = Inr t \<longrightarrow> t < 9223372036854775808"
    and "reach (workload_init clock abi opts) (workload_step clock abi pub opts) d" and "dw_pc d = M_report"
  obtains r where "workload_report_of opts d = Inr r"
    and "unat (rr_window_ns r) = nat (dp_seconds opts) * 1000000000"
    and "\<forall>l \<in> set (rr_workers r). wl_pending l = 0 \<and> \<not> wl_in_flight l \<and> wl_offered l = wl_dropped l + wl_completed l"
proof -
  from settled_reach [OF assms(1-5)] assms(6) have "workload_ok clock opts d" "released d" "nothing_pending d"
    by (auto simp: settled_def pc_ok_def)
  from workload_report_balanced [OF this assms(2)] that show ?thesis by blast
qed

end
