(* ===== verification/Workload_Unwind.thy ===== *)
theory Workload_Unwind
  imports Workload_Report
begin

text \<open>
  How \<open>main\<close> of \<^verbatim>\<open>src/demo/dependent_workload.cpp\<close> leaves the scope of its workers: at its end, or by
  the exception of a constructor, of the clock or of the loop. The workers built so far are then
  destroyed, each destructor is \<open>finish()\<close> and a join, while the threads not yet joined run on.
\<close>

section \<open>Workers built\<close>

text \<open>
  The constructions of \<open>construct_workers\<close> again, with what exists when they end: the workers built,
  in order. A constructor that throws has joined its own thread and leaves no object.
\<close>

fun workers_built ::
  "fresh_abi \<Rightarrow> dep_options \<Rightarrow> (nat \<Rightarrow> 's startup_env) \<Rightarrow> 's \<Rightarrow> nat list \<Rightarrow>
   (nat \<Rightarrow> (completion, 's) worker) \<Rightarrow> nat \<times> (nat \<Rightarrow> (completion, 's) worker)" where
  "workers_built abi opts env s [] ws = (0, ws)"
| "workers_built abi opts env s (i # is) ws =
     (case worker_constructed (worker_startup abi (env i)
             (worker_new (dp_pin opts \<noteq> []) (worker_class abi i) (of_nat i)
               (i < 4 \<and> dp_policy opts = ''fifo'') s)) of
        Some (Inr _, w) \<Rightarrow>
          (case workers_built abi opts env s is (ws(i := w\<lparr>wk_tracing := dp_trace_path opts \<noteq> []\<rparr>)) of
             (n, vs) \<Rightarrow> (Suc n, vs))
      | _ \<Rightarrow> (0, ws))"

section \<open>Destruction\<close>

text \<open>
  Objects of a scope go in the reverse order of their construction: first the vector \<open>hogs\<close>, whose
  elements the library destroys from the front, then mapping, control, estimator, camera and IMU.
\<close>

definition destruction_order :: "nat \<Rightarrow> nat list" where
  "destruction_order n = [5..<n] @ rev [0..<min n 5]"

record 's unwinding =
  un_workers :: "nat \<Rightarrow> (completion, 's) worker"
  un_count :: nat
  un_todo :: "nat list"
  un_joining :: bool

definition unwind_from :: "nat \<Rightarrow> (nat \<Rightarrow> (completion, 's) worker) \<Rightarrow> 's unwinding" where
  "unwind_from n ws = \<lparr>un_workers = ws, un_count = n, un_todo = destruction_order n, un_joining = False\<rparr>"

text \<open>
  A step of \<open>main\<close> in \<open>~Worker()\<close> of the next worker: nothing for a thread already joined; else the
  critical section of \<open>finish\<close>, then the join, which waits until the thread has ended.
\<close>

definition destroy_step ::
  "fresh_abi \<Rightarrow> (u64 \<Rightarrow> fresh_task_hint \<Rightarrow> 's \<Rightarrow> int \<times> 's) \<Rightarrow> 's unwinding \<Rightarrow> 's unwinding option" where
  "destroy_step abi pub u =
     (case un_todo u of
        [] \<Rightarrow> None
      | i # is \<Rightarrow>
          (let w = un_workers u i
           in if un_joining u
              then (case worker_join w of
                      None \<Rightarrow> None
                    | Some v \<Rightarrow> Some (u\<lparr>un_workers := (un_workers u)(i := v), un_todo := is,
                                       un_joining := False\<rparr>))
              else if \<not> wk_joinable w then Some (u\<lparr>un_todo := is\<rparr>)
              else Some (u\<lparr>un_workers := (un_workers u)(i := worker_finish abi pub w),
                          un_joining := True\<rparr>)))"

definition unwind_thread :: "nat \<Rightarrow> 's thread_env \<Rightarrow> 's unwinding \<Rightarrow> 's unwinding option" where
  "unwind_thread i env u =
     (if i < un_count u
      then map_option (\<lambda>w. u\<lparr>un_workers := (un_workers u)(i := w)\<rparr>) (thread_run env (un_workers u i))
      else None)"

text \<open>A step of \<open>main\<close> or of a thread. A spurious wake-up is possible at any time besides.\<close>

inductive unwind_step ::
  "fresh_abi \<Rightarrow> (u64 \<Rightarrow> fresh_task_hint \<Rightarrow> 's \<Rightarrow> int \<times> 's) \<Rightarrow> 's unwinding \<Rightarrow> 's unwinding \<Rightarrow> bool"
  for abi pub where
  unwind_main: "destroy_step abi pub u = Some v \<Longrightarrow> unwind_step abi pub u v"
| unwind_thread: "unwind_thread i env u = Some v \<Longrightarrow> unwind_step abi pub u v"

definition unwind_wake :: "nat \<Rightarrow> 's unwinding \<Rightarrow> 's unwinding" where
  "unwind_wake i u = u\<lparr>un_workers := (un_workers u)(i := spurious_wake (un_workers u i))\<rparr>"

text \<open>A run from \<open>s\<close> with \<open>k\<close> steps of \<open>main\<close> and the threads and \<open>m\<close> spurious wake-ups.\<close>

inductive unwind_run ::
  "fresh_abi \<Rightarrow> (u64 \<Rightarrow> fresh_task_hint \<Rightarrow> 's \<Rightarrow> int \<times> 's) \<Rightarrow> 's unwinding \<Rightarrow> nat \<Rightarrow> nat \<Rightarrow>
   's unwinding \<Rightarrow> bool"
  for abi pub s where
  run_start: "unwind_run abi pub s 0 0 s"
| run_step: "unwind_run abi pub s k m u \<Longrightarrow> unwind_step abi pub u v \<Longrightarrow> unwind_run abi pub s (Suc k) m v"
| run_wake: "unwind_run abi pub s k m u \<Longrightarrow> i < un_count u \<Longrightarrow> unwind_run abi pub s k (Suc m) (unwind_wake i u)"

text \<open>The ways out of the scope, with the number of workers that exist and their states.\<close>

inductive leaves_main ::
  "(nat \<Rightarrow> u64 res) \<Rightarrow> fresh_abi \<Rightarrow> (u64 \<Rightarrow> fresh_task_hint \<Rightarrow> 's \<Rightarrow> int \<times> 's) \<Rightarrow> dep_options \<Rightarrow>
   nat \<Rightarrow> (nat \<Rightarrow> (completion, 's) worker) \<Rightarrow> bool"
  for clock abi pub opts where
  leave_built: "workers_built abi opts env s [0..<5 + nat (dp_hog_count opts)]
      (\<lambda>_. worker_new False 0 0 False s) = (n, ws) \<Longrightarrow> workload_start clock abi opts env s = Inl e \<Longrightarrow>
    leaves_main clock abi pub opts n ws"
| leave_loop: "reach (workload_init clock abi opts) (workload_step clock abi pub opts) d \<Longrightarrow>
    dw_pc d = M_thrown e \<Longrightarrow> leaves_main clock abi pub opts (dw_count d) (dw_workers d)"
| leave_end: "reach (workload_init clock abi opts) (workload_step clock abi pub opts) d \<Longrightarrow>
    dw_pc d = M_report \<Longrightarrow> leaves_main clock abi pub opts (dw_count d) (dw_workers d)"

section \<open>Threads of the workload\<close>

text \<open>What the join relies on: the thread has passed its start, and a joined thread has ended.\<close>

definition thread_ok :: "('c, 's) worker \<Rightarrow> bool" where
  "thread_ok w \<longleftrightarrow> wk_thread w \<noteq> T_start \<and> (wk_joinable w \<or> wk_thread w = T_ended)"

definition same_thread :: "('c, 's) worker \<Rightarrow> ('c, 's) worker \<Rightarrow> bool" where
  "same_thread w v \<longleftrightarrow> wk_thread v = wk_thread w \<and> wk_joinable v = wk_joinable w"

named_theorems thread_kept

lemma same_thread_refl [simp]: "same_thread w w"
  by (simp add: same_thread_def)

lemma same_thread_ok: "same_thread w v \<Longrightarrow> thread_ok w \<Longrightarrow> thread_ok v"
  by (simp add: same_thread_def thread_ok_def)

lemma offer_thread [thread_kept]: "same_thread w (snd (worker_offer j w))"
  by (simp add: same_thread_def worker_offer_def Let_def)

lemma skip_thread [thread_kept]: "same_thread w (worker_skip w)"
  by (simp add: same_thread_def worker_skip_def)

lemma dispatch_thread [thread_kept]: "same_thread w (snd (worker_dispatch pub now w))"
  by (simp add: same_thread_def worker_dispatch_def Let_def split: option.splits list.splits sum.splits prod.splits)

lemma collect_thread [thread_kept]: "same_thread w (snd (worker_collect now w))"
  by (simp add: same_thread_def worker_collect_def Let_def split: option.splits sum.splits)

lemma finish_thread [thread_kept]: "same_thread w (worker_finish abi pub w)"
  by (cases rule: wk_finish_cases [of abi pub w]) (simp_all add: same_thread_def)

lemma finish_stops: "wk_joinable w \<Longrightarrow> wk_stopping (worker_finish abi pub w) \<and> \<not> wk_asleep (worker_finish abi pub w)"
  by (simp add: worker_finish_def Let_def split: prod.splits)

lemma finish_hint:
  assumes "wk_hints (worker_finish abi pub w) \<noteq> wk_hints w"
  shows "\<not> wk_busy w \<and> wk_slot w = None \<and> wk_result w = None \<and> wk_error w = None"
proof (rule ccontr)
  assume "\<not> ?thesis"
  then have "wk_hints (worker_finish abi pub w) = wk_hints w"
    by (simp only: worker_finish_def Let_def) auto
  with assms show False ..
qed

lemma wake_thread [thread_kept]: "same_thread w (spurious_wake w)"
  by (simp add: same_thread_def)

lemma run_thread_ok: "thread_run env w = Some v \<Longrightarrow> thread_ok w \<Longrightarrow> thread_ok v"
  by (erule thread_cases; (rule worker_shutdown_cases [of env w])?)
    (auto simp: thread_ok_def worker_fail_def)

definition same_threads :: "'s workload \<Rightarrow> 's workload \<Rightarrow> bool" where
  "same_threads d d1 \<longleftrightarrow> dw_count d1 = dw_count d \<and>
     (\<forall>i. same_thread (dw_workers d i) (dw_workers d1 i))"

lemma same_threads_refl [simp]: "same_threads d d"
  by (simp add: same_threads_def)

lemma same_threads_trans: "same_threads d d1 \<Longrightarrow> same_threads d1 d2 \<Longrightarrow> same_threads d d2"
  by (simp add: same_threads_def same_thread_def)

text \<open>Data of the loop change no thread, and neither does a change of one worker that keeps its own.\<close>

lemma same_threads_data [thread_kept]:
  "same_threads d (d1\<lparr>dw_graph := g\<rparr>) = same_threads d d1"
  "same_threads d (d1\<lparr>dw_reads := n\<rparr>) = same_threads d d1"
  "same_threads d (d1\<lparr>dw_imu_id := t\<rparr>) = same_threads d d1"
  "same_threads d (d1\<lparr>dw_next_imu := t\<rparr>) = same_threads d d1"
  "same_threads d (d1\<lparr>dw_camera_id := t\<rparr>) = same_threads d d1"
  "same_threads d (d1\<lparr>dw_next_camera := t\<rparr>) = same_threads d d1"
  "same_threads d (d1\<lparr>dw_control_id := t\<rparr>) = same_threads d d1"
  "same_threads d (d1\<lparr>dw_next_control := t\<rparr>) = same_threads d d1"
  "same_threads d (d1\<lparr>dw_burst_job := t\<rparr>) = same_threads d d1"
  "same_threads d (d1\<lparr>dw_pc := pc\<rparr>) = same_threads d d1"
  "same_threads d (d1\<lparr>dw_drained := t\<rparr>) = same_threads d d1"
  "same_threads d (count_control c d1) = same_threads d d1"
  "same_threads d (tick d1) = same_threads d d1"
  by (simp_all add: same_threads_def count_control_def tick_def)

lemma same_threads_at [thread_kept]:
  assumes "same_threads d d1" and "\<And>w. same_thread w (f w)"
  shows "same_threads d (at_worker i f d1)"
  using assms by (auto simp: same_threads_def same_thread_def at_worker_def)

lemma same_threads_put:
  assumes "same_thread (dw_workers d i) w"
  shows "same_threads d (at_worker i (\<lambda>_. w) (tick d))"
  using assms by (simp add: same_threads_def at_worker_def tick_def)

lemma completion_threads: "same_threads d (snd (run_completion clock c d))"
  by (simp add: run_completion_def Let_def thread_kept
      split: completion.splits sum.splits prod.splits option.splits)

lemma collect_threads: "same_threads d (snd (collect_worker clock i d))"
proof -
  obtain r w where w: "worker_collect (clock (dw_reads d)) (dw_workers d i) = (r, w)" by fastforce
  then have "same_thread (dw_workers d i) w"
    using collect_thread [of "dw_workers d i" "clock (dw_reads d)"] by simp
  then have "same_threads d (at_worker i (\<lambda>_. w) (tick d))" by (rule same_threads_put)
  with w completion_threads same_threads_trans show ?thesis
    by (fastforce simp: collect_worker_def split: sum.splits option.splits)
qed

lemma dispatch_threads: "same_threads d (snd (dispatch_worker clock pub i d))"
  using dispatch_thread [of "dw_workers d i" pub "clock (dw_reads d)"]
  by (auto simp: dispatch_worker_def split: prod.splits intro: same_threads_put)

lemma imu_threads: "same_threads d (snd (imu_release d))"
  by (simp add: imu_release_def Let_def thread_kept)

lemma camera_threads: "same_threads d (snd (camera_release d))"
  by (simp add: camera_release_def Let_def thread_kept)

lemma control_threads: "same_threads d (snd (control_release clock d))"
  by (simp add: control_release_def Let_def thread_kept split: sum.splits prod.splits)

lemma estimate_threads: "same_threads d (snd (estimate clock opts d))"
  by (simp add: estimate_def thread_kept split: sum.splits prod.splits option.splits list.splits)

lemma hogs_threads: "same_threads d (fold (refill_hog t) is d)"
proof (induction "is" arbitrary: d)
  case (Cons i "is")
  have "same_threads d (refill_hog t i d)"
    by (simp add: refill_hog_def Let_def thread_kept)
  with Cons.IH [of "refill_hog t i d"] same_threads_trans show ?case by fastforce
qed simp

lemma loop_threads:
  assumes "\<And>d. same_threads d (snd (body d))" and "release_loop next body fin t d = Some p"
  shows "same_threads d (snd p)"
proof -
  have "(\<forall>d. same_threads d (snd (body d))) \<longrightarrow> same_threads d (snd p)"
  proof (rule release_loop.raw_induct [where P =
      "\<lambda>next body fin t d p. (\<forall>d. same_threads d (snd (body d))) \<longrightarrow> same_threads d (snd p)", OF _ assms(2)],
      rule impI)
    fix loop and "next" :: "'a workload \<Rightarrow> u64" and body :: "'a workload \<Rightarrow> unit res \<times> 'a workload"
      and fin t :: u64 and d :: "'a workload" and p
    assume IH: "\<And>next body fin t d p. loop next body fin t d = Some p \<Longrightarrow>
        (\<forall>d. same_threads d (snd (body d))) \<longrightarrow> same_threads d (snd p)"
      and p: "(if next d < fin \<and> next d \<le> t
         then case body d of (Inl e, s1) \<Rightarrow> Some (Inl e, s1) | (Inr x, s1) \<Rightarrow> loop next body fin t s1
         else Some (Inr (), d)) = Some p"
      and body: "\<forall>d. same_threads d (snd (body d))"
    obtain r d1 where b: "body d = (r, d1)" by fastforce
    then have d1: "same_threads d d1" using body by (metis snd_conv)
    show "same_threads d (snd p)"
    proof (cases "next d < fin \<and> next d \<le> t \<and> \<not> isl r")
      case True
      then obtain u where "r = Inr u" by (cases r) auto
      with True b p have "loop next body fin t d1 = Some p" by simp
      with IH body d1 show ?thesis by (blast intro: same_threads_trans)
    next
      case False
      with b p have "p = (r, d1) \<or> p = (Inr (), d)" by (cases r) (auto split: if_splits)
      with d1 show ?thesis by auto
    qed
  qed
  with assms(1) show ?thesis by blast
qed

lemma and_then_threads:
  assumes "and_then p f = Some q" and "\<And>q. p = Some q \<Longrightarrow> same_threads d (snd q)"
    and "\<And>d1 q. f d1 = Some q \<Longrightarrow> same_threads d1 (snd q)"
  shows "same_threads d (snd q)"
proof -
  obtain r d1 where p: "p = Some (r, d1)" using assms(1) by (cases p) (auto simp: and_then_def)
  have d1: "same_threads d d1" using assms(2) [OF p] by simp
  show ?thesis
  proof (cases r)
    case (Inl e)
    with assms(1) p d1 show ?thesis by (auto simp: and_then_def)
  next
    case (Inr u)
    with assms(1) p have "f d1 = Some q" by (simp add: and_then_def)
    with assms(3) d1 show ?thesis by (blast intro: same_threads_trans)
  qed
qed

lemma release_threads:
  assumes "release_phase clock opts t d = Some q"
  shows "same_threads d (snd q)"
proof -
  define d0 where "d0 = (if dw_begin d \<le> t \<and> t < dw_end d then fold (refill_hog t) [5..<dw_count d] d else d)"
  note phase = assms [unfolded release_phase_def Let_def, folded d0_def]
  have "same_threads d0 (snd q)"
    by (rule and_then_threads [OF phase loop_threads [OF imu_threads]], assumption,
        erule and_then_threads [OF _ loop_threads [OF camera_threads]], assumption,
        erule and_then_threads [OF _ loop_threads [OF control_threads]], assumption)
      (auto simp: estimate_threads)
  moreover have "same_threads d d0" by (simp add: d0_def hogs_threads)
  ultimately show ?thesis by (blast intro: same_threads_trans)
qed

section \<open>Threads along the run\<close>

definition threads_ok :: "'s workload \<Rightarrow> bool" where
  "threads_ok d \<longleftrightarrow> (\<forall>i < dw_count d. thread_ok (dw_workers d i))"

lemma threads_ok_same: "threads_ok d \<Longrightarrow> same_threads d d1 \<Longrightarrow> threads_ok d1"
  by (auto simp: threads_ok_def same_threads_def intro: same_thread_ok)

lemma threads_ok_pc [simp]: "threads_ok (d\<lparr>dw_pc := pc\<rparr>) = threads_ok d"
  by (simp add: threads_ok_def)

lemma goto_threads: "threads_ok d \<Longrightarrow> same_threads d (snd p) \<Longrightarrow> threads_ok (goto_next pc p)"
  by (auto simp: goto_next_def intro: threads_ok_same split: prod.splits sum.splits)

lemma threads_ok_put: "threads_ok d \<Longrightarrow> thread_ok w \<Longrightarrow> threads_ok (at_worker i (\<lambda>_. w) d)"
  by (simp add: threads_ok_def at_worker_def)

lemma main_threads:
  assumes "threads_ok d" and "main_step clock abi pub opts d = Some d1"
  shows "threads_ok d1"
proof (cases "dw_pc d")
  case (M_collect i)
  with assms goto_threads [OF assms(1) collect_threads] show ?thesis by (auto simp: main_step_def)
next
  case M_release
  show ?thesis
  proof (cases "clock (dw_reads d)")
    case (Inl e)
    with M_release assms show ?thesis by (auto simp: main_step_def tick_def threads_ok_def)
  next
    case (Inr t)
    with M_release assms(2) obtain q where "release_phase clock opts t (tick d) = Some q"
      and d1: "d1 = goto_next (M_dispatch t 0) q" by (auto simp: main_step_def)
    with release_threads have "same_threads d (snd q)"
      using same_threads_trans [of d "tick d"] by (fastforce simp: thread_kept)
    with goto_threads [OF assms(1)] d1 show ?thesis by simp
  qed
next
  case (M_dispatch t i)
  with assms goto_threads [OF assms(1) dispatch_threads] show ?thesis by (auto simp: main_step_def)
next
  case M_drained
  with assms show ?thesis by (auto simp: main_step_def tick_def threads_ok_def split: sum.splits)
next
  case (M_finish i)
  have "same_threads d (at_worker i (worker_finish abi pub) d)" by (simp add: thread_kept)
  from threads_ok_same [OF assms(1) this] M_finish assms show ?thesis by (auto simp: main_step_def)
next
  case (M_join i)
  with assms obtain w where "worker_join (dw_workers d i) = Some w"
    and d1: "d1 = (at_worker i (\<lambda>_. w) d)\<lparr>dw_pc := M_finish (Suc i)\<rparr>"
    by (auto simp: main_step_def split: option.splits)
  then have "thread_ok w" by (auto simp: worker_join_def thread_ok_def split: if_splits)
  with assms(1) d1 threads_ok_put show ?thesis by simp
next
  case (M_check i)
  with assms goto_threads [OF assms(1), of "(_, d)"] show ?thesis by (auto simp: main_step_def)
qed (use assms in \<open>auto simp: main_step_def\<close>)

lemma thread_threads:
  assumes "threads_ok d" and "thread_step_at i env d = Some d1"
  shows "threads_ok d1"
proof -
  obtain w where "i < dw_count d" and "thread_run env (dw_workers d i) = Some w"
    and d1: "d1 = at_worker i (\<lambda>_. w) d"
    using assms(2) by (auto simp: thread_step_at_def split: if_splits)
  with assms(1) have "thread_ok w" by (auto simp: threads_ok_def intro: run_thread_ok)
  with assms(1) d1 threads_ok_put show ?thesis by simp
qed

lemma enroll_thread: "same_thread w (snd (worker_enroll abi env w))"
  by (simp add: worker_enroll_def Let_def same_thread_def split: prod.splits sum.splits)

lemma wake_threads: "threads_ok d \<Longrightarrow> threads_ok (at_worker i spurious_wake d)"
  by (erule threads_ok_same) (rule same_threads_at [OF same_threads_refl wake_thread])

lemma constructed_thread:
  fixes w :: "('c, 's) worker"
  assumes "worker_constructed (worker_startup abi env (worker_new qos cls stage fifo s)) = Some (Inr (), w)"
  shows "thread_ok w"
proof -
  let ?n = "(worker_new qos cls stage fifo s)\<lparr>wk_tid := su_tid env\<rparr> :: ('c, 's) worker"
  obtain r v where e: "worker_enroll abi env ?n = (r, v)" by fastforce
  have "wk_joinable ?n" by (simp add: worker_new_def)
  then have v: "wk_joinable v" using enroll_thread [of ?n abi env] e by (simp add: same_thread_def)
  have "wk_error w = None" and "w = worker_startup abi env (worker_new qos cls stage fifo s)"
    using assms by (auto simp: worker_constructed_def split: if_splits option.splits)
  with e v show ?thesis
    by (auto simp: worker_startup_def worker_fail_def thread_ok_def Let_def
        split: sum.splits option.splits if_splits)
qed

lemma built_threads:
  fixes ws vs :: "nat \<Rightarrow> (completion, 's) worker"
  assumes "workers_built abi opts env s is ws = (n, vs)" and "distinct is"
  shows "n \<le> length is \<and> (\<forall>i \<in> set (take n is). thread_ok (vs i)) \<and> (\<forall>i. i \<notin> set is \<longrightarrow> vs i = ws i)"
  using assms
proof (induction "is" arbitrary: ws n vs)
  case (Cons i "is")
  define p :: "(unit res \<times> (completion, 's) worker) option" where "p = worker_constructed (worker_startup abi (env i)
      (worker_new (dp_pin opts \<noteq> []) (worker_class abi i) (of_nat i) (i < 4 \<and> dp_policy opts = ''fifo'') s))"
  note built = Cons.prems(1) [simplified, folded p_def]
  show ?case
  proof (cases "\<exists>w. p = Some (Inr (), w)")
    case True
    then obtain w where p: "p = Some (Inr (), w)" by blast
    let ?w = "w\<lparr>wk_tracing := dp_trace_path opts \<noteq> []\<rparr>"
    obtain m us where m: "workers_built abi opts env s is (ws(i := ?w)) = (m, us)" by fastforce
    with built p have n: "n = Suc m" "vs = us" by simp_all
    have w: "thread_ok ?w" using constructed_thread [OF p [unfolded p_def]] by (simp add: thread_ok_def)
    have "i \<notin> set is" "distinct is" using Cons.prems(2) by simp_all
    with Cons.IH [OF m] n w show ?thesis by simp
  next
    case False
    then have "(n, vs) = (0, ws)" using built by (auto split: option.splits prod.splits sum.splits)
    then show ?thesis by simp
  qed
qed simp

text \<open>All workers are built exactly when no constructor throws.\<close>

lemma construct_built:
  assumes "construct_workers abi opts env s is ws = Inr vs"
  shows "workers_built abi opts env s is ws = (length is, vs)"
  using assms
proof (induction "is" arbitrary: ws)
  case (Cons i "is")
  then show ?case by (auto split: option.splits sum.splits prod.splits)
qed simp

lemma built_construct:
  assumes "workers_built abi opts env s is ws = (length is, vs)"
  shows "construct_workers abi opts env s is ws = Inr vs"
  using assms
proof (induction "is" arbitrary: ws)
  case (Cons i "is")
  then show ?case by (auto split: option.splits sum.splits prod.splits)
qed simp

lemma leaves_threads:
  assumes "leaves_main clock abi pub opts n ws" and "i < n"
  shows "thread_ok (ws i)"
proof -
  have built: "\<forall>i < m. thread_ok (vs i)"
    if "workers_built abi opts env s [0..<k] us = (m, vs)" for env and us :: "nat \<Rightarrow> (completion, 'a) worker" and k m s vs
    using built_threads [OF that] by (auto simp: take_upt)
  have run: "threads_ok d" if "reach (workload_init clock abi opts) (workload_step clock abi pub opts) d"
    for d :: "'a workload"
    using that
  proof (induction rule: reach.induct)
    case (reach_init d)
    then obtain env s where "workload_start clock abi opts env s = Inr d" by (auto simp: workload_init_def)
    then obtain ws where ws: "construct_workers abi opts env s [0..<5 + nat (dp_hog_count opts)]
        (\<lambda>_. worker_new False 0 0 False s) = Inr ws" and d: "dw_workers d = ws" "dw_count d = 5 + nat (dp_hog_count opts)"
      by (auto simp: workload_start_def Let_def split: sum.splits)
    with built [OF construct_built [OF ws, simplified]] show ?case by (simp add: threads_ok_def)
  next
    case (reach_step d d1)
    from reach_step.hyps(2) show ?case
      by cases (use reach_step.IH main_threads thread_threads wake_threads in blast)+
  qed
  from assms(1) show ?thesis
  proof cases
    case (leave_built env s e)
    from built [OF leave_built(1)] assms(2) show ?thesis by blast
  qed (use assms(2) run in \<open>simp_all add: threads_ok_def\<close>)
qed

section \<open>Progress and termination\<close>

text \<open>
  Nothing hands over a job any more, so a thread has at most five steps left: the job it runs, one
  more in its slot, a test of the predicate after a wake-up, and the end. The steps of \<open>main\<close> weigh more,
  since \<open>finish\<close> wakes the thread.
\<close>

definition thread_steps :: "('c, 's) worker \<Rightarrow> nat" where
  "thread_steps w =
     (case wk_thread w of
        T_start \<Rightarrow> 0
      | T_wait \<Rightarrow> (if wk_asleep w then 1 else 2) + (if wk_slot w = None then 0 else 2)
      | T_exec j \<Rightarrow> 3 + (if wk_slot w = None then 0 else 2)
      | T_ended \<Rightarrow> 0)"

definition steps_left :: "'s unwinding \<Rightarrow> nat" where
  "steps_left u = 4 * length (un_todo u) - (if un_joining u then 3 else 0) +
     (\<Sum>i < un_count u. thread_steps (un_workers u i))"

lemma thread_steps_bound: "thread_steps w \<le> 5"
  by (simp add: thread_steps_def split: thread_pc.splits)

lemma run_steps_less: "thread_run env w = Some v \<Longrightarrow> thread_steps v < thread_steps w"
  by (erule thread_cases; (rule worker_shutdown_cases [of env w])?)
    (auto simp: thread_steps_def worker_fail_def)

lemma wake_steps: "thread_steps (spurious_wake w) \<le> Suc (thread_steps w)"
  by (simp add: thread_steps_def split: thread_pc.splits)

lemma finish_steps: "thread_steps (worker_finish abi pub w) \<le> Suc (thread_steps w)"
  by (cases rule: wk_finish_cases [of abi pub w]) (simp_all add: thread_steps_def split: thread_pc.splits)

lemma join_steps: "worker_join w = Some v \<Longrightarrow> thread_steps v = thread_steps w"
  by (auto simp: worker_join_def thread_steps_def split: if_splits)

lemma run_keeps: "thread_run env w = Some v \<Longrightarrow> wk_stopping v = wk_stopping w \<and> wk_joinable v = wk_joinable w \<and>
    (wk_stopping w \<and> \<not> wk_asleep w \<longrightarrow> \<not> wk_asleep v)"
  by (erule thread_cases; (rule worker_shutdown_cases [of env w])?) (auto simp: worker_fail_def)

lemma sum_update:
  fixes f :: "'a \<Rightarrow> nat" and g :: "nat \<Rightarrow> 'a"
  assumes "i < n"
  shows "(\<Sum>k < n. f ((g(i := w)) k)) + f (g i) = (\<Sum>k < n. f (g k)) + f w"
proof -
  have split: "(\<Sum>k < n. h k) = h i + (\<Sum>k \<in> {..<n} - {i}. h k)" for h :: "nat \<Rightarrow> nat"
    by (rule sum.remove) (use assms in auto)
  have "(\<Sum>k \<in> {..<n} - {i}. f ((g(i := w)) k)) = (\<Sum>k \<in> {..<n} - {i}. f (g k))"
    by (rule sum.cong) auto
  with split [of "\<lambda>k. f ((g(i := w)) k)"] split [of "\<lambda>k. f (g k)"] show ?thesis by simp
qed

lemma order_facts:
  "length (destruction_order n) = n" "set (destruction_order n) = {..<n}" "distinct (destruction_order n)"
  by (auto simp: destruction_order_def)

text \<open>
  The next worker is stopped and notified while its join is awaited; a worker that is done with has no
  joinable thread.
\<close>

definition unwind_ok :: "'s unwinding \<Rightarrow> bool" where
  "unwind_ok u \<longleftrightarrow> (\<forall>i < un_count u. thread_ok (un_workers u i)) \<and>
     set (un_todo u) \<subseteq> {..<un_count u} \<and> distinct (un_todo u) \<and>
     (un_joining u \<longrightarrow> un_todo u \<noteq> [] \<and> wk_stopping (un_workers u (hd (un_todo u))) \<and>
        \<not> wk_asleep (un_workers u (hd (un_todo u)))) \<and>
     (\<forall>i < un_count u. i \<notin> set (un_todo u) \<longrightarrow> \<not> wk_joinable (un_workers u i))"

lemma destroy_cases:
  assumes "destroy_step abi pub u = Some v"
  obtains (joined) i "is" w where "un_todo u = i # is" "un_joining u" "worker_join (un_workers u i) = Some w"
      "v = u\<lparr>un_workers := (un_workers u)(i := w), un_todo := is, un_joining := False\<rparr>"
  | (gone) i "is" where "un_todo u = i # is" "\<not> un_joining u" "\<not> wk_joinable (un_workers u i)"
      "v = u\<lparr>un_todo := is\<rparr>"
  | (finish) i "is" where "un_todo u = i # is" "\<not> un_joining u" "wk_joinable (un_workers u i)"
      "v = u\<lparr>un_workers := (un_workers u)(i := worker_finish abi pub (un_workers u i)), un_joining := True\<rparr>"
  using assms by (auto simp: destroy_step_def Let_def split: list.splits if_splits option.splits)

lemma unwind_step_ok:
  assumes "unwind_ok u" and "unwind_step abi pub u v"
  shows "unwind_ok v \<and> un_count v = un_count u \<and> steps_left v < steps_left u"
  using assms(2)
proof cases
  case unwind_main
  then show ?thesis
  proof (cases rule: destroy_cases)
    case (joined i "is" w)
    then have "thread_ok w" "\<not> wk_joinable w" "i < un_count u"
      using assms(1) by (auto simp: worker_join_def unwind_ok_def thread_ok_def split: if_splits)
    with joined assms(1) sum_update [of i "un_count u" thread_steps "un_workers u" w] join_steps [OF joined(3)]
    show ?thesis by (auto simp: unwind_ok_def steps_left_def)
  next
    case (gone i "is")
    with assms(1) show ?thesis by (auto simp: unwind_ok_def steps_left_def)
  next
    case (finish i "is")
    let ?w = "worker_finish abi pub (un_workers u i)"
    have "thread_ok ?w" "i < un_count u" "wk_stopping ?w" "\<not> wk_asleep ?w"
      using assms(1) finish finish_thread [of "un_workers u i" abi pub] finish_stops [OF finish(3)]
      by (auto simp: unwind_ok_def intro: same_thread_ok)
    with finish assms(1) sum_update [of i "un_count u" thread_steps "un_workers u" ?w]
      finish_steps [of abi pub "un_workers u i"]
    show ?thesis by (auto simp: unwind_ok_def steps_left_def)
  qed
next
  case (unwind_thread i env)
  then obtain w where i: "i < un_count u" and w: "thread_run env (un_workers u i) = Some w"
    and v: "v = u\<lparr>un_workers := (un_workers u)(i := w)\<rparr>"
    by (auto simp: unwind_thread_def split: if_splits)
  have "thread_ok w" using run_thread_ok [OF w] assms(1) i by (simp add: unwind_ok_def)
  with assms(1) i v run_keeps [OF w] run_steps_less [OF w]
    sum_update [of i "un_count u" thread_steps "un_workers u" w]
  show ?thesis by (auto simp: unwind_ok_def steps_left_def)
qed

lemma unwind_wake_ok:
  assumes "unwind_ok u" and "i < un_count u"
  shows "unwind_ok (unwind_wake i u) \<and> un_count (unwind_wake i u) = un_count u \<and>
    steps_left (unwind_wake i u) \<le> Suc (steps_left u)"
  using assms wake_steps [of "un_workers u i"] same_thread_ok [OF wake_thread, of "un_workers u i"]
    sum_update [of i "un_count u" thread_steps "un_workers u" "spurious_wake (un_workers u i)"]
  by (auto simp: unwind_wake_def unwind_ok_def steps_left_def)

lemma unwind_start_ok:
  assumes "leaves_main clock abi pub opts n ws"
  shows "unwind_ok (unwind_from n ws)" and "steps_left (unwind_from n ws) \<le> 9 * n"
proof -
  show "unwind_ok (unwind_from n ws)"
    using leaves_threads [OF assms] by (simp add: unwind_ok_def unwind_from_def order_facts)
  have "(\<Sum>i < n. thread_steps (ws i)) \<le> (\<Sum>i < n. 5)"
    by (rule sum_mono) (simp add: thread_steps_bound)
  then show "steps_left (unwind_from n ws) \<le> 9 * n"
    by (simp add: steps_left_def unwind_from_def order_facts)
qed

lemma unwind_run_ok:
  assumes "unwind_run abi pub s k m u" and "unwind_ok s"
  shows "unwind_ok u \<and> un_count u = un_count s \<and> k + steps_left u \<le> steps_left s + m"
  using assms(1)
proof (induction rule: unwind_run.induct)
  case (run_step k m u v)
  with unwind_step_ok [of u abi pub v] show ?case by auto
next
  case (run_wake k m u i)
  with unwind_wake_ok [of u i] show ?case by auto
qed (use assms(2) in simp)

text \<open>Where \<open>main\<close> waits: in the join of a thread that can end, or still has work to do.\<close>

lemma unwind_waits:
  assumes "unwind_ok u" and "destroy_step abi pub u = None" and "un_todo u = i # is"
  shows "wk_stopping (un_workers u i)" and "\<not> wk_asleep (un_workers u i)"
    and "wk_thread (un_workers u i) = T_wait \<or> (\<exists>j. wk_thread (un_workers u i) = T_exec j)"
  using assms by (cases "wk_thread (un_workers u i)";
      auto simp: destroy_step_def worker_join_def unwind_ok_def thread_ok_def Let_def split: if_splits option.splits)+

lemma stopping_ends:
  assumes "wk_thread w = T_wait" and "wk_stopping w" and "\<not> wk_asleep w"
  shows "\<exists>v. thread_run env w = Some v \<and> wk_thread v = T_ended"
  by (cases rule: worker_shutdown_cases [of env w]) (use assms in \<open>simp_all add: thread_run_def worker_fail_def\<close>)

lemma running_waits:
  assumes "wk_thread w = T_exec j" and "thread_run env w = None"
  shows "\<exists>before. te_before env = Inr before \<and> burn before (j_work j) (te_readings env) = None"
  using assms by (auto simp: thread_run_def split: sum.splits option.splits)

section \<open>A concrete exit\<close>

datatype 's unwind_event = U_main | U_thread nat "'s thread_env" | U_wake nat

fun unwind_events ::
  "fresh_abi \<Rightarrow> (u64 \<Rightarrow> fresh_task_hint \<Rightarrow> 's \<Rightarrow> int \<times> 's) \<Rightarrow> 's unwind_event list \<Rightarrow>
   's unwinding \<Rightarrow> 's unwinding option" where
  "unwind_events abi pub [] u = Some u"
| "unwind_events abi pub (U_main # es) u =
     (case destroy_step abi pub u of None \<Rightarrow> None | Some v \<Rightarrow> unwind_events abi pub es v)"
| "unwind_events abi pub (U_thread i env # es) u =
     (case unwind_thread i env u of None \<Rightarrow> None | Some v \<Rightarrow> unwind_events abi pub es v)"
| "unwind_events abi pub (U_wake i # es) u =
     (if i < un_count u then unwind_events abi pub es (unwind_wake i u) else None)"

definition wakes :: "'s unwind_event list \<Rightarrow> nat" where
  "wakes es = length (filter (\<lambda>e. case e of U_wake _ \<Rightarrow> True | _ \<Rightarrow> False) es)"

lemma unwind_events_run:
  assumes "unwind_run abi pub s k m u" and "unwind_events abi pub es u = Some v"
  shows "unwind_run abi pub s (k + (length es - wakes es)) (m + wakes es) v"
  using assms
proof (induction es arbitrary: k m u)
  case Nil
  then show ?case by (simp add: wakes_def)
next
  case (Cons e es)
  have w: "wakes es \<le> length es" by (simp add: wakes_def)
  show ?case
  proof (cases e)
    case U_main
    then obtain t where "destroy_step abi pub u = Some t" and t: "unwind_events abi pub es t = Some v"
      using Cons.prems(2) by (auto split: option.splits)
    then have "unwind_run abi pub s (Suc k) m t" using Cons.prems(1) by (blast intro: run_step unwind_main)
    from Cons.IH [OF this t] U_main w show ?thesis by (simp add: wakes_def Suc_diff_le)
  next
    case (U_thread i env)
    then obtain t where "unwind_thread i env u = Some t" and t: "unwind_events abi pub es t = Some v"
      using Cons.prems(2) by (auto split: option.splits)
    then have "unwind_run abi pub s (Suc k) m t"
      using Cons.prems(1) by (blast intro: run_step unwind_step.unwind_thread)
    from Cons.IH [OF this t] U_thread w show ?thesis by (simp add: wakes_def Suc_diff_le)
  next
    case (U_wake i)
    then have "i < un_count u" and t: "unwind_events abi pub es (unwind_wake i u) = Some v"
      using Cons.prems(2) by (auto split: if_splits)
    then have "unwind_run abi pub s k (Suc m) (unwind_wake i u)" using Cons.prems(1) by (blast intro: run_wake)
    from Cons.IH [OF this t] U_wake show ?thesis by (simp add: wakes_def)
  qed
qed

text \<open>The clock fails while the first IMU job is dispatched: its hint is shown, the slot is set.\<close>

definition failing_clock :: "nat \<Rightarrow> u64 res" where
  "failing_clock n = (if n = 9 then Inl (Runtime_error ''clock_gettime failed'') else demo_clock n)"

definition failing_thrown :: "(u64 \<Rightarrow> fresh_task_hint option) workload" where
  "failing_thrown = the (main_steps failing_clock demo_abi map_write demo_dep 8 (projr demo_started))"

lemma failing_thrown_facts:
  "\<not> Option.is_none (main_steps failing_clock demo_abi map_write demo_dep 8 (projr demo_started))"
  "dw_pc failing_thrown = M_thrown (Runtime_error ''clock_gettime failed'')" "dw_count failing_thrown = 5"
  "\<not> wk_busy (dw_workers failing_thrown 0)" "\<not> isl (workload_start failing_clock demo_abi demo_dep (\<lambda>_. demo_startup) (\<lambda>_. None))"
  by code_simp+

lemma failing_thrown_reach:
  "reach (workload_init failing_clock demo_abi demo_dep)
     (workload_step failing_clock demo_abi map_write demo_dep) failing_thrown"
proof (rule main_steps_reach)
  have "workload_start failing_clock demo_abi demo_dep (\<lambda>_. demo_startup) (\<lambda>_. None) = demo_started"
    by (simp only: demo_started_def workload_start_def failing_clock_def) simp
  with demo_started_ok have "workload_init failing_clock demo_abi demo_dep (projr demo_started)"
    unfolding workload_init_def by (metis sum.collapse(2))
  then show "reach (workload_init failing_clock demo_abi demo_dep)
      (workload_step failing_clock demo_abi map_write demo_dep) (projr demo_started)" ..
  show "main_steps failing_clock demo_abi map_write demo_dep 8 (projr demo_started) = Some failing_thrown"
    using failing_thrown_facts(1) unfolding failing_thrown_def
    by (cases "main_steps failing_clock demo_abi map_write demo_dep 8 (projr demo_started)") simp_all
qed

lemma failing_leaves: "leaves_main failing_clock demo_abi map_write demo_dep 5 (dw_workers failing_thrown)"
  using leave_loop [OF failing_thrown_reach failing_thrown_facts(2)] by (simp add: failing_thrown_facts(3))

definition destroyed :: "nat \<Rightarrow> (u64 \<Rightarrow> fresh_task_hint option) unwind_event list" where
  "destroyed i = [U_main, U_thread i Worker.demo_thread, U_main]"

definition failing_run :: "(u64 \<Rightarrow> fresh_task_hint option) unwind_event list" where
  "failing_run = concat (map destroyed (rev [0..<5]))"

definition failing_left :: "(u64 \<Rightarrow> fresh_task_hint option) unwinding" where
  "failing_left = the (unwind_events demo_abi map_write failing_run (unwind_from 5 (dw_workers failing_thrown)))"

lemma failing_left_facts:
  "\<not> Option.is_none (unwind_events demo_abi map_write failing_run (unwind_from 5 (dw_workers failing_thrown)))"
  "un_todo failing_left = []" "length failing_run = 15" "wakes failing_run = 0"
  by code_simp+

lemma failing_left_run:
  "unwind_run demo_abi map_write (unwind_from 5 (dw_workers failing_thrown)) 15 0 failing_left"
  using unwind_events_run [OF run_start the_some [OF failing_left_facts(1)]]
  by (simp add: failing_left_facts(3,4) failing_left_def)

text \<open>The same exit when the first thread, woken without a notification, takes its job before.\<close>

definition woken_run :: "(u64 \<Rightarrow> fresh_task_hint option) unwind_event list" where
  "woken_run = U_wake 0 # U_thread 0 Worker.demo_thread # concat (map destroyed (rev [1..<5])) @ [U_main]"

definition woken_left :: "(u64 \<Rightarrow> fresh_task_hint option) unwinding" where
  "woken_left = the (unwind_events demo_abi map_write woken_run (unwind_from 5 (dw_workers failing_thrown)))"

lemma woken_left_facts:
  "\<not> Option.is_none (unwind_events demo_abi map_write woken_run (unwind_from 5 (dw_workers failing_thrown)))"
  "length woken_run = 15" "wakes woken_run = 1"
  "map_option h_class_id (wk_hints (dw_workers failing_thrown 0) 9) = Some (FRESH_CLASS_DEADLINE demo_abi)"
  "wk_hints (un_workers woken_left 0) 9 = Some (retired_hint demo_abi 0)"
  "map j_id (executing (wk_thread (un_workers woken_left 0))) = [1]"
  by code_simp+

section \<open>Properties\<close>

text \<open>
  C14: leaving \<open>main\<close> always ends the worker threads. Whichever constructor, clock reading or step of
  the loop threw, and also at the normal end, the destruction of the \<open>n\<close> workers built so far takes
  at most \<open>9 * n\<close> steps of \<open>main\<close> and the threads together, however they interleave, and one more for
  each spurious wake-up; when nothing is left to destroy every thread has ended and is joined, so no
  joinable thread is destroyed; \<open>main\<close> waits only in the join of a thread it has stopped and notified,
  which does not sleep: it ends in one step whatever its clocks and calls answer, or still burns the
  time of a job it had begun. A destructor publishes a hint only if the worker, as the owner sees it,
  is not busy and has no job in the slot, no result and no error.
\<close>

theorem unwind_completes:
  assumes "leaves_main clock abi pub opts n ws"
    and "unwind_run abi pub (unwind_from n ws) k m u"
  shows "k \<le> 9 * n + m \<and>
         (un_todo u = [] \<longrightarrow>
           (\<forall>i < n. wk_thread (un_workers u i) = T_ended \<and> \<not> wk_joinable (un_workers u i))) \<and>
         (\<forall>i is. un_todo u = i # is \<and> destroy_step abi pub u = None \<longrightarrow>
           wk_stopping (un_workers u i) \<and>
           (wk_thread (un_workers u i) = T_wait \<and>
              (\<forall>env. \<exists>v. thread_run env (un_workers u i) = Some v \<and> wk_thread v = T_ended) \<or>
            (\<exists>j. wk_thread (un_workers u i) = T_exec j \<and>
              (\<forall>env. thread_run env (un_workers u i) = None \<longrightarrow>
                (\<exists>before. te_before env = Inr before \<and> burn before (j_work j) (te_readings env) = None))))) \<and>
         (\<forall>v i. destroy_step abi pub u = Some v \<and> wk_hints (un_workers v i) \<noteq> wk_hints (un_workers u i) \<longrightarrow>
           \<not> wk_busy (un_workers u i) \<and> wk_slot (un_workers u i) = None \<and>
           wk_result (un_workers u i) = None \<and> wk_error (un_workers u i) = None)"
proof -
  have u: "unwind_ok u" "un_count u = n" "k + steps_left u \<le> 9 * n + m"
    using unwind_run_ok [OF assms(2) unwind_start_ok(1) [OF assms(1)]] unwind_start_ok(2) [OF assms(1)]
    by (auto simp: unwind_from_def)
  have wait: "wk_stopping (un_workers u i) \<and> \<not> wk_asleep (un_workers u i) \<and> (wk_thread (un_workers u i) = T_wait \<or>
      (\<exists>j. wk_thread (un_workers u i) = T_exec j))"
    if "un_todo u = i # is" "destroy_step abi pub u = None" for i "is"
    using unwind_waits [OF u(1) that(2,1)] by blast
  have hint: "\<not> wk_busy (un_workers u i) \<and> wk_slot (un_workers u i) = None \<and>
      wk_result (un_workers u i) = None \<and> wk_error (un_workers u i) = None"
    if "destroy_step abi pub u = Some v" "wk_hints (un_workers v i) \<noteq> wk_hints (un_workers u i)" for v i
    using that(1)
  proof (cases rule: destroy_cases)
    case (finish j "is")
    with that(2) finish_hint [of abi pub "un_workers u j"] show ?thesis by (cases "i = j") auto
  qed (use that(2) in \<open>auto simp: worker_join_def split: if_splits\<close>)
  have ended: "\<forall>i < n. wk_thread (un_workers u i) = T_ended \<and> \<not> wk_joinable (un_workers u i)" if "un_todo u = []"
    using u that by (auto simp: unwind_ok_def thread_ok_def)
  have ends: "wk_thread (un_workers u i) = T_wait \<and>
        (\<forall>env. \<exists>v. thread_run env (un_workers u i) = Some v \<and> wk_thread v = T_ended) \<or>
      (\<exists>j. wk_thread (un_workers u i) = T_exec j \<and>
        (\<forall>env. thread_run env (un_workers u i) = None \<longrightarrow>
          (\<exists>before. te_before env = Inr before \<and> burn before (j_work j) (te_readings env) = None)))"
    if "un_todo u = i # is" "destroy_step abi pub u = None" for i "is"
    using wait [OF that] stopping_ends running_waits by blast
  have "k \<le> 9 * n + m" using u(3) by simp
  with ended wait ends hint show ?thesis by blast
qed

theorem unwind_completes_witness:
  "(15 :: nat) \<le> 9 * 5 \<and> un_todo failing_left = [] \<and> wk_thread (un_workers failing_left 0) = T_ended \<and>
   wk_thread (un_workers failing_left 4) = T_ended \<and> \<not> wk_joinable (un_workers failing_left 0)"
  using unwind_completes [OF failing_leaves failing_left_run] failing_left_facts(2) by simp

text \<open>
  The comment in \<open>finish()\<close> promises more: never to replace a still-owned job on error unwind. After a
  dispatch whose clock reading failed the slot is filled but \<open>busy\<close> is not set; a thread that wakes
  without a notification takes that job, and the destructor then finds \<open>slot\<close> and \<open>result\<close> empty and
  publishes the background hint under the running job.
\<close>

theorem unwind_retires_running_job:
  "\<exists>u. leaves_main failing_clock demo_abi map_write demo_dep 5 (dw_workers failing_thrown) \<and>
     unwind_run demo_abi map_write (unwind_from 5 (dw_workers failing_thrown)) 14 1 u \<and>
     (\<exists>j. wk_thread (un_workers u 0) = T_exec j) \<and>
     wk_hints (un_workers u 0) 9 = Some (retired_hint demo_abi 0)"
proof -
  have "unwind_run demo_abi map_write (unwind_from 5 (dw_workers failing_thrown)) 14 1 woken_left"
    using unwind_events_run [OF run_start the_some [OF woken_left_facts(1)]]
    by (simp add: woken_left_facts(2,3) woken_left_def)
  moreover have "\<exists>j. wk_thread (un_workers woken_left 0) = T_exec j"
    using woken_left_facts(6) by (cases "wk_thread (un_workers woken_left 0)") simp_all
  ultimately show ?thesis using failing_leaves woken_left_facts(5) by blast
qed

end
