(* ===== verification/Demo_Pipeline.thy ===== *)
theory Demo_Pipeline
  imports Command_Line
begin

text \<open>
  The pipeline of \<^verbatim>\<open>src/demo/slam_pipeline_demo.cpp\<close> as a whole (lines 782 to 1006 of \<open>main\<close>):
  the camera and LiDAR generators, the five queues, the five stage threads that consume them and push
  on, and the shutdown by \<open>main\<close>. The stages are numbered in the order of their queues: 0 vision
  (\<open>q_cam\<close>), 1 estimator (\<open>q_vis\<close>), 2 LiDAR preprocessing (\<open>q_lidar0\<close>), 3 LiDAR registration
  (\<open>q_lidar1\<close>), 4 mapping (\<open>q_map\<close>). Every step is one critical section of a queue, one load of
  \<open>running\<close>, or the processing of one item; threads interleave freely. The IMU thread shares nothing
  with the others but the flag of the start and is modelled by \<open>imu_thread\<close>. Two fields of a stage,
  \<open>sg_in\<close> and \<open>sg_out\<close>, are not in the program: they record what was ever pushed into its queue and
  taken out of it.
\<close>

section \<open>State\<close>

datatype stage_pc = S_test | S_pop | S_item work_item | S_push work_item | S_left

record 's demo_stage =
  sg_channel :: "'s channel"
  sg_stats :: stage_stats
  sg_pc :: stage_pc
  sg_in :: "work_item list"
  sg_out :: "work_item list"

datatype shutdown_pc =
    P_join_camera
  | P_join_lidar
  | P_running
  | P_stop nat
  | P_join nat
  | P_results

record 's pipeline_state =
  pl_stage :: "nat \<Rightarrow> 's demo_stage"
  pl_camera :: "work_item list"
  pl_lidar :: "work_item list"
  pl_cam_generated :: u64
  pl_lidar_generated :: u64
  pl_running :: bool
  pl_main :: shutdown_pc

section \<open>Configuration\<close>

definition stage_config :: "fresh_abi \<Rightarrow> demo_options \<Rightarrow> nat \<Rightarrow> stage_cfg" where
  "stage_config abi opts k =
     (if k = 0 then cfg_vis abi opts else if k = 1 then cfg_est abi
      else if k = 2 then cfg_lpre abi opts else if k = 3 then cfg_lreg abi else cfg_map abi)"

text \<open>The queue a stage pushes into (lines 839 to 878); mapping has none.\<close>

definition stage_output :: "nat \<Rightarrow> nat option" where
  "stage_output k = (if k = 0 then Some 1 else if k = 1 then Some 4 else if k = 2 then Some 3
     else if k = 3 then Some 4 else None)"

text \<open>
  The work of an item. The two LiDAR stages compute it in floating point: their functions of the
  item are the parameters \<open>lpre\<close> and \<open>lreg\<close>.
\<close>

definition stage_work ::
  "demo_options \<Rightarrow> (work_item \<Rightarrow> u64) \<Rightarrow> (work_item \<Rightarrow> u64) \<Rightarrow> nat \<Rightarrow> work_item \<Rightarrow> u64" where
  "stage_work opts lpre lreg k =
     (if k = 0 then vis_work_us opts else if k = 1 then est_work_us else if k = 2 then lpre
      else if k = 3 then lreg else map_work_us)"

text \<open>
  The queues with their hint targets and eviction (lines 819 to 833), and the threads: without LiDAR
  the two LiDAR stages have none. \<open>pids\<close> are the identities the consumers registered.
\<close>

definition stage_new ::
  "fresh_abi \<Rightarrow> demo_options \<Rightarrow> bool \<Rightarrow> (nat \<Rightarrow> u64) \<Rightarrow> 's \<Rightarrow> nat \<Rightarrow> 's demo_stage" where
  "stage_new abi opts mapped pids s k =
     \<lparr>sg_channel = channel_new \<lparr>ht_open = mapped, ht_pid_tgid = Some (pids k),
        ht_cfg = Some (stage_config abi opts k)\<rparr> (dm_drop_stale opts) s,
      sg_stats = stats_zero,
      sg_pc = (if lidar_points_for_mode (dm_lidar_mode opts) = 0 \<and> (k = 2 \<or> k = 3) then S_left else S_test),
      sg_in = [], sg_out = []\<rparr>"

definition pipeline_new ::
  "fresh_abi \<Rightarrow> demo_options \<Rightarrow> bool \<Rightarrow> (nat \<Rightarrow> u64) \<Rightarrow> 's \<Rightarrow> work_item list \<Rightarrow> work_item list \<Rightarrow>
   's pipeline_state" where
  "pipeline_new abi opts mapped pids s camera lidar =
     \<lparr>pl_stage = stage_new abi opts mapped pids s, pl_camera = camera, pl_lidar = lidar,
      pl_cam_generated = 0, pl_lidar_generated = 0, pl_running = True, pl_main = P_join_camera\<rparr>"

text \<open>
  The start of the workload (lines 896 to 900) and what the two generators will push, in order, given
  enough fuel for their loops.
\<close>

definition pipeline_start ::
  "nat \<Rightarrow> fresh_abi \<Rightarrow> demo_options \<Rightarrow> bool \<Rightarrow> (nat \<Rightarrow> u64) \<Rightarrow> 's \<Rightarrow> u64 \<Rightarrow> 's pipeline_state option" where
  "pipeline_start fuel abi opts mapped pids s now =
     (let start = now + 100000000
      in case camera_gen fuel (dm_duration_s opts) (dm_camera_burst_count opts)
                (dm_camera_burst_at_ms opts) start of
           None \<Rightarrow> None
         | Some cam \<Rightarrow>
             (case lidar_gen fuel (dm_duration_s opts) (dm_lidar_mode opts) start of
                None \<Rightarrow> None
              | Some lid \<Rightarrow>
                  Some (pipeline_new abi opts mapped pids s (map snd (cg_pushed cam)) (lg_pushed lid))))"

definition metrics_end_ns :: "demo_options \<Rightarrow> u64 \<Rightarrow> u64" where
  "metrics_end_ns opts now =
     (if dm_window_stats opts then now + 100000000 + of_int (dm_duration_s opts) * 1000000000 else 0)"

section \<open>Steps\<close>

definition at_demo_stage :: "nat \<Rightarrow> ('s demo_stage \<Rightarrow> 's demo_stage) \<Rightarrow> 's pipeline_state \<Rightarrow> 's pipeline_state" where
  "at_demo_stage k f p = p\<lparr>pl_stage := (pl_stage p)(k := f (pl_stage p k))\<rparr>"

definition stage_push :: "u64 \<Rightarrow> 's publisher \<Rightarrow> u64 \<Rightarrow> work_item \<Rightarrow> 's demo_stage \<Rightarrow> 's demo_stage" where
  "stage_push cutoff pub now w g =
     g\<lparr>sg_channel := channel_apply cutoff pub (Ch_push now w) (sg_channel g), sg_in := sg_in g @ [w]\<rparr>"

definition camera_step :: "u64 \<Rightarrow> 's publisher \<Rightarrow> u64 \<Rightarrow> 's pipeline_state \<Rightarrow> 's pipeline_state option" where
  "camera_step cutoff pub now p =
     (case pl_camera p of
        [] \<Rightarrow> None
      | w # ws \<Rightarrow> Some ((at_demo_stage 0 (stage_push cutoff pub now w) p)
          \<lparr>pl_camera := ws, pl_cam_generated := pl_cam_generated p + 1\<rparr>))"

definition lidar_step :: "u64 \<Rightarrow> 's publisher \<Rightarrow> u64 \<Rightarrow> 's pipeline_state \<Rightarrow> 's pipeline_state option" where
  "lidar_step cutoff pub now p =
     (case pl_lidar p of
        [] \<Rightarrow> None
      | w # ws \<Rightarrow> Some ((at_demo_stage 2 (stage_push cutoff pub now w) p)
          \<lparr>pl_lidar := ws, pl_lidar_generated := pl_lidar_generated p + 1\<rparr>))"

text \<open>\<open>in->pop(w)\<close>: a first call, or the return from its wait.\<close>

definition stage_take :: "u64 \<Rightarrow> 's publisher \<Rightarrow> u64 \<Rightarrow> 's demo_stage \<Rightarrow> 's demo_stage" where
  "stage_take cutoff pub now g =
     (let c = sg_channel g; op = turn_op now c; c1 = channel_apply cutoff pub op c
      in case popped_by cutoff pub op c of
           w # _ \<Rightarrow> g\<lparr>sg_channel := c1, sg_pc := S_item w, sg_out := sg_out g @ [w]\<rparr>
         | [] \<Rightarrow> g\<lparr>sg_channel := c1, sg_pc := (if ch_consumer c1 = Left then S_left else S_pop)\<rparr>)"

text \<open>
  One step of the thread of stage \<open>k\<close>; \<open>None\<close> when it has left, when it sleeps in \<open>pop\<close> and was not
  notified, or when the readings of \<open>env\<close> do not yet end the work on its item.
\<close>

definition stage_step ::
  "u64 \<Rightarrow> fresh_abi \<Rightarrow> demo_options \<Rightarrow> (nat \<Rightarrow> work_item \<Rightarrow> u64) \<Rightarrow> 's publisher \<Rightarrow> nat \<Rightarrow> u64 \<Rightarrow> item_env \<Rightarrow>
   's pipeline_state \<Rightarrow> 's pipeline_state option" where
  "stage_step cutoff abi opts work pub k now env p =
     (let g = pl_stage p k
      in case sg_pc g of
           S_test \<Rightarrow>
             Some (at_demo_stage k (\<lambda>g. if pl_running p then g\<lparr>sg_pc := S_pop\<rparr>
               else g\<lparr>sg_pc := S_left, sg_channel := (sg_channel g)\<lparr>ch_consumer := Left\<rparr>\<rparr>) p)
         | S_pop \<Rightarrow>
             (if ch_consumer (sg_channel g) = Asleep False then None
              else Some (at_demo_stage k (stage_take cutoff pub now) p))
         | S_item w \<Rightarrow>
             (case stage_item cutoff (stage_config abi opts k) (dm_drop_stale opts)
                     (env\<lparr>ie_work_us := work k w\<rparr>) w (sg_stats g) of
                None \<Rightarrow> None
              | Some (pass, st) \<Rightarrow>
                  Some (at_demo_stage k (\<lambda>g. g\<lparr>sg_stats := st, sg_pc := (if pass then S_push w else S_test)\<rparr>) p))
         | S_push w \<Rightarrow>
             Some (at_demo_stage k (\<lambda>g. g\<lparr>sg_pc := S_test\<rparr>)
               (case stage_output k of
                  None \<Rightarrow> p
                | Some out \<Rightarrow> at_demo_stage out (stage_push cutoff pub now w) p))
         | S_left \<Rightarrow> None)"

text \<open>
  \<open>main\<close> from the joins of the generators on (lines 971 to 992). The IMU thread's join and the sleep
  until the end of the window touch nothing here.
\<close>

definition main_shutdown :: "'s pipeline_state \<Rightarrow> 's pipeline_state option" where
  "main_shutdown p =
     (case pl_main p of
        P_join_camera \<Rightarrow> if pl_camera p = [] then Some (p\<lparr>pl_main := P_join_lidar\<rparr>) else None
      | P_join_lidar \<Rightarrow> if pl_lidar p = [] then Some (p\<lparr>pl_main := P_running\<rparr>) else None
      | P_running \<Rightarrow> Some (p\<lparr>pl_running := False, pl_main := P_stop 0\<rparr>)
      | P_stop k \<Rightarrow>
          Some (if k < 5
                then (at_demo_stage k (\<lambda>g. g\<lparr>sg_channel := channel_apply 0 (\<lambda>_ _ s. (0, s)) Ch_stop (sg_channel g)\<rparr>) p)
                       \<lparr>pl_main := P_stop (Suc k)\<rparr>
                else p\<lparr>pl_main := P_join 0\<rparr>)
      | P_join k \<Rightarrow>
          if k < 5 then (if sg_pc (pl_stage p k) = S_left then Some (p\<lparr>pl_main := P_join (Suc k)\<rparr>) else None)
          else Some (p\<lparr>pl_main := P_results\<rparr>)
      | P_results \<Rightarrow> None)"

text \<open>A spurious wake-up: \<open>cv_.wait\<close> returns without a notification.\<close>

definition stage_wake :: "u64 \<Rightarrow> 's publisher \<Rightarrow> nat \<Rightarrow> u64 \<Rightarrow> 's pipeline_state \<Rightarrow> 's pipeline_state option" where
  "stage_wake cutoff pub k now p =
     (if sg_pc (pl_stage p k) = S_pop \<and> ch_consumer (sg_channel (pl_stage p k)) = Asleep False
      then Some (at_demo_stage k (stage_take cutoff pub now) p) else None)"

inductive pipeline_step ::
  "u64 \<Rightarrow> fresh_abi \<Rightarrow> demo_options \<Rightarrow> (nat \<Rightarrow> work_item \<Rightarrow> u64) \<Rightarrow> 's publisher \<Rightarrow>
   's pipeline_state \<Rightarrow> 's pipeline_state \<Rightarrow> bool"
  for cutoff abi opts work pub where
  pipe_camera: "camera_step cutoff pub now p = Some q \<Longrightarrow> pipeline_step cutoff abi opts work pub p q"
| pipe_lidar: "lidar_step cutoff pub now p = Some q \<Longrightarrow> pipeline_step cutoff abi opts work pub p q"
| pipe_stage: "k < 5 \<Longrightarrow> stage_step cutoff abi opts work pub k now env p = Some q \<Longrightarrow>
    pipeline_step cutoff abi opts work pub p q"
| pipe_wake: "k < 5 \<Longrightarrow> stage_wake cutoff pub k now p = Some q \<Longrightarrow> pipeline_step cutoff abi opts work pub p q"
| pipe_main: "main_shutdown p = Some q \<Longrightarrow> pipeline_step cutoff abi opts work pub p q"

definition pipeline_init ::
  "fresh_abi \<Rightarrow> demo_options \<Rightarrow> work_item list \<Rightarrow> work_item list \<Rightarrow> 's pipeline_state \<Rightarrow> bool" where
  "pipeline_init abi opts camera lidar p \<longleftrightarrow>
     (\<exists>mapped pids s. p = pipeline_new abi opts mapped pids s camera lidar)"

section \<open>Results\<close>

text \<open>The statistics with the evictions of the queue (lines 996 to 1000).\<close>

definition final_stats :: "'s demo_stage \<Rightarrow> stage_stats" where
  "final_stats g = (sg_stats g)\<lparr>st_queue_evicted_stale := bq_queue_evicted_stale (ch_queue (sg_channel g))\<rparr>"

text \<open>
  The counters of a line of the printed results (lines 1057 to 1127), without the percentages. The
  burst is printed for vision and the estimator only.
\<close>

record result_line =
  rl_dequeued :: u64
  rl_processed :: u64
  rl_late :: u64
  rl_cpu_us :: u64
  rl_stale_seen :: u64
  rl_dropped_stale :: u64
  rl_consumer_dropped_stale :: u64
  rl_queue_evicted_stale :: u64
  rl_pending :: u64
  rl_burst_processed :: u64
  rl_burst_latest_seq :: u64
  rl_burst_latest_age_us :: u64

definition stage_results :: "'s demo_stage \<Rightarrow> result_line" where
  "stage_results g =
     (let st = final_stats g
      in \<lparr>rl_dequeued = st_processed st + st_dropped_stale st, rl_processed = st_processed st,
          rl_late = st_late st, rl_cpu_us = st_cpu_ns st div 1000, rl_stale_seen = stale_seen_total st,
          rl_dropped_stale = dropped_stale_total st, rl_consumer_dropped_stale = st_dropped_stale st,
          rl_queue_evicted_stale = st_queue_evicted_stale st,
          rl_pending = queue_pending (ch_queue (sg_channel g)),
          rl_burst_processed = st_burst_processed st, rl_burst_latest_seq = st_burst_latest_seq st,
          rl_burst_latest_age_us = st_burst_latest_age_ns st div 1000\<rparr>)"

section \<open>Invariant of a stage\<close>

definition hold :: "stage_pc \<Rightarrow> work_item list" where
  "hold pc = (case pc of S_item w \<Rightarrow> [w] | S_push w \<Rightarrow> [w] | _ \<Rightarrow> [])"

definition at_item :: "stage_pc \<Rightarrow> u64" where
  "at_item pc = (case pc of S_item w \<Rightarrow> 1 | _ \<Rightarrow> 0)"

definition at_push :: "stage_pc \<Rightarrow> u64" where
  "at_push pc = (case pc of S_push w \<Rightarrow> 1 | _ \<Rightarrow> 0)"

lemma pc_simps [simp]:
  "hold S_test = []" "hold S_pop = []" "hold S_left = []" "hold (S_item w) = [w]" "hold (S_push w) = [w]"
  "at_item S_test = 0" "at_item S_pop = 0" "at_item S_left = 0" "at_item (S_item w) = 1" "at_item (S_push w) = 0"
  "at_push S_test = 0" "at_push S_pop = 0" "at_push S_left = 0" "at_push (S_item w) = 0" "at_push (S_push w) = 1"
  by (simp_all add: hold_def at_item_def at_push_def)

definition consumer_ok :: "stage_pc \<Rightarrow> consumer \<Rightarrow> bool" where
  "consumer_ok pc c = (case pc of S_left \<Rightarrow> True | S_pop \<Rightarrow> c \<noteq> Left | _ \<Rightarrow> (\<exists>x. c = Outside x))"

definition stage_inv :: "'s demo_stage \<Rightarrow> bool" where
  "stage_inv g \<longleftrightarrow> wake_inv (sg_channel g) \<and> consumer_ok (sg_pc g) (ch_consumer (sg_channel g)) \<and>
     subseq (sg_out g @ bq_q (ch_queue (sg_channel g))) (sg_in g) \<and>
     vsize (sg_in g) = vsize (sg_out g) + balance (sg_channel g) \<and>
     vsize (sg_out g) = st_processed (sg_stats g) + st_dropped_stale (sg_stats g) + at_item (sg_pc g)"

lemma consumer_notify: "consumer_ok pc c \<Longrightarrow> consumer_ok pc (notify c)"
  by (auto simp: consumer_ok_def notify_def split: stage_pc.splits consumer.splits)

lemma push_ops [simp]: "pushed_by (Ch_push now w) = [w]" "popped_by cutoff pub (Ch_push now w) c = []"
  "pushed_by Ch_stop = []" "popped_by cutoff pub Ch_stop c = []"
  by (simp_all add: pushed_by_def popped_by_def)

lemma subseq_extend:
  assumes "subseq (a @ q) b" and "subseq (x @ r) (q @ y)"
  shows "subseq (a @ x @ r) (b @ y)"
proof -
  have "subseq (a @ x @ r) (a @ q @ y)" 
    using assms(2) list_emb_append_mono [of "(=)" a a "x @ r" "q @ y"] by simp
  also have "subseq (a @ q @ y) (b @ y)"
    using assms(1) list_emb_append_mono [of "(=)" "a @ q" b y y] by simp
  finally show ?thesis .
qed

lemma stage_push_inv:
  assumes "stage_inv g"
  shows "stage_inv (stage_push cutoff pub now w g)"
proof -
  let ?c = "sg_channel g"
  have "subseq (bq_q (ch_queue (channel_apply cutoff pub (Ch_push now w) ?c))) (bq_q (ch_queue ?c) @ [w])"
    using apply_items [of cutoff pub "Ch_push now w" ?c] by (simp only: push_ops append_Nil)
  then have "subseq (sg_out g @ bq_q (ch_queue (channel_apply cutoff pub (Ch_push now w) ?c))) (sg_in g @ [w])"
    using subseq_extend [of "sg_out g" "bq_q (ch_queue ?c)" "sg_in g" "[]"] assms
    unfolding stage_inv_def by simp
  moreover have "balance (channel_apply cutoff pub (Ch_push now w) ?c) = balance ?c + 1"
    using apply_balance [of ?c "Ch_push now w" cutoff pub] by simp
  moreover have "wake_inv (channel_apply cutoff pub (Ch_push now w) ?c)"
    using wake_inv_apply assms unfolding stage_inv_def by blast
  moreover have "consumer_ok (sg_pc g) (ch_consumer (channel_apply cutoff pub (Ch_push now w) ?c))"
    using assms by (simp add: stage_inv_def consumer_notify)
  ultimately show ?thesis using assms
    by (simp add: stage_inv_def stage_push_def del: channel_apply.simps)
qed

lemma stop_frame: "bq_q (ch_queue (channel_apply cutoff pub Ch_stop c)) = bq_q (ch_queue c)"
  "balance (channel_apply cutoff pub Ch_stop c) = balance c"
  by (simp_all add: queue_stop_def balance_def)

lemma stage_stop_inv:
  assumes "stage_inv g"
  shows "stage_inv (g\<lparr>sg_channel := channel_apply cutoff pub Ch_stop (sg_channel g)\<rparr>)"
  using assms wake_inv_apply [of "sg_channel g" cutoff pub Ch_stop]
    consumer_notify [of "sg_pc g" "ch_consumer (sg_channel g)"]
  by (simp add: stage_inv_def stop_frame del: channel_apply.simps) simp

text \<open>What a call of \<open>pop\<close> does.\<close>

lemma take_cases:
  assumes "consumer_ok S_pop (ch_consumer (sg_channel g))"
  obtains (item) w where "popped_by cutoff pub (turn_op now (sg_channel g)) (sg_channel g) = [w]"
      "ch_consumer (channel_apply cutoff pub (turn_op now (sg_channel g)) (sg_channel g)) = Outside (Some w)"
      "\<not> bq_stop (ch_queue (sg_channel g))"
  | (none) "popped_by cutoff pub (turn_op now (sg_channel g)) (sg_channel g) = []"
      "ch_consumer (channel_apply cutoff pub (turn_op now (sg_channel g)) (sg_channel g)) = Left \<or>
       ch_consumer (channel_apply cutoff pub (turn_op now (sg_channel g)) (sg_channel g)) = Asleep False \<and>
         \<not> bq_stop (ch_queue (sg_channel g))"
proof -
  let ?c = "sg_channel g"
  show ?thesis
  proof (cases "ch_consumer ?c")
    case (Outside x)
    obtain r b where p: "queue_pop cutoff now pub (ch_queue ?c) = (r, b)" by fastforce
    show ?thesis
      by (rule pop_cases [of "ch_queue ?c" cutoff now pub])
        (use Outside that p in \<open>auto simp: turn_op_def popped_by_def consumer_after_def\<close>)
  next
    case (Asleep n)
    obtain r b where p: "queue_pop cutoff now pub ((ch_queue ?c)\<lparr>bq_waiting := False\<rparr>) = (r, b)" by fastforce
    show ?thesis
      by (rule pop_cases [of "(ch_queue ?c)\<lparr>bq_waiting := False\<rparr>" cutoff now pub])
        (use Asleep that p in \<open>auto simp: turn_op_def popped_by_def consumer_after_def queue_wake_def\<close>)
  next
    case Left
    with assms show ?thesis by (simp add: consumer_ok_def)
  qed
qed

lemma stage_take_inv:
  assumes "stage_inv g" and "sg_pc g = S_pop"
  shows "stage_inv (stage_take cutoff pub now g)"
proof -
  let ?c = "sg_channel g" let ?op = "turn_op now ?c" let ?d = "channel_apply cutoff pub ?op ?c"
  have inv: "wake_inv ?d" using wake_inv_apply assms(1) unfolding stage_inv_def by blast
  have bal: "balance ?c = vsize (popped_by cutoff pub ?op ?c) + balance ?d"
    using apply_balance [of ?c ?op cutoff pub] turn_not_push [of now ?c] by simp
  have "subseq (popped_by cutoff pub ?op ?c @ bq_q (ch_queue ?d)) (bq_q (ch_queue ?c))"
    using apply_items [of cutoff pub ?op ?c] turn_not_push [of now ?c] by simp
  then have sub: "subseq (sg_out g @ popped_by cutoff pub ?op ?c @ bq_q (ch_queue ?d)) (sg_in g)"
    using subseq_extend [of "sg_out g" "bq_q (ch_queue ?c)" "sg_in g" _ _ "[]"] assms(1)
    unfolding stage_inv_def by simp
  have "consumer_ok S_pop (ch_consumer ?c)" using assms by (simp add: stage_inv_def)
  then show ?thesis
  proof (cases rule: take_cases [where cutoff = cutoff and pub = pub and now = now])
    case (item w)
    with inv bal sub assms show ?thesis
      by (simp add: stage_inv_def stage_take_def Let_def consumer_ok_def del: channel_apply.simps)
  next
    case none
    with inv bal sub assms show ?thesis
      by (auto simp: stage_inv_def stage_take_def Let_def consumer_ok_def simp del: channel_apply.simps)
  qed
qed

section \<open>Invariant of the pipeline\<close>

definition link_ok :: "'s demo_stage \<Rightarrow> 's demo_stage \<Rightarrow> bool" where
  "link_ok g h \<longleftrightarrow> subseq (sg_in h @ hold (sg_pc g)) (sg_out g) \<and>
     vsize (sg_in h) + at_push (sg_pc g) = st_processed (sg_stats g)"

definition merge_ok :: "'s demo_stage \<Rightarrow> 's demo_stage \<Rightarrow> 's demo_stage \<Rightarrow> bool" where
  "merge_ok g1 g2 h \<longleftrightarrow> vsize (sg_in h) + (at_push (sg_pc g1) + at_push (sg_pc g2)) =
     st_processed (sg_stats g1) + st_processed (sg_stats g2)"

definition stopped :: "'s demo_stage \<Rightarrow> bool" where
  "stopped g \<longleftrightarrow> bq_stop (ch_queue (sg_channel g))"

definition main_ok :: "'s pipeline_state \<Rightarrow> bool" where
  "main_ok p = (case pl_main p of
      P_join_camera \<Rightarrow> True
    | P_join_lidar \<Rightarrow> pl_camera p = []
    | P_running \<Rightarrow> pl_camera p = [] \<and> pl_lidar p = []
    | P_stop k \<Rightarrow> pl_camera p = [] \<and> pl_lidar p = [] \<and> \<not> pl_running p \<and>
        (\<forall>i < 5. i < k \<longrightarrow> stopped (pl_stage p i))
    | P_join k \<Rightarrow> pl_camera p = [] \<and> pl_lidar p = [] \<and> \<not> pl_running p \<and>
        (\<forall>i < 5. stopped (pl_stage p i) \<and> (i < k \<longrightarrow> sg_pc (pl_stage p i) = S_left))
    | P_results \<Rightarrow> pl_camera p = [] \<and> pl_lidar p = [] \<and> \<not> pl_running p \<and>
        (\<forall>i < 5. sg_pc (pl_stage p i) = S_left))"

definition flow_ok :: "work_item list \<Rightarrow> work_item list \<Rightarrow> 's pipeline_state \<Rightarrow> bool" where
  "flow_ok camera lidar p \<longleftrightarrow> (\<forall>k < 5. stage_inv (pl_stage p k)) \<and>
     sg_in (pl_stage p 0) @ pl_camera p = camera \<and> pl_cam_generated p = vsize (sg_in (pl_stage p 0)) \<and>
     sg_in (pl_stage p 2) @ pl_lidar p = lidar \<and> pl_lidar_generated p = vsize (sg_in (pl_stage p 2)) \<and>
     link_ok (pl_stage p 0) (pl_stage p 1) \<and> link_ok (pl_stage p 2) (pl_stage p 3) \<and>
     merge_ok (pl_stage p 1) (pl_stage p 3) (pl_stage p 4)"

lemma flow_stage: "flow_ok camera lidar p \<Longrightarrow> k < 5 \<Longrightarrow> stage_inv (pl_stage p k)"
  by (simp add: flow_ok_def)

text \<open>
  A stage may change in ways its neighbours do not see: what it took in and what it passed on stay
  the same.
\<close>

definition unseen :: "'s demo_stage \<Rightarrow> 's demo_stage \<Rightarrow> bool" where
  "unseen g h \<longleftrightarrow> stage_inv h \<and> sg_in h = sg_in g \<and>
     st_processed (sg_stats h) - at_push (sg_pc h) = st_processed (sg_stats g) - at_push (sg_pc g) \<and>
     (\<forall>xs. subseq (xs @ hold (sg_pc g)) (sg_out g) \<longrightarrow> subseq (xs @ hold (sg_pc h)) (sg_out h))"

lemma link_unseen:
  assumes "link_ok g h" and "unseen g g1"
  shows "link_ok g1 h"
proof -
  have "vsize (sg_in h) = st_processed (sg_stats g) - at_push (sg_pc g)"
    using assms(1) by (simp add: link_ok_def eq_diff_eq)
  then have "vsize (sg_in h) = st_processed (sg_stats g1) - at_push (sg_pc g1)"
    using assms(2) by (simp add: unseen_def)
  then have "vsize (sg_in h) + at_push (sg_pc g1) = st_processed (sg_stats g1)" by simp
  with assms show ?thesis unfolding link_ok_def unseen_def by blast
qed

lemma link_input: "link_ok g h \<Longrightarrow> sg_in h1 = sg_in h \<Longrightarrow> link_ok g h1"
  by (simp add: link_ok_def)

lemma merge_diff:
  "merge_ok g1 g2 h \<longleftrightarrow> vsize (sg_in h) =
     (st_processed (sg_stats g1) - at_push (sg_pc g1)) + (st_processed (sg_stats g2) - at_push (sg_pc g2))"
  by (auto simp: merge_ok_def algebra_simps)

lemma merge_unseen:
  assumes "merge_ok g1 g2 h"
  shows "unseen g1 k \<Longrightarrow> merge_ok k g2 h" and "unseen g2 k \<Longrightarrow> merge_ok g1 k h"
    and "unseen h k \<Longrightarrow> merge_ok g1 g2 k"
  using assms unfolding merge_diff by (simp_all add: unseen_def)

lemma less_5: "(k :: nat) < 5 \<longleftrightarrow> k = 0 \<or> k = 1 \<or> k = 2 \<or> k = 3 \<or> k = 4"
  by auto

lemma flow_unseen:
  assumes "flow_ok camera lidar p" and "k < 5" and "unseen (pl_stage p k) h"
  shows "flow_ok camera lidar (at_demo_stage k (\<lambda>_. h) p)"
proof -
  let ?s = "(pl_stage p)(k := h)"
  have i: "sg_in h = sg_in (pl_stage p k)" "stage_inv h" using assms(3) by (simp_all add: unseen_def)
  have "link_ok (?s 0) (?s 1)" "link_ok (?s 2) (?s 3)"
    using assms(1,3) i by (auto simp: flow_ok_def intro: link_unseen link_input)
  moreover have "merge_ok (?s 1) (?s 3) (?s 4)"
    using assms(1,3) merge_unseen [of "pl_stage p 1" "pl_stage p 3" "pl_stage p 4"]
    by (auto simp: flow_ok_def)
  ultimately show ?thesis
    using assms(1) i by (auto simp: flow_ok_def at_demo_stage_def)
qed

lemma push_fields_stage:
  "sg_in (stage_push cutoff pub now w g) = sg_in g @ [w]" "sg_pc (stage_push cutoff pub now w g) = sg_pc g"
  "sg_out (stage_push cutoff pub now w g) = sg_out g" "sg_stats (stage_push cutoff pub now w g) = sg_stats g"
  by (simp_all add: stage_push_def)

lemma flow_camera:
  assumes "flow_ok camera lidar p" and "camera_step cutoff pub now p = Some q"
  shows "flow_ok camera lidar q"
proof -
  obtain w ws where w: "pl_camera p = w # ws"
    "q = (at_demo_stage 0 (stage_push cutoff pub now w) p)\<lparr>pl_camera := ws, pl_cam_generated := pl_cam_generated p + 1\<rparr>"
    using assms(2) by (auto simp: camera_step_def split: list.splits)
  have "stage_inv (stage_push cutoff pub now w (pl_stage p 0))" using assms(1) by (simp add: flow_ok_def stage_push_inv)
  with assms(1) w show ?thesis
    by (auto simp: flow_ok_def at_demo_stage_def push_fields_stage link_ok_def)
qed

lemma flow_lidar:
  assumes "flow_ok camera lidar p" and "lidar_step cutoff pub now p = Some q"
  shows "flow_ok camera lidar q"
proof -
  obtain w ws where w: "pl_lidar p = w # ws"
    "q = (at_demo_stage 2 (stage_push cutoff pub now w) p)\<lparr>pl_lidar := ws, pl_lidar_generated := pl_lidar_generated p + 1\<rparr>"
    using assms(2) by (auto simp: lidar_step_def split: list.splits)
  have "stage_inv (stage_push cutoff pub now w (pl_stage p 2))" using assms(1) by (simp add: flow_ok_def stage_push_inv)
  with assms(1) w show ?thesis
    by (auto simp: flow_ok_def at_demo_stage_def push_fields_stage link_ok_def)
qed

lemma consumer_left: "wake_inv c \<Longrightarrow> \<exists>x. ch_consumer c = Outside x \<Longrightarrow> wake_inv (c\<lparr>ch_consumer := Left\<rparr>)"
  by (auto simp: wake_inv_def)

lemma test_unseen:
  assumes "stage_inv g" and "sg_pc g = S_test"
  shows "unseen g (if r then g\<lparr>sg_pc := S_pop\<rparr>
    else g\<lparr>sg_pc := S_left, sg_channel := (sg_channel g)\<lparr>ch_consumer := Left\<rparr>\<rparr>)"
proof -
  have "\<exists>x. ch_consumer (sg_channel g) = Outside x" using assms by (simp add: stage_inv_def consumer_ok_def)
  with assms consumer_left [of "sg_channel g"] show ?thesis
    by (auto simp: unseen_def stage_inv_def consumer_ok_def balance_def)
qed

lemma take_unseen:
  assumes "stage_inv g" and "sg_pc g = S_pop"
  shows "unseen g (stage_take cutoff pub now g)"
  using stage_take_inv [OF assms, of cutoff pub now] assms(2)
  by (auto simp: unseen_def stage_take_def Let_def split: list.splits)

lemma item_unseen:
  assumes "stage_inv g" and "sg_pc g = S_item w"
    and "stage_item cutoff cfg drop_stale env w (sg_stats g) = Some (pass, st)"
  shows "unseen g (g\<lparr>sg_stats := st, sg_pc := (if pass then S_push w else S_test)\<rparr>)"
proof -
  have c: "st_processed st = st_processed (sg_stats g) + b2w pass"
    "st_dropped_stale st = st_dropped_stale (sg_stats g) + b2w (\<not> pass)"
    using stage_item_counters [OF assms(3)] by blast+
  have "subseq xs (sg_out g)" if "subseq (xs @ [w]) (sg_out g)" for xs
    using subseq_order.order_trans [OF list_emb_prefix [OF subseq_order.order_refl] that] .
  with assms(1,2) c show ?thesis
    by (cases pass) (auto simp: unseen_def stage_inv_def consumer_ok_def b2w_def add.assoc)
qed

text \<open>A push into the next queue, and then back to the test.\<close>

lemma push_done_inv: "stage_inv g \<Longrightarrow> sg_pc g = S_push w \<Longrightarrow> stage_inv (g\<lparr>sg_pc := S_test\<rparr>)"
  by (simp add: stage_inv_def consumer_ok_def)

lemma flow_push:
  assumes "flow_ok camera lidar p" and "k < 5" and "sg_pc (pl_stage p k) = S_push w"
  shows "flow_ok camera lidar (at_demo_stage k (\<lambda>g. g\<lparr>sg_pc := S_test\<rparr>)
    (case stage_output k of None \<Rightarrow> p | Some out \<Rightarrow> at_demo_stage out (stage_push cutoff pub now w) p))"
proof -
  have inv: "stage_inv (stage_push cutoff pub now w (pl_stage p i))" if "i < 5" for i
    using flow_stage [OF assms(1) that] by (rule stage_push_inv)
  have pd: "stage_inv ((pl_stage p k)\<lparr>sg_pc := S_test\<rparr>)"
    using push_done_inv [OF flow_stage [OF assms(1,2)] assms(3)] .
  from assms(2) consider "k = 0" | "k = 1" | "k = 2" | "k = 3" | "k = 4" by linarith
  then show ?thesis
  proof cases
    case 5
    with assms pd show ?thesis
      by (auto simp: flow_ok_def stage_output_def at_demo_stage_def link_ok_def merge_ok_def)
  qed (use assms inv pd in \<open>auto simp: flow_ok_def stage_output_def at_demo_stage_def link_ok_def merge_ok_def
    push_fields_stage ac_simps\<close>)
qed

lemma flow_at:
  assumes "flow_ok camera lidar p" and "k < 5" and "unseen (pl_stage p k) (f (pl_stage p k))"
  shows "flow_ok camera lidar (at_demo_stage k f p)"
  using flow_unseen [OF assms] by (simp add: at_demo_stage_def)

lemma flow_step:
  assumes "flow_ok camera lidar p" and "k < 5"
    and "stage_step cutoff abi opts work pub k now env p = Some q"
  shows "flow_ok camera lidar q"
proof -
  have g: "stage_inv (pl_stage p k)" using assms(1,2) by (rule flow_stage)
  show ?thesis
  proof (cases "sg_pc (pl_stage p k)")
    case S_test
    then have "q = at_demo_stage k (\<lambda>g. if pl_running p then g\<lparr>sg_pc := S_pop\<rparr>
        else g\<lparr>sg_pc := S_left, sg_channel := (sg_channel g)\<lparr>ch_consumer := Left\<rparr>\<rparr>) p"
      using assms(3) by (simp add: stage_step_def Let_def)
    then show ?thesis using test_unseen [OF g S_test] by (simp only: flow_at [OF assms(1,2)])
  next
    case S_pop
    then have "q = at_demo_stage k (stage_take cutoff pub now) p"
      using assms(3) by (simp add: stage_step_def Let_def split: if_splits)
    then show ?thesis using take_unseen [OF g S_pop] by (simp only: flow_at [OF assms(1,2)])
  next
    case (S_item w)
    then obtain pass st where s: "stage_item cutoff (stage_config abi opts k) (dm_drop_stale opts)
        (env\<lparr>ie_work_us := work k w\<rparr>) w (sg_stats (pl_stage p k)) = Some (pass, st)"
      and "q = at_demo_stage k (\<lambda>g. g\<lparr>sg_stats := st, sg_pc := (if pass then S_push w else S_test)\<rparr>) p"
      using assms(3) by (auto simp: stage_step_def Let_def split: option.splits)
    then show ?thesis using item_unseen [OF g S_item s] by (simp only: flow_at [OF assms(1,2)])
  next
    case (S_push w)
    then have "q = at_demo_stage k (\<lambda>g. g\<lparr>sg_pc := S_test\<rparr>)
        (case stage_output k of None \<Rightarrow> p | Some out \<Rightarrow> at_demo_stage out (stage_push cutoff pub now w) p)"
      using assms(3) by (simp add: stage_step_def Let_def)
    then show ?thesis using flow_push [OF assms(1,2) S_push] by simp
  next
    case S_left
    with assms(3) show ?thesis by (simp add: stage_step_def Let_def)
  qed
qed

lemma flow_wake:
  assumes "flow_ok camera lidar p" and "k < 5" and "stage_wake cutoff pub k now p = Some q"
  shows "flow_ok camera lidar q"
proof -
  have pc: "sg_pc (pl_stage p k) = S_pop" and q: "q = at_demo_stage k (stage_take cutoff pub now) p"
    using assms(3) by (auto simp: stage_wake_def split: if_splits)
  have "stage_inv (pl_stage p k)" using assms(1,2) by (rule flow_stage)
  then show ?thesis unfolding q by (intro flow_at [OF assms(1,2)] take_unseen pc)
qed

lemma stop_unseen:
  "stage_inv g \<Longrightarrow> unseen g (g\<lparr>sg_channel := channel_apply cutoff pub Ch_stop (sg_channel g)\<rparr>)"
  using stage_stop_inv [of g cutoff pub] by (simp add: unseen_def del: channel_apply.simps)

lemma flow_frame [simp]:
  "flow_ok camera lidar (p\<lparr>pl_main := m\<rparr>) = flow_ok camera lidar p"
  "flow_ok camera lidar (p\<lparr>pl_running := r\<rparr>) = flow_ok camera lidar p"
  by (simp_all add: flow_ok_def)

lemma flow_main:
  assumes "flow_ok camera lidar p" and "main_shutdown p = Some q"
  shows "flow_ok camera lidar q"
proof (cases "pl_main p")
  case (P_stop k)
  show ?thesis
  proof (cases "k < 5")
    case True
    let ?f = "\<lambda>g :: 'a demo_stage. g\<lparr>sg_channel := channel_apply 0 (\<lambda>_ _ s. (0, s)) Ch_stop (sg_channel g)\<rparr>"
    have "q = (at_demo_stage k ?f p)\<lparr>pl_main := P_stop (Suc k)\<rparr>"
      using assms(2) P_stop True by (simp add: main_shutdown_def del: channel_apply.simps)
    moreover have "flow_ok camera lidar (at_demo_stage k ?f p)"
      using stop_unseen [OF flow_stage [OF assms(1) True]] by (rule flow_at [OF assms(1) True])
    ultimately show ?thesis by (simp only: flow_frame)
  next
    case False
    with assms P_stop show ?thesis by (auto simp: main_shutdown_def)
  qed
qed (use assms in \<open>auto simp: main_shutdown_def split: if_splits\<close>)

section \<open>Shutdown\<close>

lemma stopped_push: "stopped (stage_push cutoff pub now w g) = stopped g"
  by (simp add: stopped_def stage_push_def push_fields)

lemma stopped_take: "stopped g \<Longrightarrow> stopped (stage_take cutoff pub now g)"
proof -
  assume "stopped g"
  then have s: "bq_stop (ch_queue (sg_channel g))" by (simp add: stopped_def)
  have "bq_stop (ch_queue (channel_apply cutoff pub (turn_op now (sg_channel g)) (sg_channel g)))"
    using s by (auto simp: turn_op_def queue_wake_def queue_pop_def split: consumer.splits)
  then show ?thesis by (simp add: stopped_def stage_take_def Let_def split: list.splits)
qed

lemma stage_step_stopped:
  assumes "stage_step cutoff abi opts work pub k now env p = Some q" and "stopped (pl_stage p i)"
  shows "stopped (pl_stage q i)"
proof -
  have s: "stopped (g\<lparr>sg_pc := x, sg_channel := (sg_channel g)\<lparr>ch_consumer := c\<rparr>\<rparr>) = stopped g"
    "stopped (g\<lparr>sg_pc := x\<rparr>) = stopped g" "stopped (g\<lparr>sg_stats := y\<rparr>) = stopped g" for x y c and g :: "'a demo_stage"
    by (simp_all add: stopped_def)
  show ?thesis
    using assms stopped_take [of "pl_stage p k" cutoff pub now]
    by (auto simp: stage_step_def Let_def at_demo_stage_def s stopped_push
        split: stage_pc.splits option.splits if_splits)
qed

lemma stage_step_left:
  assumes "stage_step cutoff abi opts work pub k now env p = Some q" and "sg_pc (pl_stage p i) = S_left"
  shows "sg_pc (pl_stage q i) = S_left"
  using assms
  by (auto simp: stage_step_def Let_def at_demo_stage_def push_fields_stage
      split: stage_pc.splits option.splits if_splits)

lemma stage_step_frame:
  assumes "stage_step cutoff abi opts work pub k now env p = Some q"
  shows "pl_camera q = pl_camera p" "pl_lidar q = pl_lidar p" "pl_running q = pl_running p" "pl_main q = pl_main p"
  using assms
  by (auto simp: stage_step_def Let_def at_demo_stage_def split: stage_pc.splits option.splits if_splits)

lemma main_ok_wake:
  assumes "main_ok p" and "stage_wake cutoff pub k now p = Some q"
  shows "main_ok q"
proof -
  have pc: "sg_pc (pl_stage p k) = S_pop" and q: "q = at_demo_stage k (stage_take cutoff pub now) p"
    using assms(2) by (auto simp: stage_wake_def split: if_splits)
  have st: "stopped (pl_stage p i) \<Longrightarrow> stopped (pl_stage q i)" for i
    using stopped_take [of "pl_stage p k" cutoff pub now] by (auto simp: q at_demo_stage_def)
  have le: "sg_pc (pl_stage p i) = S_left \<Longrightarrow> sg_pc (pl_stage q i) = S_left" for i
    using pc by (auto simp: q at_demo_stage_def)
  have fr: "pl_camera q = pl_camera p" "pl_lidar q = pl_lidar p" "pl_running q = pl_running p" "pl_main q = pl_main p"
    by (simp_all add: q at_demo_stage_def)
  show ?thesis using assms(1) fr st le by (auto simp: main_ok_def split: shutdown_pc.splits)
qed

lemma main_ok_stage:
  assumes "main_ok p" and "stage_step cutoff abi opts work pub k now env p = Some q"
  shows "main_ok q"
  using assms(1) stage_step_frame [OF assms(2)] stage_step_stopped [OF assms(2)] stage_step_left [OF assms(2)]
  by (auto simp: main_ok_def split: shutdown_pc.splits)

lemma main_ok_main:
  assumes "main_ok p" and "main_shutdown p = Some q"
  shows "main_ok q"
proof (cases "pl_main p")
  case (P_stop k)
  have "stopped (g\<lparr>sg_channel := channel_apply 0 (\<lambda>_ _ s. (0, s)) Ch_stop (sg_channel g)\<rparr>)" for g :: "'a demo_stage"
    by (simp add: stopped_def queue_stop_def)
  with assms P_stop show ?thesis
    by (auto simp: main_ok_def main_shutdown_def at_demo_stage_def less_Suc_eq simp del: channel_apply.simps split: if_splits)
next
  case (P_join k)
  with assms show ?thesis by (auto simp: main_ok_def main_shutdown_def less_Suc_eq split: if_splits)
qed (use assms in \<open>auto simp: main_ok_def main_shutdown_def split: if_splits\<close>)

definition pipe_inv :: "work_item list \<Rightarrow> work_item list \<Rightarrow> 's pipeline_state \<Rightarrow> bool" where
  "pipe_inv camera lidar p \<longleftrightarrow> flow_ok camera lidar p \<and> main_ok p"

lemma pipe_init: "pipeline_init abi opts camera lidar p \<Longrightarrow> pipe_inv camera lidar p"
  by (auto simp: pipeline_init_def pipeline_new_def pipe_inv_def flow_ok_def main_ok_def stage_new_def
      stage_inv_def link_ok_def merge_ok_def consumer_ok_def wake_inv_def channel_new_def set_stale_eviction_def
      set_hint_target_def queue_new_def balance_def stats_zero_def)

lemma pipe_step:
  assumes "pipe_inv camera lidar p" and "pipeline_step cutoff abi opts work pub p q"
  shows "pipe_inv camera lidar q"
  using assms(2)
proof cases
  case (pipe_camera now)
  with assms(1) flow_camera [OF _ pipe_camera] show ?thesis
    by (auto simp: pipe_inv_def main_ok_def camera_step_def at_demo_stage_def split: list.splits shutdown_pc.splits)
next
  case (pipe_lidar now)
  with assms(1) flow_lidar [OF _ pipe_lidar] show ?thesis
    by (auto simp: pipe_inv_def main_ok_def lidar_step_def at_demo_stage_def split: list.splits shutdown_pc.splits)
next
  case (pipe_stage k now env)
  with assms(1) flow_step main_ok_stage show ?thesis by (auto simp: pipe_inv_def)
next
  case (pipe_wake k now)
  with assms(1) flow_wake main_ok_wake show ?thesis by (auto simp: pipe_inv_def)
next
  case pipe_main
  with assms(1) flow_main main_ok_main show ?thesis by (auto simp: pipe_inv_def)
qed

interpretation demo_pipeline: invariant_system "pipeline_init abi opts camera lidar"
  "pipeline_step cutoff abi opts work pub" "pipe_inv camera lidar"
  for abi opts camera lidar cutoff work and pub :: "'s publisher"
  by unfold_locales (auto intro: pipe_init pipe_step)

lemma results_balance:
  assumes "stage_inv g" and "sg_pc g = S_left"
  shows "vsize (sg_in g) = rl_dequeued (stage_results g) + rl_queue_evicted_stale (stage_results g) +
    rl_pending (stage_results g)"
  using assms by (simp add: stage_inv_def stage_results_def final_stats_def Let_def balance_def queue_pending_def ac_simps)

lemma subseq_prefix: "subseq (xs @ ys) zs \<Longrightarrow> subseq xs zs"
  using subseq_order.order_trans [OF list_emb_prefix [OF subseq_order.order_refl]] .

section \<open>Runs\<close>

datatype pipe_event = E_camera u64 | E_lidar u64 | E_stage nat u64 item_env | E_main

fun pipe_event_step ::
  "u64 \<Rightarrow> fresh_abi \<Rightarrow> demo_options \<Rightarrow> (nat \<Rightarrow> work_item \<Rightarrow> u64) \<Rightarrow> 's publisher \<Rightarrow> pipe_event \<Rightarrow>
   's pipeline_state \<Rightarrow> 's pipeline_state option" where
  "pipe_event_step cutoff abi opts work pub (E_camera now) p = camera_step cutoff pub now p"
| "pipe_event_step cutoff abi opts work pub (E_lidar now) p = lidar_step cutoff pub now p"
| "pipe_event_step cutoff abi opts work pub (E_stage k now env) p =
     (if k < 5 then stage_step cutoff abi opts work pub k now env p else None)"
| "pipe_event_step cutoff abi opts work pub E_main p = main_shutdown p"

fun pipe_events ::
  "u64 \<Rightarrow> fresh_abi \<Rightarrow> demo_options \<Rightarrow> (nat \<Rightarrow> work_item \<Rightarrow> u64) \<Rightarrow> 's publisher \<Rightarrow> pipe_event list \<Rightarrow>
   's pipeline_state \<Rightarrow> 's pipeline_state option" where
  "pipe_events cutoff abi opts work pub [] p = Some p"
| "pipe_events cutoff abi opts work pub (e # es) p =
     (case pipe_event_step cutoff abi opts work pub e p of
        None \<Rightarrow> None | Some q \<Rightarrow> pipe_events cutoff abi opts work pub es q)"

lemma event_step: "pipe_event_step cutoff abi opts work pub e p = Some q \<Longrightarrow>
  pipeline_step cutoff abi opts work pub p q"
  by (cases e) (auto intro: pipeline_step.intros split: if_splits)

lemma events_reach:
  assumes "reach (pipeline_init abi opts camera lidar) (pipeline_step cutoff abi opts work pub) p"
    and "pipe_events cutoff abi opts work pub es p = Some q"
  shows "reach (pipeline_init abi opts camera lidar) (pipeline_step cutoff abi opts work pub) q"
  using assms
proof (induction es arbitrary: p)
  case (Cons e es)
  then obtain p1 where "pipe_event_step cutoff abi opts work pub e p = Some p1"
    "pipe_events cutoff abi opts work pub es p1 = Some q"
    by (auto split: option.splits)
  with Cons show ?case by (blast intro: reach_step event_step)
qed simp

text \<open>
  A small run: two frames; the first goes through vision and the estimator to mapping, the second is
  still queued when the queues are stopped.
\<close>

definition run_opts :: demo_options where
  "run_opts = demo_defaults\<lparr>dm_no_hints := True\<rparr>"

definition run_env :: item_env where
  "run_env = \<lparr>ie_t0 = 1000, ie_work_us = 0, ie_readings = Plain [0, 0, 9000000, 9000000], ie_t1 = 2000\<rparr>"

definition run_stage :: "nat \<Rightarrow> pipe_event list" where
  "run_stage k = replicate 4 (E_stage k 1000 run_env)"

definition run_events :: "pipe_event list" where
  "run_events = [E_camera 900] @ run_stage 0 @ run_stage 1 @ run_stage 4 @ [E_camera 950] @
     replicate 4 E_main @
     concat (map (\<lambda>k. [E_main, E_stage k 1000 run_env]) [0, 1]) @ replicate 4 E_main @
     [E_stage 4 1000 run_env] @ replicate 5 E_main"

definition run_start :: "(u64 \<Rightarrow> fresh_task_hint option) pipeline_state" where
  "run_start = pipeline_new demo_abi run_opts False (\<lambda>_. 0) (\<lambda>_. None) [demo_item 1 900, demo_item 2 950] []"

definition run_end :: "(u64 \<Rightarrow> fresh_task_hint option) pipeline_state" where
  "run_end = the (pipe_events 0 demo_abi run_opts (stage_work run_opts (\<lambda>_. 1) (\<lambda>_. 1)) map_write run_events run_start)"

lemma run_end_some: "\<not> Option.is_none (pipe_events 0 demo_abi run_opts (stage_work run_opts (\<lambda>_. 1) (\<lambda>_. 1))
    map_write run_events run_start)"
  by code_simp

lemma run_end_facts:
  "pl_main run_end = P_results" "pl_cam_generated run_end = 2"
  "rl_dequeued (stage_results (pl_stage run_end 0)) = 1" "rl_pending (stage_results (pl_stage run_end 0)) = 1"
  by code_simp+

lemma run_reach:
  assumes "pipe_events 0 demo_abi run_opts (stage_work run_opts (\<lambda>_. 1) (\<lambda>_. 1)) map_write es run_start = Some p"
  shows "reach (pipeline_init demo_abi run_opts [demo_item 1 900, demo_item 2 950] [])
     (pipeline_step 0 demo_abi run_opts (stage_work run_opts (\<lambda>_. 1) (\<lambda>_. 1)) map_write) p"
proof (rule events_reach [OF _ assms])
  have "pipeline_init demo_abi run_opts [demo_item 1 900, demo_item 2 950] [] run_start"
    by (auto simp: pipeline_init_def run_start_def)
  then show "reach (pipeline_init demo_abi run_opts [demo_item 1 900, demo_item 2 950] [])
     (pipeline_step 0 demo_abi run_opts (stage_work run_opts (\<lambda>_. 1) (\<lambda>_. 1)) map_write) run_start" ..
qed

lemmas run_end_reach = run_reach [OF the_some [OF run_end_some], folded run_end_def]

definition run_joining :: "(u64 \<Rightarrow> fresh_task_hint option) pipeline_state" where
  "run_joining = the (pipe_events 0 demo_abi run_opts (stage_work run_opts (\<lambda>_. 1) (\<lambda>_. 1)) map_write
     [E_camera 900, E_stage 0 1000 run_env, E_stage 0 1000 run_env, E_camera 950, E_main, E_main, E_main,
      E_main, E_main, E_main, E_main, E_main, E_main] run_start)"

text \<open>The balance of every line of the results.\<close>

lemma demo_accounted:
  assumes "reach (pipeline_init abi opts camera lidar) (pipeline_step cutoff abi opts work pub) p"
    and "pl_main p = P_results" and "r = (\<lambda>k. stage_results (pl_stage p k))"
  shows "pl_cam_generated p = vsize camera \<and> pl_lidar_generated p = vsize lidar \<and>
         pl_cam_generated p = rl_dequeued (r 0) + rl_queue_evicted_stale (r 0) + rl_pending (r 0) \<and>
         rl_processed (r 0) = rl_dequeued (r 1) + rl_queue_evicted_stale (r 1) + rl_pending (r 1) \<and>
         pl_lidar_generated p = rl_dequeued (r 2) + rl_queue_evicted_stale (r 2) + rl_pending (r 2) \<and>
         rl_processed (r 2) = rl_dequeued (r 3) + rl_queue_evicted_stale (r 3) + rl_pending (r 3) \<and>
         rl_processed (r 1) + rl_processed (r 3) =
           rl_dequeued (r 4) + rl_queue_evicted_stale (r 4) + rl_pending (r 4) \<and>
         subseq (sg_out (pl_stage p 0)) camera \<and> subseq (sg_out (pl_stage p 1)) (sg_out (pl_stage p 0)) \<and>
         subseq (sg_out (pl_stage p 2)) lidar \<and> subseq (sg_out (pl_stage p 3)) (sg_out (pl_stage p 2))"
proof -
  have inv: "pipe_inv camera lidar p" using assms(1) by (rule demo_pipeline.reach_invar)
  then have fl: "flow_ok camera lidar p" and done1: "pl_camera p = []" "pl_lidar p = []"
    and left: "\<And>k. k < 5 \<Longrightarrow> sg_pc (pl_stage p k) = S_left"
    using assms(2) by (simp_all add: pipe_inv_def main_ok_def)
  have bal: "vsize (sg_in (pl_stage p k)) = rl_dequeued (r k) + rl_queue_evicted_stale (r k) + rl_pending (r k)"
    if "k < 5" for k
    unfolding assms(3) by (rule results_balance [OF flow_stage [OF fl that] left [OF that]])
  have proc: "rl_processed (r k) = st_processed (sg_stats (pl_stage p k))" for k
    by (simp add: assms(3) stage_results_def final_stats_def Let_def)
  have gen: "sg_in (pl_stage p 0) = camera" "sg_in (pl_stage p 2) = lidar"
    "pl_cam_generated p = vsize (sg_in (pl_stage p 0))" "pl_lidar_generated p = vsize (sg_in (pl_stage p 2))"
    using fl done1 by (simp_all add: flow_ok_def)
  have order: "subseq (sg_out (pl_stage p k)) (sg_in (pl_stage p k))" if "k < 5" for k
    using flow_stage [OF fl that] by (auto simp: stage_inv_def intro: subseq_prefix)
  have link: "link_ok (pl_stage p 0) (pl_stage p 1)" "link_ok (pl_stage p 2) (pl_stage p 3)"
    "merge_ok (pl_stage p 1) (pl_stage p 3) (pl_stage p 4)" using fl by (simp_all add: flow_ok_def)
  have pass: "subseq (sg_in (pl_stage p 1)) (sg_out (pl_stage p 0))" "subseq (sg_in (pl_stage p 3)) (sg_out (pl_stage p 2))"
    "vsize (sg_in (pl_stage p 1)) = rl_processed (r 0)" "vsize (sg_in (pl_stage p 3)) = rl_processed (r 2)"
    "vsize (sg_in (pl_stage p 4)) = rl_processed (r 1) + rl_processed (r 3)"
    using link left by (simp_all add: link_ok_def merge_ok_def proc)
  have "subseq (sg_out (pl_stage p 1)) (sg_out (pl_stage p 0))" "subseq (sg_out (pl_stage p 3)) (sg_out (pl_stage p 2))"
    using subseq_order.order_trans [OF order [of 1] pass(1)] subseq_order.order_trans [OF order [of 3] pass(2)]
    by simp_all
  then show ?thesis
    using gen bal [of 0] bal [of 1] bal [of 2] bal [of 3] bal [of 4] pass(3-5) order [of 0] order [of 2] by simp
qed

section \<open>Properties\<close>

text \<open>
  C15: the printed results of the demo pipeline account for every item. However the generators, the
  five stage threads and \<open>main\<close> interleave, when the results are printed every camera frame and
  every LiDAR scan was generated and is in exactly one column of its first stage (dequeued, evicted
  as stale by a producer, or pending in the stopped queue), every item a stage processed is in one
  column of the next stage, and mapping accounts for what the estimator and the registration passed
  on. Vision takes frames in camera order, the estimator in the order vision took them, and likewise
  for the two LiDAR stages: nothing is duplicated or reordered.
\<close>

theorem demo_accounting:
  assumes "reach (pipeline_init abi opts camera lidar) (pipeline_step cutoff abi opts work pub) p"
    and "pl_main p = P_results" and "r = (\<lambda>k. stage_results (pl_stage p k))"
  shows "pl_cam_generated p = vsize camera \<and> pl_lidar_generated p = vsize lidar \<and>
         pl_cam_generated p = rl_dequeued (r 0) + rl_queue_evicted_stale (r 0) + rl_pending (r 0) \<and>
         rl_processed (r 0) = rl_dequeued (r 1) + rl_queue_evicted_stale (r 1) + rl_pending (r 1) \<and>
         pl_lidar_generated p = rl_dequeued (r 2) + rl_queue_evicted_stale (r 2) + rl_pending (r 2) \<and>
         rl_processed (r 2) = rl_dequeued (r 3) + rl_queue_evicted_stale (r 3) + rl_pending (r 3) \<and>
         rl_processed (r 1) + rl_processed (r 3) =
           rl_dequeued (r 4) + rl_queue_evicted_stale (r 4) + rl_pending (r 4) \<and>
         subseq (sg_out (pl_stage p 0)) camera \<and> subseq (sg_out (pl_stage p 1)) (sg_out (pl_stage p 0)) \<and>
         subseq (sg_out (pl_stage p 2)) lidar \<and> subseq (sg_out (pl_stage p 3)) (sg_out (pl_stage p 2))"
  using assms by (rule demo_accounted)

theorem demo_accounting_witness:
  "pl_cam_generated run_end = 2 \<and> rl_pending (stage_results (pl_stage run_end 0)) = 1 \<and>
   pl_cam_generated run_end = rl_dequeued (stage_results (pl_stage run_end 0)) +
     rl_queue_evicted_stale (stage_results (pl_stage run_end 0)) + rl_pending (stage_results (pl_stage run_end 0))"
  using demo_accounting [OF run_end_reach run_end_facts(1) refl] run_end_facts(2,4) by blast

definition leave_rank :: "stage_pc \<Rightarrow> nat" where
  "leave_rank pc = (case pc of S_item w \<Rightarrow> 3 | S_push w \<Rightarrow> 2 | S_test \<Rightarrow> 1 | S_pop \<Rightarrow> 1 | S_left \<Rightarrow> 0)"

lemma take_stopped:
  assumes "stage_inv g" and "sg_pc g = S_pop" and "stopped g"
  shows "sg_pc (stage_take cutoff pub now g) = S_left"
proof -
  have "consumer_ok S_pop (ch_consumer (sg_channel g))" using assms(1,2) by (simp add: stage_inv_def)
  then show ?thesis
    by (cases rule: take_cases [where cutoff = cutoff and pub = pub and now = now])
      (use assms(3) in \<open>simp_all add: stage_take_def Let_def stopped_def del: channel_apply.simps\<close>)
qed

text \<open>
  C16: the shutdown of the demo pipeline ends. Once \<open>main\<close> is joining, a step of a stage thread
  always brings that thread closer to its end (at most three steps remain: finish the item, pass it
  on, leave) and changes no other thread's distance, and a thread that has not left can take a step
  unless it is still computing on its item. A thread asleep in \<open>pop\<close> takes a step only if it was notified, and
  each one was: none needs a spurious wake-up, none takes another item, and every join returns.
\<close>

theorem demo_shutdown:
  assumes "reach (pipeline_init abi opts camera lidar) (pipeline_step cutoff abi opts work pub) p"
    and "pl_main p = P_join k" and "j < 5"
  shows "(case stage_step cutoff abi opts work pub j now env p of
            None \<Rightarrow> sg_pc (pl_stage p j) = S_left \<or>
              (\<exists>w. sg_pc (pl_stage p j) = S_item w \<and>
                stage_item cutoff (stage_config abi opts j) (dm_drop_stale opts)
                  (env\<lparr>ie_work_us := work j w\<rparr>) w (sg_stats (pl_stage p j)) = None)
          | Some q \<Rightarrow> leave_rank (sg_pc (pl_stage q j)) < leave_rank (sg_pc (pl_stage p j)) \<and>
              (\<forall>i. i \<noteq> j \<longrightarrow> sg_pc (pl_stage q i) = sg_pc (pl_stage p i)))"
proof -
  have inv: "pipe_inv camera lidar p" using assms(1) by (rule demo_pipeline.reach_invar)
  then have st: "\<not> pl_running p" "stopped (pl_stage p j)" and g: "stage_inv (pl_stage p j)"
    using assms(2,3) by (auto simp: pipe_inv_def main_ok_def flow_ok_def)
  show ?thesis
  proof (cases "sg_pc (pl_stage p j)")
    case S_pop
    have "wake_inv (sg_channel (pl_stage p j))" using g by (simp add: stage_inv_def)
    then have "ch_consumer (sg_channel (pl_stage p j)) \<noteq> Asleep False"
      using st(2) by (auto simp: wake_inv_def stopped_def)
    with S_pop take_stopped [OF g S_pop st(2), of cutoff pub now] show ?thesis
      by (simp add: stage_step_def Let_def at_demo_stage_def leave_rank_def)
  next
    case (S_push w)
    have "stage_output j \<noteq> Some j" by (simp add: stage_output_def)
    with S_push show ?thesis
      by (auto simp: stage_step_def Let_def at_demo_stage_def leave_rank_def push_fields_stage split: option.splits)
  qed (use st(1) in \<open>auto simp: stage_step_def Let_def at_demo_stage_def leave_rank_def split: option.splits\<close>)
qed

lemma run_joining_facts:
  "\<not> Option.is_none (pipe_events 0 demo_abi run_opts (stage_work run_opts (\<lambda>_. 1) (\<lambda>_. 1)) map_write
     [E_camera 900, E_stage 0 1000 run_env, E_stage 0 1000 run_env, E_camera 950, E_main, E_main, E_main,
      E_main, E_main, E_main, E_main, E_main, E_main] run_start)"
  "pl_main run_joining = P_join 0" "sg_pc (pl_stage run_joining 1) = S_test"
  by code_simp+

lemmas run_joining_reach = run_reach [OF the_some [OF run_joining_facts(1)], folded run_joining_def]

theorem demo_shutdown_witness:
  "\<exists>q. stage_step 0 demo_abi run_opts (stage_work run_opts (\<lambda>_. 1) (\<lambda>_. 1)) map_write 1 1000 run_env run_joining = Some q \<and>
     leave_rank (sg_pc (pl_stage q 1)) < 1"
  using demo_shutdown [OF run_joining_reach run_joining_facts(2), where j = 1 and now = 1000 and env = run_env]
    run_joining_facts(3)
  by (auto simp: leave_rank_def split: option.splits)

end
