(* ===== verification/Demo_Report.thy ===== *)
theory Demo_Report
  imports Demo_Pipeline
begin

text \<open>
  What \<open>main\<close> of \<^verbatim>\<open>src/demo/slam_pipeline_demo.cpp\<close> prints besides the lines of the stages (lines
  1008 to 1055), the hog threads, and the run from the accepted options to the results: the frames the
  camera generator offers go through the pipeline of \<open>Demo_Pipeline\<close>.
\<close>

section \<open>Hog threads\<close>

text \<open>
  A load of \<open>running\<close> and the CPU times read by \<open>busy_work_us\<close>, once for each pass; the result is the
  number of completed passes, \<open>None\<close> if the inputs end first.
\<close>

fun hog_thread :: "(bool \<times> u64 list) list \<Rightarrow> nat \<Rightarrow> nat option" where
  "hog_thread [] n = None"
| "hog_thread ((running, readings) # rs) n =
     (if \<not> running then Some n
      else (case busy_work_us 20000 readings of None \<Rightarrow> None | Some _ \<Rightarrow> hog_thread rs (Suc n)))"

section \<open>Lines of the report\<close>

record measurement_line =
  ml_start_ns :: u64
  ml_end_ns :: u64
  ml_window_ns :: u64
  ml_elapsed_ns :: u64
  ml_drain_elapsed_ns :: u64

definition measurement_of :: "demo_options \<Rightarrow> u64 \<Rightarrow> u64 \<Rightarrow> measurement_line" where
  "measurement_of opts workload_start finished_ns =
     (let workload_end = workload_start + of_int (dm_duration_s opts) * 1000000000
      in \<lparr>ml_start_ns = workload_start, ml_end_ns = workload_end,
          ml_window_ns = workload_end - workload_start,
          ml_elapsed_ns = finished_ns - workload_start,
          ml_drain_elapsed_ns = (if finished_ns > workload_end then finished_ns - workload_end else 0)\<rparr>)"

text \<open>The IMU thread has no queue: its line counts the ticks as offered.\<close>

definition imu_queue :: "demo_options \<Rightarrow> stage_stats \<Rightarrow> window_queue_stats" where
  "imu_queue opts st_imu = \<lparr>wq_offered = of_int (dm_duration_s opts) * 200,
     wq_dequeued = ws_started (st_window st_imu), wq_evicted = 0\<rparr>"

definition window_lines :: "demo_options \<Rightarrow> stage_stats \<Rightarrow> 's pipeline_state \<Rightarrow> (string \<times> window_report) list" where
  "window_lines opts st_imu p =
     (let line = (\<lambda>name k. (name, print_window_stage (final_stats (pl_stage p k))
            (bq_window (ch_queue (sg_channel (pl_stage p k))))))
      in if dm_window_stats opts
         then [(''imu_prop'', print_window_stage st_imu (imu_queue opts st_imu)),
               line ''vision_fe'' 0, line ''state_est'' 1] @
              (if lidar_points_for_mode (dm_lidar_mode opts) \<noteq> 0
               then [line ''lidar_pre'' 2, line ''lidar_reg'' 3] else []) @
              [line ''mapping_be'' 4]
         else [])"

record burst_line =
  bl_injected :: int
  bl_first_seq :: u64
  bl_latest_seq :: u64
  bl_delivery_ms :: u64

definition burst_of :: "demo_options \<Rightarrow> burst_line" where
  "burst_of opts =
     (let count = dm_camera_burst_count opts; d = camera_burst_delivery_index (dm_camera_burst_at_ms opts)
      in \<lparr>bl_injected = count,
          bl_first_seq = (if count > 0 then d + 2 - of_int count else 0),
          bl_latest_seq = (if count > 0 then d + 1 else 0),
          bl_delivery_ms = (if count > 0 then d * camera_period_ns div 1000000 else 0)\<rparr>)"

section \<open>Lemmas\<close>

text \<open>A hog stops at the first pass that finds \<open>running\<close> cleared, having completed the passes before.\<close>

lemma hog_thread_passes:
  assumes "\<forall>(running, readings) \<in> set rs. running \<and> busy_work_us 20000 readings \<noteq> None"
  shows "hog_thread (rs @ (False, busy) # rest) n = Some (n + length rs)"
  using assms by (induction rs arbitrary: n) (auto split: option.splits)

text \<open>With a window that does not wrap, the printed window is the duration and the elapsed time splits.\<close>

lemma measurement_exact:
  assumes "fits start (dm_duration_s opts) p" and "0 < unat p" and "start \<le> finished"
  shows "unat (ml_window_ns (measurement_of opts start finished)) = nat (dm_duration_s opts) * 1000000000"
    and "ml_end_ns (measurement_of opts start finished) \<le> finished \<Longrightarrow>
      unat (ml_elapsed_ns (measurement_of opts start finished)) =
        unat (ml_window_ns (measurement_of opts start finished)) +
        unat (ml_drain_elapsed_ns (measurement_of opts start finished))"
proof -
  let ?e = "start + of_int (dm_duration_s opts) * 1000000000"
  have e: "unat ?e = unat start + nat (dm_duration_s opts) * 1000000000" by (rule fits_end [OF assms(1,2)])
  then have le: "start \<le> ?e" by (simp add: word_le_nat_alt)
  have w: "unat (?e - start) = nat (dm_duration_s opts) * 1000000000" using e unat_sub [OF le] by linarith
  then show "unat (ml_window_ns (measurement_of opts start finished)) = nat (dm_duration_s opts) * 1000000000"
    by (simp add: measurement_of_def Let_def)
  assume "ml_end_ns (measurement_of opts start finished) \<le> finished"
  then have fin: "?e \<le> finished" by (simp add: measurement_of_def Let_def)
  then have "unat finished \<ge> unat ?e" by (simp add: word_le_nat_alt)
  moreover have "unat (finished - start) = unat finished - unat start" by (rule unat_sub [OF assms(3)])
  moreover have "unat (if finished > ?e then finished - ?e else 0) = unat finished - unat ?e"
    using fin unat_sub [OF fin] by (auto simp: not_less)
  ultimately show "unat (ml_elapsed_ns (measurement_of opts start finished)) =
        unat (ml_window_ns (measurement_of opts start finished)) +
        unat (ml_drain_elapsed_ns (measurement_of opts start finished))"
    using e w by (simp add: measurement_of_def Let_def)
qed

text \<open>The burst line names exactly the frames that the generator marks and pushes together.\<close>

lemma burst_line_frames:
  assumes "durations_ok (dm_duration_s opts) (dm_hog_n opts) (dm_camera_burst_count opts) (dm_camera_burst_at_ms opts)"
    and "camera_burst_ok (dm_duration_s opts) (dm_camera_burst_count opts) (dm_camera_burst_at_ms opts)"
    and "dm_duration_s opts \<le> 2147483647" and "dm_camera_burst_count opts \<le> 2147483647"
    and "fits start (dm_duration_s opts) camera_period_ns"
    and "unat (camera_frame_count (dm_duration_s opts)) < fuel" and "dm_camera_burst_count opts > 0"
  shows "\<exists>s. camera_gen fuel (dm_duration_s opts) (dm_camera_burst_count opts) (dm_camera_burst_at_ms opts) start = Some s \<and>
    map wi_seq (filter (\<lambda>w. wi_burst_id w \<noteq> 0) (map snd (cg_pushed s))) =
      map of_nat [unat (bl_first_seq (burst_of opts))..<Suc (unat (bl_latest_seq (burst_of opts)))] \<and>
    length (filter (\<lambda>w. wi_burst_id w \<noteq> 0) (map snd (cg_pushed s))) = nat (bl_injected (burst_of opts))"
proof -
  let ?c = "dm_camera_burst_count opts" and ?D = "camera_burst_delivery_index (dm_camera_burst_at_ms opts)"
  let ?n = "unat (camera_frame_count (dm_duration_s opts))"
  define f d where "f = unat (burst_first_index ?c (dm_camera_burst_at_ms opts))" and "d = unat ?D"
  obtain s where s: "camera_gen fuel (dm_duration_s opts) ?c (dm_camera_burst_at_ms opts) start = Some s"
    and pushed: "cg_pushed s = map (camera_push ?c f d start) [0..<?n]"
    using camera_gen_delivers [OF assms(1-5) refl assms(6) f_def d_def] by blast
  have c: "of_int ?c \<le> ?D + 1" "?D < camera_frame_count (dm_duration_s opts)"
    using assms(2,7) by (simp_all add: camera_burst_ok_def not_less not_le)
  have dn: "d < ?n" using c(2) by (simp add: d_def word_less_nat_alt)
  have D1: "unat (?D + 1) = Suc d" using c(2) unat_Suc_u64 [of ?D] by (auto simp: d_def word_less_nat_alt)
  have "(of_int ?c :: u64) = of_nat (nat ?c)" using assms(7) by simp
  moreover have "nat ?c < 18446744073709551616" using assms(4) by simp
  ultimately have uc: "unat (of_int ?c :: u64) = nat ?c" by (simp only: unat_of_nat_u64)
  have f: "f = Suc d - nat ?c" "nat ?c \<le> Suc d"
    using unat_sub [OF c(1)] c(1) assms(7) by (simp_all add: f_def burst_first_index_def D1 uc word_le_nat_alt)
  have fs: "?D + 2 - of_int ?c = (?D + 1 - of_int ?c) + 1" by simp
  have f1: "unat (?D + 1 - of_int ?c) = f" using f unat_sub [OF c(1)] by (simp add: D1 uc)
  then have "?D + 1 - of_int ?c < camera_frame_count (dm_duration_s opts)"
    using f dn assms(7) by (simp add: word_less_nat_alt)
  from unat_Suc_u64 [OF this] have first: "unat (?D + 2 - of_int ?c) = Suc f" unfolding fs f1 by simp
  have marked: "filter (\<lambda>w. wi_burst_id w \<noteq> 0) (map snd (cg_pushed s)) = map (camera_frame ?c f d start) [f..<Suc d]"
  proof -
    have "[0..<?n] = [0..<f] @ [f..<Suc d] @ [Suc d..<?n]"
      using dn f assms(7) upt_add_eq_append [of 0 f "?n - f"] upt_add_eq_append [of f "Suc d" "?n - Suc d"] by simp
    moreover have "filter (\<lambda>i. f \<le> i \<and> i \<le> d) ([0..<f] @ [f..<Suc d] @ [Suc d..<?n]) = [f..<Suc d]"
      by (auto simp: filter_empty_conv filter_id_conv)
    ultimately show ?thesis
      using assms(7) by (simp add: pushed filter_map o_def camera_push_def camera_frame_def cong: filter_cong)
  qed
  have "map wi_seq (map (camera_frame ?c f d start) [f..<Suc d]) = map of_nat [Suc f..<Suc (Suc d)]"
    by (simp add: camera_frame_def o_def map_Suc_upt [symmetric] del: map_Suc_upt upt_Suc)
  moreover have "unat (bl_first_seq (burst_of opts)) = Suc f" "unat (bl_latest_seq (burst_of opts)) = Suc d"
    "nat (bl_injected (burst_of opts)) = Suc d - f"
    using assms(7) first D1 f by (simp_all add: burst_of_def Let_def)
  ultimately show ?thesis using s by (intro exI [of _ s]) (simp only: marked length_map length_upt)
qed

section \<open>A run of the program\<close>

lemma pipe_results_generated:
  assumes "pipe_inv camera lidar p" and "pl_main p = P_results"
  shows "pl_cam_generated p = vsize camera" and "pl_lidar_generated p = vsize lidar"
  using assms by (auto simp: pipe_inv_def flow_ok_def main_ok_def)

text \<open>
  From options that \<open>main\<close> accepts to the results: the program starts, and however its threads
  interleave, the results report every frame of the run and, with LiDAR, ten scans a second.
\<close>

lemma demo_run_generated:
  assumes "durations_ok (dm_duration_s opts) (dm_hog_n opts) (dm_camera_burst_count opts) (dm_camera_burst_at_ms opts)"
    and "camera_burst_ok (dm_duration_s opts) (dm_camera_burst_count opts) (dm_camera_burst_at_ms opts)"
    and "dm_duration_s opts \<le> 2147483647" and "dm_camera_burst_count opts \<le> 2147483647"
    and fc: "fits (now + 100000000) (dm_duration_s opts) camera_period_ns"
    and fl: "fits (now + 100000000) (dm_duration_s opts) lidar_period_ns"
    and fuel: "unat (camera_frame_count (dm_duration_s opts)) < fuel" "nat (dm_duration_s opts) * 10 < fuel"
  obtains p0 where "pipeline_start fuel abi opts mapped pids s now = Some p0"
    and "\<And>p. reach (\<lambda>p. p = p0) (pipeline_step cutoff abi opts work pub) p \<Longrightarrow> pl_main p = P_results \<Longrightarrow>
      pl_cam_generated p = camera_frame_count (dm_duration_s opts) \<and>
      pl_lidar_generated p = (if lidar_points_for_mode (dm_lidar_mode opts) = 0 then 0
        else of_nat (nat (dm_duration_s opts) * 10))"
proof -
  obtain cam where cam: "camera_gen fuel (dm_duration_s opts) (dm_camera_burst_count opts)
      (dm_camera_burst_at_ms opts) (now + 100000000) = Some cam"
    and lc: "length (cg_pushed cam) = unat (camera_frame_count (dm_duration_s opts))"
    using camera_gen_delivers [OF assms(1-4) fc refl fuel(1) refl refl] by auto
  obtain lid where lid: "lidar_gen fuel (dm_duration_s opts) (dm_lidar_mode opts) (now + 100000000) = Some lid"
    and ll: "vsize (lg_pushed lid) = (if lidar_points_for_mode (dm_lidar_mode opts) = 0 then 0
        else of_nat (nat (dm_duration_s opts) * 10))"
  proof (cases "lidar_points_for_mode (dm_lidar_mode opts) = 0")
    case True
    then show ?thesis by (intro that) (auto simp: lidar_gen_def vsize_def)
  next
    case False
    from lidar_delivers [OF fl False refl fuel(2)] False that show ?thesis by (auto simp: vsize_def)
  qed
  define p0 where "p0 = pipeline_new abi opts mapped pids s (map snd (cg_pushed cam)) (lg_pushed lid)"
  have "pipeline_start fuel abi opts mapped pids s now = Some p0"
    by (simp add: pipeline_start_def Let_def cam lid p0_def)
  moreover have inv: "pipe_inv (map snd (cg_pushed cam)) (lg_pushed lid) p"
    if "reach (\<lambda>p. p = p0) (pipeline_step cutoff abi opts work pub) p" for p
    using that
  proof (induction rule: reach.induct)
    case (reach_init p)
    then show ?case unfolding p0_def by (intro pipe_init [of abi opts]) (auto simp: pipeline_init_def)
  next
    case (reach_step p q)
    then show ?case by (blast intro: pipe_step)
  qed
  moreover have "vsize (map snd (cg_pushed cam)) = camera_frame_count (dm_duration_s opts)"
    by (simp add: vsize_def lc)
  ultimately show ?thesis using that pipe_results_generated ll by metis
qed

end
