(* ===== verification/Demo_Main.thy ===== *)
theory Demo_Main
  imports Demo_Report
begin

text \<open>
  \<open>main\<close> of \<^verbatim>\<open>src/demo/slam_pipeline_demo.cpp\<close> from the command line to the report: the check of
  the hint map, the start of the threads, the wait for their identities, the IMU thread beside the
  pipeline of \<open>Demo_Pipeline\<close>, and the values of all printed lines. The threads of the stages are
  numbered as there; 5 is the IMU thread.
\<close>

section \<open>Start\<close>

text \<open>
  \<open>rc\<close> is the answer of \<open>freshqos_open\<close>, asked only for \<open>--pin\<close>. The result says whether the map is
  open, or is the exit status.
\<close>

definition demo_open :: "demo_options \<Rightarrow> int \<Rightarrow> int + bool" where
  "demo_open opts rc =
     (if \<not> dm_no_hints opts \<and> rc \<noteq> 0 then Inl 1 else Inr (\<not> dm_no_hints opts))"

text \<open>What the system answers while the program starts.\<close>

record 's demo_env =
  mn_open_rc :: int
  mn_slots :: 's
  mn_name_rc :: "nat \<Rightarrow> int"
  mn_sched_rc :: "nat \<Rightarrow> int"
  mn_hog_name_rc :: "nat \<Rightarrow> int"
  mn_hog_sched_rc :: "nat \<Rightarrow> int"
  mn_actual_policy :: int
  mn_self :: "nat \<Rightarrow> u64"
  mn_loads :: "nat \<Rightarrow> u64 list"
  mn_now :: u64
  mn_imu :: "imu_env list"

definition demo_lidar :: "demo_options \<Rightarrow> bool" where
  "demo_lidar opts \<longleftrightarrow> lidar_points_for_mode (dm_lidar_mode opts) \<noteq> 0"

definition demo_stages :: "demo_options \<Rightarrow> nat list" where
  "demo_stages opts = [0, 1] @ (if demo_lidar opts then [2, 3] else []) @ [4]"

text \<open>
  The identities the stage threads store. A thread that cannot set its name or policy ends the process
  with a failure status: \<open>None\<close>.
\<close>

definition demo_pids :: "demo_options \<Rightarrow> 's demo_env \<Rightarrow> (nat \<Rightarrow> u64) option" where
  "demo_pids opts env =
     (if list_all (\<lambda>k. stage_start (mn_name_rc env k) (dm_ext_policy opts) (mn_sched_rc env k) (mn_self env k) \<noteq> None)
           (demo_stages opts)
      then Some (\<lambda>k. if k \<in> set (demo_stages opts) then mn_self env k else 0) else None)"

definition hog_start :: "int \<Rightarrow> int \<Rightarrow> int \<Rightarrow> unit option" where
  "hog_start name_rc ext_policy sched_rc =
     (case set_thread_name name_rc of
        None \<Rightarrow> None
      | Some _ \<Rightarrow> (case set_sched_ext_policy ext_policy sched_rc of None \<Rightarrow> None | Some _ \<Rightarrow> Some ()))"

definition demo_hogs :: "demo_options \<Rightarrow> 's demo_env \<Rightarrow> bool" where
  "demo_hogs opts env \<longleftrightarrow>
     list_all (\<lambda>i. hog_start (mn_hog_name_rc env i) (dm_ext_policy opts) (mn_hog_sched_rc env i) \<noteq> None)
       [0..<nat (dm_hog_n opts)]"

text \<open>The waits, in order, and the names of the warnings they print.\<close>

definition demo_waits :: "demo_options \<Rightarrow> (string \<times> nat) list" where
  "demo_waits opts =
     [(''imu_prop'', 5), (''vision_fe'', 0), (''state_est'', 1), (''mapping_be'', 4)] @
     (if demo_lidar opts then [(''lidar_pre'', 2), (''lidar_reg'', 3)] else [])"

definition demo_warnings :: "demo_options \<Rightarrow> 's demo_env \<Rightarrow> string list" where
  "demo_warnings opts env =
     map fst (filter (\<lambda>(name, k). \<not> wait_for_pid (mn_loads env k)) (demo_waits opts))"

record 's demo_run =
  dr_opts :: demo_options
  dr_warnings :: "string list"
  dr_workload_start :: u64
  dr_imu_pid :: u64
  dr_imu :: "'s imu_state"
  dr_pipeline :: "'s pipeline_state"

text \<open>
  \<open>Inl\<close> is an exit status; \<open>None\<close> that a loop needs more fuel or readings. The IMU thread touches its own
  statistics and the slot of its own identity only, so its run is given whole.
\<close>

definition demo_start ::
  "nat \<Rightarrow> fresh_abi \<Rightarrow> 's publisher \<Rightarrow> string list \<Rightarrow> 's demo_env \<Rightarrow> (int + 's demo_run) option" where
  "demo_start fuel abi pub args env =
     (case demo_parse args of Inl e \<Rightarrow> Some (Inl e) | Inr opts \<Rightarrow>
     (case demo_open opts (mn_open_rc env) of Inl e \<Rightarrow> Some (Inl e) | Inr mapped \<Rightarrow>
     (case imu_start (mn_name_rc env 5) (dm_ext_policy opts) (mn_sched_rc env 5) (mn_actual_policy env)
             (mn_self env 5) stats_zero of None \<Rightarrow> Some (Inl 1) | Some (pid_imu, st_imu) \<Rightarrow>
     (case demo_pids opts env of None \<Rightarrow> Some (Inl 1) | Some pids \<Rightarrow>
        if \<not> demo_hogs opts env then Some (Inl 1)
        else
          (case imu_thread fuel (metrics_end_ns opts (mn_now env)) (cfg_imu abi) mapped pub pid_imu
                  (dm_imu_work_us opts) (dm_duration_s opts) (mn_now env + 100000000) (mn_imu env)
                  (mn_slots env) st_imu of None \<Rightarrow> None | Some im \<Rightarrow>
          (case pipeline_start fuel abi opts mapped pids (mn_slots env) (mn_now env) of None \<Rightarrow> None
           | Some p \<Rightarrow> Some (Inr \<lparr>dr_opts = opts, dr_warnings = demo_warnings opts env,
               dr_workload_start = mn_now env + 100000000, dr_imu_pid = pid_imu, dr_imu = im,
               dr_pipeline = p\<rparr>)))))))"

section \<open>The report\<close>

record demo_report =
  dp_measurement :: "measurement_line option"
  dp_imu_identity :: "(u64 \<times> int \<times> u32) option"
  dp_window :: "(string \<times> window_report) list"
  dp_focus :: "(string \<times> u64 \<times> bool) list"
  dp_generated :: "u64 \<times> u64 \<times> u64"
  dp_burst :: burst_line
  dp_configuration :: "u64 \<times> u64 \<times> u64 \<times> u64 \<times> u64 \<times> u32"
  dp_imu :: "u64 \<times> u64 \<times> u64"
  dp_stages :: "(string \<times> result_line) list"

definition focus_line :: "string \<Rightarrow> stage_stats \<Rightarrow> stage_cfg \<Rightarrow> (string \<times> u64 \<times> bool) list" where
  "focus_line name st cfg = (case print_focus_job st cfg of None \<Rightarrow> [] | Some (age, late) \<Rightarrow> [(name, age, late)])"

definition focus_lines ::
  "fresh_abi \<Rightarrow> demo_options \<Rightarrow> 's pipeline_state \<Rightarrow> (string \<times> u64 \<times> bool) list" where
  "focus_lines abi opts p =
     (if dm_window_stats opts
      then focus_line ''vision_fe'' (final_stats (pl_stage p 0)) (cfg_vis abi opts) @
           focus_line ''state_est'' (final_stats (pl_stage p 1)) (cfg_est abi)
      else [])"

definition stage_lines :: "demo_options \<Rightarrow> 's pipeline_state \<Rightarrow> (string \<times> result_line) list" where
  "stage_lines opts p =
     [(''vision_fe'', stage_results (pl_stage p 0)), (''state_est'', stage_results (pl_stage p 1))] @
     (if demo_lidar opts
      then [(''lidar_pre'', stage_results (pl_stage p 2)), (''lidar_reg'', stage_results (pl_stage p 3))]
      else []) @
     [(''mapping_be'', stage_results (pl_stage p 4))]"

definition demo_report_of ::
  "fresh_abi \<Rightarrow> 's demo_run \<Rightarrow> u64 \<Rightarrow> 's pipeline_state \<Rightarrow> demo_report" where
  "demo_report_of abi run finished_ns p =
     (let opts = dr_opts run; st = is_stats (dr_imu run)
      in \<lparr>dp_measurement = (if dm_window_stats opts
            then Some (measurement_of opts (dr_workload_start run) finished_ns) else None),
          dp_imu_identity = (if dm_window_stats opts
            then Some (dr_imu_pid run, st_actual_policy st, sc_stage_id (cfg_imu abi)) else None),
          dp_window = window_lines opts st p,
          dp_focus = focus_lines abi opts p,
          dp_generated = (st_processed st, pl_cam_generated p, pl_lidar_generated p),
          dp_burst = burst_of opts,
          dp_configuration = (dm_vision_budget_us opts, dm_vision_work_us opts, dm_vision_deadline_us opts,
            dm_imu_work_us opts, dm_lidar_pre_budget_us opts, sc_class_id (cfg_lpre abi opts)),
          dp_imu = (st_processed st, st_late st, st_cpu_ns st div 1000),
          dp_stages = stage_lines opts p\<rparr>)"

section \<open>Lemmas\<close>

lemma demo_parse_checked:
  assumes "demo_parse args = Inr opts"
  shows "durations_ok (dm_duration_s opts) (dm_hog_n opts) (dm_camera_burst_count opts) (dm_camera_burst_at_ms opts)"
    and "camera_burst_ok (dm_duration_s opts) (dm_camera_burst_count opts) (dm_camera_burst_at_ms opts)"
    and "dm_pin_dir opts = None \<longleftrightarrow> dm_no_hints opts" and "demo_ok opts"
proof -
  have d: "demo_args args demo_defaults = Inr opts"
    and c: "durations_ok (dm_duration_s opts) (dm_hog_n opts) (dm_camera_burst_count opts) (dm_camera_burst_at_ms opts)"
      "camera_burst_ok (dm_duration_s opts) (dm_camera_burst_count opts) (dm_camera_burst_at_ms opts)"
      "dm_pin_dir opts = None \<longleftrightarrow> dm_no_hints opts"
    using assms by (auto simp: demo_parse_def split: sum.splits if_splits)
  show "demo_ok opts"
    by (rule demo_args_ok [OF d])
      (simp add: demo_ok_def demo_defaults_def INT_MAX_def us_limit_def word_le_nat_alt)
  from c show "durations_ok (dm_duration_s opts) (dm_hog_n opts) (dm_camera_burst_count opts) (dm_camera_burst_at_ms opts)"
    "camera_burst_ok (dm_duration_s opts) (dm_camera_burst_count opts) (dm_camera_burst_at_ms opts)"
    "dm_pin_dir opts = None \<longleftrightarrow> dm_no_hints opts" by simp_all
qed

text \<open>A clock below \<open>2 ^ 63\<close> (292 years after its epoch) leaves room for every accepted duration.\<close>

lemma fits_accepted:
  assumes "0 < d" and "d \<le> INT_MAX" and "unat now < 9223372036854775808" and "unat p \<le> 100000000"
  shows "fits (now + 100000000) d p"
proof -
  have "unat (now + 100000000) = unat now + 100000000"
    using assms(3) by (simp add: unat_word_ariths)
  then show ?thesis using assms by (simp add: fits_def INT_MAX_def)
qed

lemma frame_fuel:
  assumes "0 < d" and "d \<le> INT_MAX" and "nat d * 200 < fuel"
  shows "unat (camera_frame_count d) < fuel"
proof -
  have "unat (camera_frame_count d) = (nat d * 1000000000 + 33000000 - 1) div 33000000"
    using assms(1,2) by (intro camera_frame_count_exact) (simp_all add: INT_MAX_def)
  also have "\<dots> \<le> nat d * 200" using assms(1) by linarith
  finally show ?thesis using assms(3) by linarith
qed

lemma start_reach:
  assumes "pipeline_start fuel abi opts mapped pids s now = Some p0"
    and "reach (\<lambda>q. q = p0) (pipeline_step cutoff abi opts work pub) p"
  obtains camera lidar where "reach (pipeline_init abi opts camera lidar) (pipeline_step cutoff abi opts work pub) p"
proof -
  from assms(1) obtain camera lidar where "p0 = pipeline_new abi opts mapped pids s camera lidar"
    by (auto simp: pipeline_start_def Let_def split: option.splits)
  then have i: "pipeline_init abi opts camera lidar p0" unfolding pipeline_init_def by blast
  from assms(2) have "reach (pipeline_init abi opts camera lidar) (pipeline_step cutoff abi opts work pub) p"
    by (induction rule: reach.induct) (use i in \<open>auto intro: reach.intros\<close>)
  then show ?thesis by (rule that)
qed

text \<open>What the start needs of the system: its calls succeed and the IMU thread reads its clocks.\<close>

definition demo_answers :: "demo_options \<Rightarrow> 's demo_env \<Rightarrow> bool" where
  "demo_answers opts env \<longleftrightarrow> mn_open_rc env = 0 \<and>
     (\<forall>k. mn_name_rc env k = 0 \<and> mn_sched_rc env k = 0 \<and> mn_hog_name_rc env k = 0 \<and> mn_hog_sched_rc env k = 0) \<and>
     mn_actual_policy env \<ge> 0 \<and> (dm_ext_policy opts \<ge> 0 \<longrightarrow> mn_actual_policy env = dm_ext_policy opts) \<and>
     unat (mn_now env) < 9223372036854775808 \<and> length (mn_imu env) = nat (dm_duration_s opts) * 200 \<and>
     (\<forall>e \<in> set (mn_imu env). work_returns (metrics_end_ns opts (mn_now env)) (dm_imu_work_us opts) e)"

lemma demo_threads_start:
  assumes "demo_answers opts env"
  shows "demo_pids opts env \<noteq> None" and "demo_hogs opts env"
    and "imu_start (mn_name_rc env 5) (dm_ext_policy opts) (mn_sched_rc env 5) (mn_actual_policy env)
      (mn_self env 5) stats_zero = Some (mn_self env 5, stats_zero\<lparr>st_actual_policy := mn_actual_policy env\<rparr>)"
  using assms
  by (auto simp: demo_answers_def demo_pids_def demo_hogs_def hog_start_def stage_start_def imu_start_def
      set_thread_name_def set_sched_ext_policy_def list_all_iff not_less)

lemma demo_started:
  fixes env :: "'s demo_env"
  assumes parse: "demo_parse args = Inr opts" and ok: "demo_answers opts env"
    and fuel: "nat (dm_duration_s opts) * 200 < fuel"
  obtains run pids mapped where "demo_start fuel abi pub args env = Some (Inr run)" and "dr_opts run = opts"
    and "dr_imu_pid run = mn_self env 5"
    and "st_processed (is_stats (dr_imu run)) = of_nat (nat (dm_duration_s opts) * 200)"
    and "st_actual_policy (is_stats (dr_imu run)) = mn_actual_policy env"
    and "pipeline_start fuel abi opts mapped pids (mn_slots env) (mn_now env) = Some (dr_pipeline run)"
    and "\<And>p cutoff work. reach (\<lambda>q. q = dr_pipeline run) (pipeline_step cutoff abi opts work pub) p \<Longrightarrow>
      pl_main p = P_results \<Longrightarrow> pl_cam_generated p = camera_frame_count (dm_duration_s opts) \<and>
      pl_lidar_generated p = (if demo_lidar opts then of_nat (nat (dm_duration_s opts) * 10) else 0)"
proof -
  let ?d = "dm_duration_s opts" and ?start = "mn_now env + 100000000"
  note chk = demo_parse_checked [OF parse] and th = demo_threads_start [OF ok]
  have d: "0 < ?d" "?d \<le> INT_MAX" "?d \<le> 2147483647" "dm_camera_burst_count opts \<le> 2147483647"
    using chk(1,4) by (simp_all add: durations_ok_def demo_ok_def INT_MAX_def)
  have now: "unat (mn_now env) < 9223372036854775808" using ok by (simp add: demo_answers_def)
  have fits: "fits ?start ?d camera_period_ns" "fits ?start ?d lidar_period_ns" "fits ?start ?d imu_period_ns"
    by (rule fits_accepted [OF d(1,2) now]; simp add: camera_period_ns_def lidar_period_ns_def imu_period_ns_def)+
  have frames: "unat (camera_frame_count ?d) < fuel" "nat ?d * 10 < fuel"
    using frame_fuel [OF d(1,2) fuel] fuel by simp_all
  obtain pids where pids: "demo_pids opts env = Some pids" using th(1) by auto
  define mapped where "mapped = (\<not> dm_no_hints opts)"
  obtain im where im: "imu_thread fuel (metrics_end_ns opts (mn_now env)) (cfg_imu abi) mapped pub
      (mn_self env 5) (dm_imu_work_us opts) ?d ?start (mn_imu env) (mn_slots env)
      (stats_zero\<lparr>st_actual_policy := mn_actual_policy env\<rparr>) = Some im"
    and ticks: "st_processed (is_stats im) = of_nat (nat ?d * 200)"
      "st_actual_policy (is_stats im) = mn_actual_policy env"
    using imu_ticks_from [OF fits(3) refl fuel, of "mn_imu env" "metrics_end_ns opts (mn_now env)"
        "dm_imu_work_us opts" "cfg_imu abi" mapped pub "mn_self env 5" "mn_slots env"
        "stats_zero\<lparr>st_actual_policy := mn_actual_policy env\<rparr>"] ok
    by (auto simp: demo_answers_def stats_zero_def)
  note run = demo_run_generated [OF chk(1,2) d(3,4) fits(1,2) frames, of abi mapped pids "mn_slots env"]
  obtain p0 where p0: "pipeline_start fuel abi opts mapped pids (mn_slots env) (mn_now env) = Some p0"
    by (rule run)
  have gen: "pl_cam_generated p = camera_frame_count ?d \<and>
      pl_lidar_generated p = (if demo_lidar opts then of_nat (nat ?d * 10) else 0)"
    if r: "reach (\<lambda>q. q = p0) (pipeline_step cutoff abi opts work pub) p" and e: "pl_main p = P_results"
    for p cutoff work
  proof (rule run [of cutoff work pub])
    fix p1
    assume st: "pipeline_start fuel abi opts mapped pids (mn_slots env) (mn_now env) = Some p1"
      and g: "\<And>p. reach (\<lambda>p. p = p1) (pipeline_step cutoff abi opts work pub) p \<Longrightarrow> pl_main p = P_results \<Longrightarrow>
        pl_cam_generated p = camera_frame_count ?d \<and> pl_lidar_generated p =
          (if lidar_points_for_mode (dm_lidar_mode opts) = 0 then 0 else of_nat (nat ?d * 10))"
    have "p1 = p0" using st p0 by simp
    with g [of p] r e show ?thesis by (simp add: demo_lidar_def)
  qed
  have op: "demo_open opts (mn_open_rc env) = Inr mapped"
    using ok by (simp add: demo_open_def demo_answers_def mapped_def)
  have "demo_start fuel abi pub args env = Some (Inr \<lparr>dr_opts = opts, dr_warnings = demo_warnings opts env,
      dr_workload_start = ?start, dr_imu_pid = mn_self env 5, dr_imu = im, dr_pipeline = p0\<rparr>)"
    by (simp add: demo_start_def parse op th(3) pids th(2) im p0)
  then show ?thesis by (rule that [of _ mapped pids]) (simp_all add: p0 gen ticks)
qed

section \<open>Property\<close>

text \<open>What a line of the results accounts for.\<close>

definition column :: "result_line \<Rightarrow> u64" where
  "column l = rl_dequeued l + rl_queue_evicted_stale l + rl_pending l"

text \<open>
  C17: From the command line to the report of the demo. For every command line that is accepted, if the
  calls of the system succeed, the program starts, and whatever the interleaving of its threads, what it
  prints is exact: 200 IMU ticks for each second, every camera frame, ten LiDAR scans for each second
  (or none), and in the line of each stage the numbers of dequeued, evicted and pending items add up to
  what the stages before it passed on. With window statistics the report has its window lines, and the IMU
  line identifies the thread and the policy that was checked at its start.
\<close>

theorem demo_main_reports:
  fixes env :: "'s demo_env"
  assumes "demo_parse args = Inr opts" and "demo_answers opts env"
    and "nat (dm_duration_s opts) * 200 < fuel"
  shows "\<exists>run. demo_start fuel abi pub args env = Some (Inr run) \<and>
    (\<forall>cutoff work p finished r g. reach (\<lambda>q. q = dr_pipeline run) (pipeline_step cutoff abi opts work pub) p \<longrightarrow>
       pl_main p = P_results \<longrightarrow> r = demo_report_of abi run finished p \<longrightarrow>
       g = (\<lambda>k. stage_results (pl_stage p k)) \<longrightarrow>
       dp_generated r = (of_nat (nat (dm_duration_s opts) * 200), camera_frame_count (dm_duration_s opts),
         if demo_lidar opts then of_nat (nat (dm_duration_s opts) * 10) else 0) \<and>
       dp_imu_identity r = (if dm_window_stats opts
         then Some (mn_self env 5, mn_actual_policy env, SLAM_STAGE_IMU_PREINT) else None) \<and>
       dp_stages r = [(''vision_fe'', g 0), (''state_est'', g 1)] @
         (if demo_lidar opts then [(''lidar_pre'', g 2), (''lidar_reg'', g 3)] else []) @
         [(''mapping_be'', g 4)] \<and>
       camera_frame_count (dm_duration_s opts) = column (g 0) \<and> rl_processed (g 0) = column (g 1) \<and>
       (if demo_lidar opts then of_nat (nat (dm_duration_s opts) * 10) else 0) = column (g 2) \<and>
       rl_processed (g 2) = column (g 3) \<and> rl_processed (g 1) + rl_processed (g 3) = column (g 4))"
proof -
  obtain run pids mapped where run: "demo_start fuel abi pub args env = Some (Inr run)" "dr_opts run = opts"
      "dr_imu_pid run = mn_self env 5"
      "st_processed (is_stats (dr_imu run)) = of_nat (nat (dm_duration_s opts) * 200)"
      "st_actual_policy (is_stats (dr_imu run)) = mn_actual_policy env"
    and start: "pipeline_start fuel abi opts mapped pids (mn_slots env) (mn_now env) = Some (dr_pipeline run)"
    and gen: "\<And>p cutoff work. reach (\<lambda>q. q = dr_pipeline run) (pipeline_step cutoff abi opts work pub) p \<Longrightarrow>
      pl_main p = P_results \<Longrightarrow> pl_cam_generated p = camera_frame_count (dm_duration_s opts) \<and>
      pl_lidar_generated p = (if demo_lidar opts then of_nat (nat (dm_duration_s opts) * 10) else 0)"
    by (rule demo_started [OF assms, of abi pub]) (rule that)
  show ?thesis
  proof (intro exI [of _ run] conjI allI impI run(1))
    fix cutoff work p finished r g
    assume re: "reach (\<lambda>q. q = dr_pipeline run) (pipeline_step cutoff abi opts work pub) p"
      and e: "pl_main p = P_results" and r: "r = demo_report_of abi run finished p"
      and g: "g = (\<lambda>k. stage_results (pl_stage p k))"
    from start re obtain camera lidar where
      "reach (pipeline_init abi opts camera lidar) (pipeline_step cutoff abi opts work pub) p" by (rule start_reach)
    note acc = demo_accounted [OF this e g]
    have c: "pl_cam_generated p = column (g 0)" "rl_processed (g 0) = column (g 1)"
        "pl_lidar_generated p = column (g 2)" "rl_processed (g 2) = column (g 3)"
        "rl_processed (g 1) + rl_processed (g 3) = column (g 4)"
      using acc unfolding column_def by blast+
    note lines = demo_report_of_def Let_def stage_lines_def cfg_imu_def
    show "dp_generated r = (of_nat (nat (dm_duration_s opts) * 200), camera_frame_count (dm_duration_s opts),
         if demo_lidar opts then of_nat (nat (dm_duration_s opts) * 10) else 0)"
      unfolding r using run gen [OF re e] by (simp add: lines)
    show "dp_imu_identity r = (if dm_window_stats opts
         then Some (mn_self env 5, mn_actual_policy env, SLAM_STAGE_IMU_PREINT) else None)"
      unfolding r using run by (simp add: lines)
    show "dp_stages r = [(''vision_fe'', g 0), (''state_est'', g 1)] @
         (if demo_lidar opts then [(''lidar_pre'', g 2), (''lidar_reg'', g 3)] else []) @ [(''mapping_be'', g 4)]"
      unfolding r g using run by (simp add: lines)
    show "camera_frame_count (dm_duration_s opts) = column (g 0)" "rl_processed (g 0) = column (g 1)"
      "(if demo_lidar opts then of_nat (nat (dm_duration_s opts) * 10) else 0) = column (g 2)"
      "rl_processed (g 2) = column (g 3)" "rl_processed (g 1) + rl_processed (g 3) = column (g 4)"
      using c gen [OF re e] by metis+
  qed
qed

text \<open>One second without hints and without IMU work.\<close>

definition demo_quiet :: "unit demo_env" where
  "demo_quiet = \<lparr>mn_open_rc = 0, mn_slots = (), mn_name_rc = (\<lambda>_. 0), mn_sched_rc = (\<lambda>_. 0),
     mn_hog_name_rc = (\<lambda>_. 0), mn_hog_sched_rc = (\<lambda>_. 0), mn_actual_policy = 0, mn_self = (\<lambda>_. 77),
     mn_loads = (\<lambda>_. [77]), mn_now = 1000,
     mn_imu = replicate 200 \<lparr>im_t0 = 0, im_readings = Plain [0, 0, 0, 0], im_end = 0\<rparr>\<rparr>"

definition demo_quiet_args :: "string list" where
  "demo_quiet_args = [''--no-hints'', ''--duration'', ''1'', ''--imu-work-us'', ''0'']"

theorem demo_main_reports_witness:
  "\<exists>run. demo_start 300 demo_abi (\<lambda>_ _ s. (0, s)) demo_quiet_args demo_quiet = Some (Inr run)"
proof -
  let ?opts = "demo_defaults\<lparr>dm_no_hints := True, dm_duration_s := 1, dm_imu_work_us := 0\<rparr>"
  have parse: "demo_parse demo_quiet_args = Inr ?opts"
    by (simp add: demo_quiet_args_def demo_parse_def demo_defaults_def demo_valued_def number_eval
      strict_us_def atoi_def durations_ok_def camera_burst_ok_def)
  have "work_returns 0 0 \<lparr>im_t0 = 0, im_readings = Plain [0, 0, 0, 0], im_end = 0\<rparr>"
    by (simp add: work_returns_def measured_work_us_def busy_work_us_def)
  then have ok: "demo_answers ?opts demo_quiet"
    by (simp add: demo_answers_def demo_quiet_def demo_defaults_def metrics_end_ns_def)
  have "nat (dm_duration_s ?opts) * 200 < 300" by simp
  from demo_main_reports [OF parse ok this, of demo_abi "\<lambda>_ _ s. (0, s)"] show ?thesis by blast
qed

end
