(* ===== verification/Ros_Pipeline.thy ===== *)
theory Ros_Pipeline
  imports Hints Bag_Adapter Command_Line "HOL-Library.Multiset"
begin

text \<open>
  The ROS pipeline of \<^verbatim>\<open>src/ros2/scx_slam_workload/src/slam_pipeline.cpp\<close>: the hint profiles of its
  stages, the accounting of one callback, the audit and the observers that count what became of every
  source message, percentiles and the printed report, the periodic publishers, and the contenders. A
  message is a \<open>stamped_job\<close> of the bag adapter. Clocks and middleware are inputs.
\<close>

section \<open>Profiles\<close>

definition ros_profile :: "fresh_abi \<Rightarrow> u32 \<Rightarrow> u32 \<Rightarrow> u64 \<Rightarrow> u64 \<Rightarrow> u64 \<Rightarrow> callback_profile" where
  "ros_profile abi stage class_id deadline_us stale_us budget_us =
     (default_profile abi)\<lparr>p_stage_id := stage, p_class_id := class_id,
       p_relative_deadline_ns := deadline_us * 1000, p_stale_ns := stale_us * 1000,
       p_budget_ns := budget_us * 1000\<rparr>"

definition stage_profile ::
  "fresh_abi \<Rightarrow> string \<Rightarrow> u32 \<Rightarrow> u32 \<Rightarrow> u64 \<Rightarrow> u64 \<Rightarrow> u64 \<Rightarrow> callback_profile" where
  "stage_profile abi hint_mode stage class_id deadline_us stale_us budget_us =
     (if hint_mode = ''imu-only'' \<and> stage \<noteq> SLAM_STAGE_IMU_PREINT
      then ros_profile abi SLAM_STAGE_MISC (FRESH_CLASS_BACKGROUND abi) 0 0 0
      else if hint_mode = ''fe-only'' \<and> stage = SLAM_STAGE_IMU_PREINT
      then ros_profile abi SLAM_STAGE_MISC (FRESH_CLASS_DEADLINE abi) deadline_us stale_us budget_us
      else ros_profile abi stage class_id deadline_us stale_us budget_us)"

definition admission_profile ::
  "fresh_abi \<Rightarrow> ros_options \<Rightarrow> string \<Rightarrow> u32 \<Rightarrow> u32 \<Rightarrow> u64 \<Rightarrow> u64 \<Rightarrow> u64 \<Rightarrow> callback_profile" where
  "admission_profile abi d hint_mode stage class_id deadline_us stale_us budget_us =
     (if ro_input_mode d = ''external''
      then ros_profile abi stage class_id deadline_us stale_us budget_us
      else stage_profile abi hint_mode stage class_id deadline_us stale_us budget_us)
     \<lparr>p_reject_expired := ro_input_mode d = ''external'' \<and> stage \<noteq> SLAM_STAGE_IMU_PREINT\<rparr>"

definition ros_metadata :: "stamped_job \<Rightarrow> message_metadata" where
  "ros_metadata m = \<lparr>md_job_id = sj_job_id m, md_release_ts_ns = sj_release_ts_ns m\<rparr>"

section \<open>Measured messages\<close>

definition source_time_measured :: "stamped_job \<Rightarrow> u64 \<Rightarrow> u64 \<Rightarrow> u64 \<Rightarrow> bool" where
  "source_time_measured m source_start_ns warmup_ns duration_ns =
     (let start = source_start_ns + warmup_ns
      in sj_source_ts_ns m \<ge> start \<and> sj_source_ts_ns m < start + duration_ns)"

definition measured_message :: "ros_options \<Rightarrow> u64 \<Rightarrow> u64 \<Rightarrow> stamped_job \<Rightarrow> bool" where
  "measured_message d measurement_start_ns measurement_end_ns m =
     (if ro_input_mode d = ''external''
      then source_time_measured m (ro_source_start_ns d) (of_int (ro_warmup_s d) * 1000000000)
        (of_int (ro_duration_s d) * 1000000000)
      else sj_release_ts_ns m \<ge> measurement_start_ns \<and> sj_release_ts_ns m < measurement_end_ns)"

section \<open>Statistics of a stage\<close>

record ros_stats =
  rs_offered :: u64
  rs_arrivals :: u64
  rs_executed :: u64
  rs_dropped :: u64
  rs_upstream_dropped :: u64
  rs_active :: bool
  rs_active_clock :: int
  rs_active_cpu_start :: u64
  rs_completed :: u64
  rs_late :: u64
  rs_stale :: u64
  rs_cpu_ns :: u64
  rs_first_job_id :: u64
  rs_last_job_id :: u64
  rs_first_source_ts_ns :: u64
  rs_last_source_ts_ns :: u64
  rs_start_ages_ns :: "u64 list"
  rs_completion_ages_ns :: "u64 list"

definition ros_stats_zero :: ros_stats where
  "ros_stats_zero = \<lparr>rs_offered = 0, rs_arrivals = 0, rs_executed = 0, rs_dropped = 0,
     rs_upstream_dropped = 0, rs_active = False, rs_active_clock = 0, rs_active_cpu_start = 0,
     rs_completed = 0, rs_late = 0, rs_stale = 0, rs_cpu_ns = 0, rs_first_job_id = 0, rs_last_job_id = 0,
     rs_first_source_ts_ns = 0, rs_last_source_ts_ns = 0, rs_start_ages_ns = [], rs_completion_ages_ns = []\<rparr>"

text \<open>\<open>offer\<close> of the audit.\<close>

definition ros_offer :: "stamped_job \<Rightarrow> ros_stats \<Rightarrow> ros_stats" where
  "ros_offer m st =
     (let st1 = st\<lparr>rs_offered := rs_offered st + 1\<rparr>;
          st2 = (if rs_first_job_id st1 = 0
                 then st1\<lparr>rs_first_job_id := sj_job_id m, rs_first_source_ts_ns := sj_source_ts_ns m\<rparr> else st1)
      in st2\<lparr>rs_last_job_id := sj_job_id m, rs_last_source_ts_ns := sj_source_ts_ns m\<rparr>)"

section \<open>One callback\<close>

record job_env =
  je_start :: "u64 res"
  je_clock :: "int + int"
  je_cpu_start :: "u64 res"
  je_busy :: "u64 res list"
  je_cpu_end :: "u64 res"
  je_now :: "u64 res"

definition ros_age :: "u64 \<Rightarrow> stamped_job \<Rightarrow> u64" where
  "ros_age t m = (if t > sj_release_ts_ns m then t - sj_release_ts_ns m else 0)"

text \<open>\<open>busy_work_us\<close> over the readings of the CPU clock, each of which may throw.\<close>

fun ros_busy_loop :: "u64 \<Rightarrow> u64 \<Rightarrow> u64 res list \<Rightarrow> unit res option" where
  "ros_busy_loop start duration [] = None"
| "ros_busy_loop start duration (Inl e # rs) = Some (Inl e)"
| "ros_busy_loop start duration (Inr t # rs) =
     (if t - start < duration then ros_busy_loop start duration rs else Some (Inr ()))"

definition ros_busy_work_us :: "u64 \<Rightarrow> u64 res list \<Rightarrow> unit res option" where
  "ros_busy_work_us work_us rs =
     (case rs of [] \<Rightarrow> None | Inl e # _ \<Rightarrow> Some (Inl e) | Inr start # rs1 \<Rightarrow> ros_busy_loop start (work_us * 1000) rs1)"

text \<open>The two critical sections of \<open>account_job\<close>.\<close>

definition account_begin :: "bool \<Rightarrow> int \<Rightarrow> u64 \<Rightarrow> ros_stats \<Rightarrow> ros_stats" where
  "account_begin measured clk cpu_start st =
     (if measured then st\<lparr>rs_executed := rs_executed st + 1, rs_active := True, rs_active_clock := clk,
        rs_active_cpu_start := cpu_start\<rparr> else st)"

definition account_end ::
  "stamped_job \<Rightarrow> u64 \<Rightarrow> u64 \<Rightarrow> bool \<Rightarrow> u64 \<Rightarrow> u64 \<Rightarrow> u64 \<Rightarrow> ros_stats \<Rightarrow> ros_stats" where
  "account_end m deadline_ns stale_ns measured start cpu_ns now st =
     (if \<not> measured then st
      else
        (let age = ros_age now m; start_age = ros_age start m
         in st\<lparr>rs_completed := rs_completed st + 1,
              rs_late := (if deadline_ns \<noteq> 0 \<and> age > deadline_ns then rs_late st + 1 else rs_late st),
              rs_stale := (if stale_ns \<noteq> 0 \<and> start_age > stale_ns then rs_stale st + 1 else rs_stale st),
              rs_cpu_ns := rs_cpu_ns st + cpu_ns, rs_active := False,
              rs_start_ages_ns := rs_start_ages_ns st @ [start_age],
              rs_completion_ages_ns := rs_completion_ages_ns st @ [age]\<rparr>))"

definition account_job ::
  "stamped_job \<Rightarrow> u64 \<Rightarrow> u64 \<Rightarrow> u64 \<Rightarrow> bool \<Rightarrow> job_env \<Rightarrow> ros_stats \<Rightarrow> (unit res \<times> ros_stats) option" where
  "account_job m work_us deadline_ns stale_ns measured env st =
     (case je_start env of Inl e \<Rightarrow> Some (Inl e, st) | Inr start \<Rightarrow>
     (case je_clock env of Inl error \<Rightarrow> Some (Inl (System_error error ''pthread_getcpuclockid''), st) | Inr clk \<Rightarrow>
     (case je_cpu_start env of Inl e \<Rightarrow> Some (Inl e, st) | Inr cpu_start \<Rightarrow>
     (let st1 = account_begin measured clk cpu_start st
      in case ros_busy_work_us work_us (je_busy env) of None \<Rightarrow> None | Some (Inl e) \<Rightarrow> Some (Inl e, st1) | Some (Inr _) \<Rightarrow>
     (case je_cpu_end env of Inl e \<Rightarrow> Some (Inl e, st1) | Inr cpu_end \<Rightarrow>
     (case je_now env of Inl e \<Rightarrow> Some (Inl e, st1) | Inr now \<Rightarrow>
        Some (Inr (), account_end m deadline_ns stale_ns measured start (cpu_end - cpu_start) now st1)))))))"

section \<open>Percentile, snapshot, report\<close>

definition percentile_99 :: "u64 list \<Rightarrow> u64" where
  "percentile_99 ages =
     (if ages = [] then 0 else sort ages ! unat ((vsize ages * 99 + 99) div 100 - 1))"

definition max_element :: "u64 list \<Rightarrow> u64" where
  "max_element xs = (case xs of [] \<Rightarrow> 0 | y # ys \<Rightarrow> fold (\<lambda>z m. if m < z then z else m) ys y)"

record stage_snapshot =
  sn_stats :: ros_stats
  sn_cpu_ns :: u64
  sn_p99_start_age_ns :: u64
  sn_max_start_age_ns :: u64
  sn_p99_age_ns :: u64
  sn_max_age_ns :: u64

text \<open>\<open>snapshot\<close>: the counters are copied; \<open>now\<close> is the reading of the active job's CPU clock.\<close>

definition ros_snapshot :: "u64 res \<Rightarrow> ros_stats \<Rightarrow> stage_snapshot res" where
  "ros_snapshot now st =
     (let finish = (\<lambda>cpu. Inr \<lparr>sn_stats = st, sn_cpu_ns = cpu,
            sn_p99_start_age_ns = percentile_99 (rs_start_ages_ns st),
            sn_max_start_age_ns = max_element (rs_start_ages_ns st),
            sn_p99_age_ns = percentile_99 (rs_completion_ages_ns st),
            sn_max_age_ns = max_element (rs_completion_ages_ns st)\<rparr>)
      in if rs_active st then
           (case now of Inl e \<Rightarrow> Inl e | Inr t \<Rightarrow> finish (rs_cpu_ns st + (t - rs_active_cpu_start st)))
         else finish (rs_cpu_ns st))"

record stats_report =
  sr_unfinished :: u64
  sr_in_flight :: u64
  sr_pending :: u64

definition print_stats :: "u64 \<Rightarrow> stage_snapshot \<Rightarrow> stats_report" where
  "print_stats offered sn =
     (let st = sn_stats sn;
          resolved = rs_completed st + rs_dropped st + rs_upstream_dropped st;
          unfinished = (if offered > resolved then offered - resolved else 0);
          in_flight = rs_executed st - rs_completed st
      in \<lparr>sr_unfinished = unfinished, sr_in_flight = in_flight,
          sr_pending = (if unfinished > in_flight then unfinished - in_flight else 0)\<rparr>)"

section \<open>The four stages\<close>

datatype ros_stage = Imu_prop | Vision_fe | State_est | Mapping_be

definition ros_work_us :: "ros_stage \<Rightarrow> stamped_job \<Rightarrow> u64" where
  "ros_work_us s m = (case s of Imu_prop \<Rightarrow> 150 | Vision_fe \<Rightarrow> 3000 + (sj_job_id m mod 5) * 500
     | State_est \<Rightarrow> 2000 + (sj_job_id m mod 5) * 250 | Mapping_be \<Rightarrow> 2000)"

definition ros_deadline_ns :: "ros_stage \<Rightarrow> u64" where
  "ros_deadline_ns s = (case s of Imu_prop \<Rightarrow> 5000000 | Vision_fe \<Rightarrow> 33000000 | State_est \<Rightarrow> 33000000
     | Mapping_be \<Rightarrow> 0)"

definition ros_stale_ns :: "ros_stage \<Rightarrow> u64" where
  "ros_stale_ns s = (case s of Imu_prop \<Rightarrow> 10000000 | Vision_fe \<Rightarrow> 66000000 | State_est \<Rightarrow> 66000000
     | Mapping_be \<Rightarrow> 0)"

definition ros_downstream :: "ros_stage \<Rightarrow> ros_stage list" where
  "ros_downstream s = (case s of Vision_fe \<Rightarrow> [State_est, Mapping_be] | State_est \<Rightarrow> [Mapping_be] | _ \<Rightarrow> [])"

type_synonym ros_state = "ros_stage \<Rightarrow> ros_stats"

definition at_stage :: "ros_stage \<Rightarrow> (ros_stats \<Rightarrow> ros_stats) \<Rightarrow> ros_state \<Rightarrow> ros_state" where
  "at_stage s f r = r(s := f (r s))"

text \<open>The callbacks of the audit, the observers, and the two halves of a stage callback.\<close>

definition audit_imu :: "(stamped_job \<Rightarrow> bool) \<Rightarrow> stamped_job \<Rightarrow> ros_state \<Rightarrow> ros_state" where
  "audit_imu measured m r = (if measured m then at_stage Imu_prop (ros_offer m) r else r)"

definition audit_camera :: "(stamped_job \<Rightarrow> bool) \<Rightarrow> stamped_job \<Rightarrow> ros_state \<Rightarrow> ros_state" where
  "audit_camera measured m r =
     (if measured m then at_stage Mapping_be (ros_offer m) (at_stage State_est (ros_offer m)
        (at_stage Vision_fe (ros_offer m) r)) else r)"

definition ros_observe ::
  "(stamped_job \<Rightarrow> bool) \<Rightarrow> ros_stage \<Rightarrow> stamped_job \<Rightarrow> message_event \<Rightarrow> ros_state \<Rightarrow> ros_state" where
  "ros_observe measured s m event r =
     (if \<not> measured m then r
      else
        (let r1 = at_stage s (\<lambda>st. if event = Selected then st\<lparr>rs_arrivals := rs_arrivals st + 1\<rparr>
               else st\<lparr>rs_dropped := rs_dropped st + 1\<rparr>) r
         in if event = DroppedBeforeStart
            then fold (\<lambda>s2. at_stage s2 (\<lambda>st. st\<lparr>rs_upstream_dropped := rs_upstream_dropped st + 1\<rparr>))
                   (ros_downstream s) r1
            else r1))"

datatype ros_event =
    Ev_audit_imu stamped_job
  | Ev_audit_camera stamped_job
  | Ev_observe ros_stage stamped_job message_event
  | Ev_begin ros_stage stamped_job int u64
  | Ev_end ros_stage stamped_job u64 u64 u64

fun ros_apply :: "(stamped_job \<Rightarrow> bool) \<Rightarrow> ros_event \<Rightarrow> ros_state \<Rightarrow> ros_state" where
  "ros_apply measured (Ev_audit_imu m) r = audit_imu measured m r"
| "ros_apply measured (Ev_audit_camera m) r = audit_camera measured m r"
| "ros_apply measured (Ev_observe s m event) r = ros_observe measured s m event r"
| "ros_apply measured (Ev_begin s m clk cpu) r = at_stage s (account_begin (measured m) clk cpu) r"
| "ros_apply measured (Ev_end s m start cpu now) r =
     at_stage s (account_end m (ros_deadline_ns s) (ros_stale_ns s) (measured m) start cpu now) r"

section \<open>Sources\<close>

text \<open>
  \<open>publish_periodic\<close>: \<open>ok\<close> is the answer of \<open>rclcpp::ok()\<close> before each message, \<open>sent\<close> what its sleep
  and its publication end with. The result has the messages published.
\<close>

function publish_loop ::
  "(u64 \<Rightarrow> bool) \<Rightarrow> (u64 \<Rightarrow> unit res) \<Rightarrow> u64 \<Rightarrow> u64 \<Rightarrow> u64 \<Rightarrow> u64 \<Rightarrow> unit res \<times> stamped_job list" where
  "publish_loop ok sent rate_hz start_ns offered index =
     (if index < offered \<and> ok index then
        (case sent index of
           Inl e \<Rightarrow> (Inl e, [])
         | Inr _ \<Rightarrow>
             (let (r, ms) = publish_loop ok sent rate_hz start_ns offered (index + 1)
              in (r, \<lparr>sj_job_id = index + 1, sj_release_ts_ns = start_ns + index * 1000000000 div rate_hz,
                      sj_source_ts_ns = 0\<rparr> # ms)))
      else (Inr (), []))"
  by auto
termination
  by (relation "measure (\<lambda>(ok, sent, rate_hz, start_ns, offered, index). unat offered - unat index)")
    (auto simp: unat_Suc_u64 word_less_nat_alt)

declare publish_loop.simps [simp del]

definition publish_periodic ::
  "(u64 \<Rightarrow> bool) \<Rightarrow> (u64 \<Rightarrow> unit res) \<Rightarrow> u64 \<Rightarrow> u64 \<Rightarrow> u64 \<Rightarrow> unit res \<times> stamped_job list" where
  "publish_periodic ok sent rate_hz duration_s start_ns =
     publish_loop ok sent rate_hz start_ns (rate_hz * duration_s) 0"

text \<open>
  \<open>wait_for_graph\<close> and \<open>wait_for_external_sources\<close>: readings of the clock with the counts asked for;
  \<open>None\<close> if the readings end first.
\<close>

fun wait_for_graph :: "u64 \<Rightarrow> (u64 \<times> u64 list) list \<Rightarrow> unit res option" where
  "wait_for_graph deadline [] = None"
| "wait_for_graph deadline ((now, subscribers) # rs) =
     (if now < deadline then
        (if list_all (\<lambda>c. c > 0) subscribers then Some (Inr ()) else wait_for_graph deadline rs)
      else Some (Inl (Runtime_error ''ROS graph did not connect the pipeline within two seconds'')))"

fun wait_for_external_sources :: "u64 \<Rightarrow> (u64 \<times> u64 \<times> u64) list \<Rightarrow> unit res option" where
  "wait_for_external_sources deadline [] = None"
| "wait_for_external_sources deadline ((now, imu, camera) # rs) =
     (if now < deadline then
        (if imu > 0 \<and> camera > 0 then Some (Inr ()) else wait_for_external_sources deadline rs)
      else Some (Inl (Runtime_error ''external IMU and camera job publishers did not connect'')))"

section \<open>Contenders\<close>

definition configure_contender :: "int \<Rightarrow> int \<Rightarrow> int \<Rightarrow> int \<Rightarrow> int \<Rightarrow> int \<Rightarrow> unit res" where
  "configure_contender cpu ext_policy affinity_rc setattr_rc errno name_rc =
     (if cpu \<ge> 0 \<and> affinity_rc \<noteq> 0 then Inl (System_error affinity_rc ''pthread_setaffinity_np(hog)'')
      else if ext_policy \<ge> 0 \<and> setattr_rc \<noteq> 0 then Inl (System_error errno ''sched_setattr(SCHED_EXT hog)'')
      else if name_rc \<noteq> 0 then Inl (System_error name_rc ''pthread_setname_np(hog)'')
      else Inr ())"

fun contender_loop :: "(bool \<times> u64 res list \<times> u64 res) list \<Rightarrow> u64 list \<Rightarrow> (unit res \<times> u64 list) option" where
  "contender_loop [] completions = None"
| "contender_loop ((running, busy, now) # rs) completions =
     (if \<not> running then Some (Inr (), completions)
      else (case ros_busy_work_us 1000 busy of None \<Rightarrow> None | Some (Inl e) \<Rightarrow> Some (Inl e, completions) | Some (Inr _) \<Rightarrow>
           (case now of Inl e \<Rightarrow> Some (Inl e, completions) | Inr t \<Rightarrow> contender_loop rs (completions @ [t]))))"

text \<open>\<open>run_contender\<close>: the completions, and the background error, of which the first is kept.\<close>

definition run_contender ::
  "unit res \<Rightarrow> (bool \<times> u64 res list \<times> u64 res) list \<Rightarrow> exn option \<Rightarrow> (exn option \<times> u64 list) option" where
  "run_contender configured rs background_error =
     (let keep = (\<lambda>e. case background_error of None \<Rightarrow> Some e | Some _ \<Rightarrow> background_error)
      in case configured of Inl e \<Rightarrow> Some (keep e, [])
         | Inr _ \<Rightarrow>
             (case contender_loop rs [] of None \<Rightarrow> None
              | Some (Inl e, completions) \<Rightarrow> Some (keep e, completions)
              | Some (Inr _, completions) \<Rightarrow> Some (background_error, completions)))"

section \<open>The end of \<open>main\<close>\<close>

definition expected_count :: "ros_options \<Rightarrow> ros_stage \<Rightarrow> ros_state \<Rightarrow> u64" where
  "expected_count d s w =
     (if ro_input_mode d = ''synthetic''
      then of_int (ro_duration_s d) * (if s = Imu_prop then 200 else 30)
      else rs_offered (w (if s = Imu_prop then Imu_prop else Vision_fe)))"

text \<open>The exit status: \<open>w\<close> the counters at the end of the window, \<open>r\<close> the final ones.\<close>

definition ros_exit :: "ros_options \<Rightarrow> ros_state \<Rightarrow> ros_state \<Rightarrow> int" where
  "ros_exit d w r =
     (if ro_window_stats d then 0
      else if ro_input_mode d = ''synthetic'' \<and>
        (rs_completed (r Imu_prop) \<noteq> expected_count d Imu_prop w \<or>
         rs_completed (r Vision_fe) \<noteq> expected_count d Vision_fe w \<or>
         rs_completed (r State_est) \<noteq> expected_count d State_est w \<or>
         rs_completed (r Mapping_be) \<noteq> expected_count d Mapping_be w)
      then 2 else 0)"

section \<open>Counters and events\<close>

text \<open>
  A quantity of a stage that every event changes by an amount depending on the event only. What it is at
  the end then depends only on which events happened, in whatever order the threads interleaved.
\<close>

locale event_counter =
  fixes measured :: "stamped_job \<Rightarrow> bool" and f :: "ros_stats \<Rightarrow> u64" and w :: "ros_stage \<Rightarrow> ros_event \<Rightarrow> u64"
  assumes apply_w: "f (ros_apply measured ev r s) = f (r s) + w s ev"
begin

lemma fold_w: "f (fold (ros_apply measured) evs r s) = f (r s) + sum_list (map (w s) evs)"
  by (induction evs arbitrary: r) (simp_all add: apply_w add.assoc)

lemma interleaved:
  assumes "mset evs = mset (concat js)"
  shows "f (fold (ros_apply measured) evs r s) = f (r s) + sum_list (map (\<lambda>j. sum_list (map (w s) j)) js)"
proof -
  have "sum_list (map (w s) evs) = sum_mset (mset (map (w s) evs))" by (rule sum_mset_sum_list [symmetric])
  also have "\<dots> = sum_mset (mset (map (w s) (concat js)))" by (simp only: mset_map assms)
  also have "\<dots> = sum_list (map (w s) (concat js))" by (rule sum_mset_sum_list)
  also have "\<dots> = sum_list (map (\<lambda>j. sum_list (map (w s) j)) js)"
    by (induction js) simp_all
  finally show ?thesis by (simp add: fold_w)
qed

end

lemma stage_fold_upstream:
  "fold (\<lambda>s2. at_stage s2 (\<lambda>st. st\<lparr>rs_upstream_dropped := rs_upstream_dropped st + 1\<rparr>)) (ros_downstream s') r s =
     (r s)\<lparr>rs_upstream_dropped := rs_upstream_dropped (r s) + b2w (s \<in> set (ros_downstream s'))\<rparr>"
  by (cases s'; cases s) (simp_all add: ros_downstream_def at_stage_def b2w_def)

definition w_offered :: "(stamped_job \<Rightarrow> bool) \<Rightarrow> ros_stage \<Rightarrow> ros_event \<Rightarrow> u64" where
  "w_offered measured s ev = (case ev of Ev_audit_imu m \<Rightarrow> b2w (measured m \<and> s = Imu_prop)
     | Ev_audit_camera m \<Rightarrow> b2w (measured m \<and> s \<noteq> Imu_prop) | _ \<Rightarrow> 0)"

definition w_completed :: "(stamped_job \<Rightarrow> bool) \<Rightarrow> ros_stage \<Rightarrow> ros_event \<Rightarrow> u64" where
  "w_completed measured s ev = (case ev of Ev_end s' m _ _ _ \<Rightarrow> b2w (measured m \<and> s = s') | _ \<Rightarrow> 0)"

definition w_executed :: "(stamped_job \<Rightarrow> bool) \<Rightarrow> ros_stage \<Rightarrow> ros_event \<Rightarrow> u64" where
  "w_executed measured s ev = (case ev of Ev_begin s' m _ _ \<Rightarrow> b2w (measured m \<and> s = s') | _ \<Rightarrow> 0)"

definition w_lost :: "(stamped_job \<Rightarrow> bool) \<Rightarrow> ros_stage \<Rightarrow> ros_event \<Rightarrow> u64" where
  "w_lost measured s ev = (case ev of
     Ev_observe s' m DroppedBeforeStart \<Rightarrow> b2w (measured m \<and> (s = s' \<or> s \<in> set (ros_downstream s'))) | _ \<Rightarrow> 0)"

definition w_arrived :: "(stamped_job \<Rightarrow> bool) \<Rightarrow> ros_stage \<Rightarrow> ros_event \<Rightarrow> u64" where
  "w_arrived measured s ev = (case ev of
     Ev_observe s' m Selected \<Rightarrow> b2w (measured m \<and> s = s') | _ \<Rightarrow> 0)"

definition w_dropped :: "(stamped_job \<Rightarrow> bool) \<Rightarrow> ros_stage \<Rightarrow> ros_event \<Rightarrow> u64" where
  "w_dropped measured s ev = (case ev of
     Ev_observe s' m DroppedBeforeStart \<Rightarrow> b2w (measured m \<and> s = s') | _ \<Rightarrow> 0)"

lemmas ros_event_defs = audit_imu_def audit_camera_def ros_observe_def account_begin_def account_end_def
  ros_offer_def Let_def b2w_def

interpretation offered: event_counter measured rs_offered "w_offered measured" for measured
proof
  fix ev r s
  show "rs_offered (ros_apply measured ev r s) = rs_offered (r s) + w_offered measured s ev"
    by (cases ev; cases s) (simp_all add: w_offered_def ros_event_defs stage_fold_upstream at_stage_def)
qed

interpretation completed: event_counter measured rs_completed "w_completed measured" for measured
proof
  fix ev r s
  show "rs_completed (ros_apply measured ev r s) = rs_completed (r s) + w_completed measured s ev"
    by (cases ev; cases s) (simp_all add: w_completed_def ros_event_defs stage_fold_upstream at_stage_def)
qed

interpretation executed: event_counter measured rs_executed "w_executed measured" for measured
proof
  fix ev r s
  show "rs_executed (ros_apply measured ev r s) = rs_executed (r s) + w_executed measured s ev"
    by (cases ev; cases s) (simp_all add: w_executed_def ros_event_defs stage_fold_upstream at_stage_def)
qed

interpretation arrived: event_counter measured rs_arrivals "w_arrived measured" for measured
proof
  fix ev r s
  show "rs_arrivals (ros_apply measured ev r s) = rs_arrivals (r s) + w_arrived measured s ev"
    by (cases ev; cases s) (auto simp: w_arrived_def ros_event_defs stage_fold_upstream at_stage_def
      split: message_event.splits ros_stage.splits)
qed

interpretation dropped: event_counter measured rs_dropped "w_dropped measured" for measured
proof
  fix ev r s
  show "rs_dropped (ros_apply measured ev r s) = rs_dropped (r s) + w_dropped measured s ev"
    by (cases ev; cases s) (auto simp: w_dropped_def ros_event_defs stage_fold_upstream at_stage_def
      split: message_event.splits ros_stage.splits)
qed

interpretation lost: event_counter measured "\<lambda>st. rs_dropped st + rs_upstream_dropped st" "w_lost measured"
  for measured
proof
  fix ev r s
  show "rs_dropped (ros_apply measured ev r s) + rs_upstream_dropped (ros_apply measured ev r s) =
      rs_dropped (r s) + rs_upstream_dropped (r s) + w_lost measured s ev"
    by (cases ev; cases s)
      (simp_all add: w_lost_def ros_event_defs stage_fold_upstream at_stage_def ros_downstream_def
        split: message_event.splits ros_stage.splits)
qed

subsection \<open>What becomes of a message\<close>

text \<open>
  The events of one source message: it is seen by the audit; each stage in turn selects it and rejects
  it, which ends its way, or starts and completes it and passes it on.
\<close>

datatype fate = Lost_at ros_stage | Through

type_synonym visit_env = "ros_stage \<Rightarrow> int \<times> u64 \<times> u64 \<times> u64 \<times> u64"

fun visit :: "ros_stage list \<Rightarrow> stamped_job \<Rightarrow> fate \<Rightarrow> visit_env \<Rightarrow> ros_event list" where
  "visit [] m fate env = []"
| "visit (s # ss) m fate env =
     (if fate = Lost_at s then [Ev_observe s m Selected, Ev_observe s m DroppedBeforeStart]
      else (case env s of (clk, cpu_start, start, cpu, now) \<Rightarrow>
        [Ev_observe s m Selected, Ev_begin s m clk cpu_start, Ev_end s m start cpu now] @ visit ss m fate env))"

datatype journey = Journey (is_imu: bool) (msg: stamped_job) (j_fate: fate) (j_env: visit_env)

definition journey_events :: "journey \<Rightarrow> ros_event list" where
  "journey_events j =
     (if is_imu j then Ev_audit_imu (msg j) # visit [Imu_prop] (msg j) (j_fate j) (j_env j)
      else Ev_audit_camera (msg j) # visit [Vision_fe, State_est, Mapping_be] (msg j) (j_fate j) (j_env j))"

definition concerns :: "(stamped_job \<Rightarrow> bool) \<Rightarrow> ros_stage \<Rightarrow> journey \<Rightarrow> bool" where
  "concerns measured s j \<longleftrightarrow> measured (msg j) \<and> (is_imu j \<longleftrightarrow> s = Imu_prop)"

definition served :: "ros_stage \<Rightarrow> journey \<Rightarrow> bool" where
  "served s j \<longleftrightarrow> j_fate j \<noteq> Lost_at s \<and> (s = State_est \<or> s = Mapping_be \<longrightarrow> j_fate j \<noteq> Lost_at Vision_fe) \<and>
     (s = Mapping_be \<longrightarrow> j_fate j \<noteq> Lost_at State_est)"

lemma journey_sums:
  "sum_list (map (w_offered measured s) (journey_events j)) = b2w (concerns measured s j)"
  "sum_list (map (w_completed measured s) (journey_events j)) = b2w (concerns measured s j \<and> served s j)"
  "sum_list (map (w_executed measured s) (journey_events j)) = b2w (concerns measured s j \<and> served s j)"
  "sum_list (map (w_lost measured s) (journey_events j)) = b2w (concerns measured s j \<and> \<not> served s j)"
  by (cases "is_imu j"; cases s;
      simp add: journey_events_def concerns_def served_def w_offered_def w_completed_def w_executed_def
        w_lost_def ros_downstream_def b2w_def split: prod.splits)+

lemma sum_b2w: "sum_list (map (\<lambda>j. b2w (P j)) js) = countw P js"
  by (induction js) simp_all

subsection \<open>Percentile\<close>

lemma length_filter_sort: "length (filter P (sort xs)) = length (filter P xs)"
  by (metis mset_filter mset_sort size_mset)

lemma sorted_rank:
  assumes "sorted xs" and "k < length xs"
  shows "Suc k \<le> length (filter (\<lambda>x. x \<le> xs ! k) xs)" and "length (filter (\<lambda>x. x < xs ! k) xs) \<le> k"
proof -
  have "filter (\<lambda>x. x \<le> xs ! k) (take (Suc k) xs) = take (Suc k) xs"
    using assms by (auto simp: filter_id_conv in_set_conv_nth less_Suc_eq_le
      intro!: sorted_nth_mono [OF assms(1) _ assms(2)])
  then have "length (filter (\<lambda>x. x \<le> xs ! k) (take (Suc k) xs)) = Suc k" using assms(2) by simp
  moreover have "filter P xs = filter P (take (Suc k) xs) @ filter P (drop (Suc k) xs)" for P
    by (metis append_take_drop_id filter_append)
  ultimately show "Suc k \<le> length (filter (\<lambda>x. x \<le> xs ! k) xs)" by simp
  have "filter (\<lambda>x. x < xs ! k) (drop k xs) = []"
    using assms by (auto simp: filter_empty_conv in_set_conv_nth not_less intro!: sorted_nth_mono [OF assms(1)])
  then have "filter (\<lambda>x. x < xs ! k) xs = filter (\<lambda>x. x < xs ! k) (take k xs)"
    by (metis append_Nil2 append_take_drop_id filter_append)
  also have "length \<dots> \<le> length (take k xs)" by (rule length_filter_le)
  finally show "length (filter (\<lambda>x. x < xs ! k) xs) \<le> k" using assms(2) by simp
qed

subsection \<open>Periodic publication\<close>

definition periodic_message :: "u64 \<Rightarrow> u64 \<Rightarrow> nat \<Rightarrow> stamped_job" where
  "periodic_message rate_hz start_ns k = \<lparr>sj_job_id = of_nat (Suc k),
     sj_release_ts_ns = start_ns + of_nat (k * 1000000000 div unat rate_hz), sj_source_ts_ns = 0\<rparr>"

lemma publish_loop_run:
  assumes "\<forall>i. ok i \<and> sent i = Inr ()" and "n * 1000000000 < 18446744073709551616" and "k \<le> n"
  shows "publish_loop ok sent rate_hz start_ns (of_nat n) (of_nat k) =
    (Inr (), map (periodic_message rate_hz start_ns) [k..<n])"
  using assms(3)
proof (induction "n - k" arbitrary: k)
  case 0
  then show ?case by (subst publish_loop.simps) simp
next
  case (Suc d)
  have small: "j < 18446744073709551616" "j * 1000000000 < 18446744073709551616" if "j \<le> n" for j
    using that assms(2) by linarith+
  have lt: "(of_nat k :: u64) < of_nat n"
    using Suc.hyps(2) Suc.prems small(1) by (simp add: word_less_nat_alt unat_of_nat_u64)
  have "unat (of_nat k * 1000000000 :: u64) = k * 1000000000"
    using unat_of_nat_u64 [OF small(2) [OF Suc.prems]] by simp
  then have q: "of_nat k * 1000000000 div rate_hz = of_nat (k * 1000000000 div unat rate_hz)"
    using small(2) [OF Suc.prems]
    by (simp add: word_unat_eq_iff unat_div unat_of_nat_u64 le_less_trans [OF div_le_dividend])
  have "publish_loop ok sent rate_hz start_ns (of_nat n) (of_nat (Suc k)) =
      (Inr (), map (periodic_message rate_hz start_ns) [Suc k..<n])"
    by (rule Suc.hyps(1)) (use Suc.hyps(2) Suc.prems in simp_all)
  then have "publish_loop ok sent rate_hz start_ns (of_nat n) (of_nat k) =
      (Inr (), periodic_message rate_hz start_ns k # map (periodic_message rate_hz start_ns) [Suc k..<n])"
    using lt assms(1) by (subst publish_loop.simps) (simp add: periodic_message_def q add.commute)
  then show ?case using Suc.hyps(2) by (simp add: upt_conv_Cons)
qed

lemma publish_periodic_run:
  assumes "\<forall>i. ok i \<and> sent i = Inr ()" and "unat rate_hz * unat duration_s * 1000000000 < 18446744073709551616"
  shows "publish_periodic ok sent rate_hz duration_s start_ns =
    (Inr (), map (periodic_message rate_hz start_ns) [0..<unat rate_hz * unat duration_s])"
proof -
  have n: "rate_hz * duration_s = of_nat (unat rate_hz * unat duration_s)" by simp
  have "publish_loop ok sent rate_hz start_ns (of_nat (unat rate_hz * unat duration_s)) (of_nat 0) =
      (Inr (), map (periodic_message rate_hz start_ns) [0..<unat rate_hz * unat duration_s])"
    by (rule publish_loop_run [OF assms le0])
  then show ?thesis unfolding publish_periodic_def n semiring_1_class.of_nat_0 .
qed

section \<open>Properties\<close>

text \<open>
  Every source opportunity is accounted for. However the audit, the executors of the four stages and
  their observers interleave: once every message has run its course, each stage has been offered the
  measured messages of its source, has completed those that no stage on their way rejected, and
  \<open>offered\<close> is \<open>completed\<close> plus \<open>dropped\<close> plus \<open>upstream_dropped\<close>; the report then shows nothing
  unfinished, in flight or pending.
\<close>

theorem ros_accounting:
  assumes "mset evs = mset (concat (map journey_events js))"
    and "r = fold (ros_apply measured) evs (\<lambda>_. ros_stats_zero)"
  shows "rs_offered (r s) = countw (concerns measured s) js \<and>
    rs_completed (r s) = countw (\<lambda>j. concerns measured s j \<and> served s j) js \<and>
    rs_offered (r s) = rs_completed (r s) + rs_dropped (r s) + rs_upstream_dropped (r s) \<and>
    (\<forall>now sn. ros_snapshot now (r s) = Inr sn \<longrightarrow>
       print_stats (rs_offered (r s)) sn = \<lparr>sr_unfinished = 0, sr_in_flight = 0, sr_pending = 0\<rparr>)"
proof -
  have o: "rs_offered (r s) = countw (concerns measured s) js"
    and c: "rs_completed (r s) = countw (\<lambda>j. concerns measured s j \<and> served s j) js"
    and x: "rs_executed (r s) = countw (\<lambda>j. concerns measured s j \<and> served s j) js"
    and l: "rs_dropped (r s) + rs_upstream_dropped (r s) = countw (\<lambda>j. concerns measured s j \<and> \<not> served s j) js"
    unfolding assms(2)
    using offered.interleaved [OF assms(1), of measured "\<lambda>_. ros_stats_zero" s]
      completed.interleaved [OF assms(1), of measured "\<lambda>_. ros_stats_zero" s]
      executed.interleaved [OF assms(1), of measured "\<lambda>_. ros_stats_zero" s]
      lost.interleaved [OF assms(1), of measured "\<lambda>_. ros_stats_zero" s]
    by (simp_all add: ros_stats_zero_def o_def journey_sums sum_b2w)
  have "countw (concerns measured s) js = countw (\<lambda>j. concerns measured s j \<and> served s j) js +
      countw (\<lambda>j. concerns measured s j \<and> \<not> served s j) js"
    by (induction js) (auto simp: b2w_def algebra_simps)
  with o c l have t: "rs_offered (r s) = rs_completed (r s) + (rs_dropped (r s) + rs_upstream_dropped (r s))"
    by simp
  have "print_stats (rs_offered (r s)) sn = \<lparr>sr_unfinished = 0, sr_in_flight = 0, sr_pending = 0\<rparr>"
    if "ros_snapshot now (r s) = Inr sn" for now sn
  proof -
    have "sn_stats sn = r s" using that by (auto simp: ros_snapshot_def Let_def split: if_splits sum.splits)
    then show ?thesis by (simp add: print_stats_def Let_def t c x add.assoc)
  qed
  with o c t show ?thesis by (simp add: add.assoc)
qed

text \<open>
  The two ways of ablating hints agree. Projecting the hint at the transport, as is done for an
  external input so that admission is not affected, publishes the same hint as building it from the
  ablated profile, as is done for a synthetic one; for every mode, stage and message.
\<close>

theorem ablation_equivalence:
  "make_hint (stage_profile abi mode stage class_id deadline_us stale_us budget_us) (Some md) now n =
   (map_sum id (\<lambda>h. project_hint abi h mode)
     (fst (make_hint (ros_profile abi stage class_id deadline_us stale_us budget_us) (Some md) now n)), n)"
  by (simp add: make_hint_def stage_profile_def ros_profile_def project_hint_def default_profile_def)

text \<open>
  \<open>percentile_99\<close> is the nearest-rank percentile: one of the samples, with at least 99 percent of the
  samples at most as large and less than 99 percent smaller; the index is in range for every list that is
  not empty.
\<close>

theorem percentile_99_rank:
  assumes "ages \<noteq> []" and "length ages * 99 + 99 < 18446744073709551616"
  shows "percentile_99 ages \<in> set ages \<and>
    99 * length ages \<le> 100 * length (filter (\<lambda>x. x \<le> percentile_99 ages) ages) \<and>
    100 * length (filter (\<lambda>x. x < percentile_99 ages) ages) < 99 * length ages"
proof -
  let ?n = "length ages" and ?k = "(length ages * 99 + 99) div 100 - 1"
  have n: "0 < ?n" using assms(1) by simp
  have pos: "1 \<le> (?n * 99 + 99) div 100" using n by linarith
  have "vsize ages * 99 + 99 = of_nat (?n * 99 + 99)" by (simp add: vsize_def)
  then have "unat ((vsize ages * 99 + 99) div 100) = (?n * 99 + 99) div 100"
    using unat_of_nat_u64 [OF assms(2)] by (simp only: unat_div) simp
  then have "unat ((vsize ages * 99 + 99) div 100 - 1) = ?k"
    using pos by (subst unat_sub_u64) (simp_all add: word_le_nat_alt)
  then have v: "percentile_99 ages = sort ages ! ?k" using assms(1) by (simp add: percentile_99_def)
  have k: "?k < length (sort ages)" "99 * ?n \<le> 100 * Suc ?k" "100 * ?k < 99 * ?n"
    using n by (simp_all, linarith+)
  note rank = sorted_rank [OF sorted_sort k(1), folded v, unfolded length_filter_sort]
  have "percentile_99 ages \<in> set ages" unfolding v using nth_mem [OF k(1)] by simp
  with rank k(2,3) show ?thesis by linarith
qed

text \<open>
  While ROS is up and no sleep or publication fails, a synthetic source returns having offered exactly
  the rate times the duration: the messages are numbered from 1,
  released in order from the epoch on without drift, and every one of them, and no other release, lies in
  the measurement window of the run.
\<close>

theorem publish_periodic_exact:
  assumes "\<forall>i. ok i \<and> sent i = Inr ()" and "0 < rate_hz"
    and "unat rate_hz * unat duration_s * 1000000000 < 18446744073709551616"
    and "unat start_ns + unat duration_s * 1000000000 < 18446744073709551616"
    and "(r, ms) = publish_periodic ok sent rate_hz duration_s start_ns"
    and "ro_input_mode d = ''synthetic''"
  shows "r = Inr () \<and> ms = map (periodic_message rate_hz start_ns) [0..<unat rate_hz * unat duration_s] \<and>
    sorted (map sj_release_ts_ns ms) \<and>
    list_all (measured_message d start_ns (start_ns + duration_s * 1000000000)) ms"
proof -
  let ?n = "unat rate_hz * unat duration_s"
  have rate: "0 < unat rate_hz" using assms(2) by (simp add: word_less_nat_alt)
  have ms: "r = Inr ()" "ms = map (periodic_message rate_hz start_ns) [0..<?n]"
    using publish_periodic_run [OF assms(1,3)] assms(5) by simp_all
  have q: "k * 1000000000 div unat rate_hz < unat duration_s * 1000000000" if "k < ?n" for k
  proof -
    have "k * 1000000000 < unat duration_s * 1000000000 * unat rate_hz" using that by (simp add: ac_simps)
    then show ?thesis using rate by (simp add: div_less_iff_less_mult)
  qed
  have rel: "unat (sj_release_ts_ns (periodic_message rate_hz start_ns k)) =
      unat start_ns + k * 1000000000 div unat rate_hz" if "k < ?n" for k
  proof -
    have "start_ns + of_nat (k * 1000000000 div unat rate_hz) =
        of_nat (unat start_ns + k * 1000000000 div unat rate_hz)" by simp
    moreover have "unat start_ns + k * 1000000000 div unat rate_hz < 18446744073709551616"
      using q [OF that] assms(4) by linarith
    ultimately show ?thesis by (simp only: periodic_message_def stamped_job.simps unat_of_nat_u64)
  qed
  have fin: "unat (start_ns + duration_s * 1000000000) = unat start_ns + unat duration_s * 1000000000"
  proof -
    have "start_ns + duration_s * 1000000000 = of_nat (unat start_ns + unat duration_s * 1000000000)" by simp
    then show ?thesis using assms(4) by (simp only: unat_of_nat_u64)
  qed
  have "measured_message d start_ns (start_ns + duration_s * 1000000000) (periodic_message rate_hz start_ns k)"
    if "k < ?n" for k
    using q [OF that] by (simp add: measured_message_def assms(6) word_le_nat_alt word_less_nat_alt rel [OF that] fin)
  moreover have "sorted (map sj_release_ts_ns ms)"
    unfolding sorted_iff_nth_mono
    by (auto simp: ms word_le_nat_alt rel intro!: div_le_mono)
  ultimately show ?thesis by (simp add: ms list_all_iff)
qed

section \<open>Witnesses\<close>

definition demo_message :: "u64 \<Rightarrow> stamped_job" where
  "demo_message n = \<lparr>sj_job_id = n, sj_release_ts_ns = 10 * n, sj_source_ts_ns = 0\<rparr>"

definition demo_journeys :: "journey list" where
  "demo_journeys = [Journey False (demo_message 1) Through (\<lambda>_. (0, 0, 0, 0, 0)),
     Journey False (demo_message 2) (Lost_at State_est) (\<lambda>_. (0, 0, 0, 0, 0)),
     Journey True (demo_message 1) Through (\<lambda>_. (0, 0, 0, 0, 0))]"

theorem ros_accounting_witness:
  "rs_offered (fold (ros_apply (\<lambda>_. True)) (rev (concat (map journey_events demo_journeys)))
       (\<lambda>_. ros_stats_zero) Mapping_be) = 2 \<and>
   rs_completed (fold (ros_apply (\<lambda>_. True)) (rev (concat (map journey_events demo_journeys)))
       (\<lambda>_. ros_stats_zero) Mapping_be) = 1"
proof -
  have "mset (rev (concat (map journey_events demo_journeys))) = mset (concat (map journey_events demo_journeys))"
    by simp
  from ros_accounting [OF this refl, of "\<lambda>_. True" Mapping_be] show ?thesis
    by (simp add: demo_journeys_def concerns_def served_def b2w_def)
qed

theorem percentile_99_rank_witness:
  "percentile_99 [5, 3, 9] \<in> set [5, 3, 9] \<and> 100 * length (filter (\<lambda>x. x < percentile_99 [5, 3, 9]) [5, 3, 9]) < 297"
  using percentile_99_rank [of "[5, 3, 9]"] by simp

theorem publish_periodic_exact_witness:
  "publish_periodic (\<lambda>_. True) (\<lambda>_. Inr ()) 30 1 1000 = (Inr (), map (periodic_message 30 1000) [0..<30])"
proof -
  have a: "(0 :: u64) < 30" "unat (30 :: u64) * unat (1 :: u64) * 1000000000 < 18446744073709551616"
    "unat (1000 :: u64) + unat (1 :: u64) * 1000000000 < 18446744073709551616"
    "ro_input_mode ros_defaults = ''synthetic''"
    by (simp_all add: word_less_nat_alt ros_defaults_def)
  show ?thesis
    using publish_periodic_exact [of "\<lambda>_. True" "\<lambda>_. Inr ()", OF _ a(1-3) surjective_pairing [symmetric] a(4)]
    by (simp add: prod_eq_iff)
qed

end
