(* ===== verification/Executor_Events.thy ===== *)
theory Executor_Events
  imports Freshness_Executor
begin

text \<open>
  What a message-aware subscription sees of one \<open>spin()\<close> of
  \<^verbatim>\<open>src/ros2/scx_slam_executor/src/freshness_executor.cpp\<close>: the calls of its observer
  (\<open>Impl::observe\<close>, \<open>Impl::drop\<close>) and of its callback (\<open>handle_message\<close>), in the order in which the
  dispatcher and the worker make them. The run of the two threads is extended by a log; the log of
  every run is a sequence of selected messages, each settled before the next one is selected.
\<close>

section \<open>The log\<close>

text \<open>
  \<open>Note_selected\<close> and \<open>Note_dropped\<close>: the observer, if there is one, was told and returned.
  \<open>Note_handled\<close>: \<open>handle_message\<close> was called, whether or not the callback throws.
\<close>

datatype message_note = Note_selected nat | Note_dropped nat | Note_handled nat

definition note_of :: "(nat \<Rightarrow> message_note) \<Rightarrow> pending_work \<Rightarrow> message_note list" where
  "note_of f w = (case w_message w of None \<Rightarrow> [] | Some m \<Rightarrow> [f m])"

text \<open>The call in \<open>drop\<close>; when the observer throws, nothing was reported.\<close>

definition drop_notes :: "pending_work \<Rightarrow> message_note list" where
  "drop_notes w =
     (case observe w DroppedBeforeStart of Inl e \<Rightarrow> [] | Inr _ \<Rightarrow> note_of Note_dropped w)"

text \<open>The calls between the metadata and the admission decision (lines 477 to 491).\<close>

definition admit_notes ::
  "dispatcher_env \<Rightarrow> profile_binding \<Rightarrow> message_metadata \<Rightarrow> pending_work \<Rightarrow> u64 \<Rightarrow>
   message_note list" where
  "admit_notes env b md w j =
     (if md_job_id md = 0 \<or> md_release_ts_ns md = 0 then []
      else case make_hint (pb_profile b) (Some md) (de_now_hint env) j of
        (Inl e, _) \<Rightarrow> []
      | (Inr h, _) \<Rightarrow>
          (let v = w\<lparr>w_hint := h, w_reject_expired := p_reject_expired (pb_profile b),
                     w_observer := pb_observer b\<rparr>
           in case observe v Selected of
                Inl e \<Rightarrow> []
              | Inr _ \<Rightarrow> note_of Note_selected v @
                  (case expired (de_now_expiry env) v of
                     Inl e \<Rightarrow> [] | Inr False \<Rightarrow> [] | Inr True \<Rightarrow> drop_notes v)))"

definition prepare_notes ::
  "fresh_abi \<Rightarrow> dispatcher_env \<Rightarrow> any_executable \<Rightarrow> 's executor \<Rightarrow> message_note list" where
  "prepare_notes abi env e x =
     (let b = binding_for abi e x
      in case (pb_metadata_extractor b, ex_subscription e, de_create env, de_take env) of
           (Some ext, Some ROS_MESSAGE, Inr m, Inr True) \<Rightarrow>
             (case ext m of
                Inl err \<Rightarrow> []
              | Inr md \<Rightarrow> admit_notes env b md
                  ((new_work e)\<lparr>w_message := Some m, w_message_info := True\<rparr>) (x_next_job_id x))
         | _ \<Rightarrow> [])"

definition dispatcher_notes ::
  "fresh_abi \<Rightarrow> dispatcher_env \<Rightarrow> 's executor \<Rightarrow> message_note list" where
  "dispatcher_notes abi env x =
     (case (x_dispatcher x, de_next env) of
        (D_select, Next e mark) \<Rightarrow> prepare_notes abi env e x
      | _ \<Rightarrow> [])"

text \<open>The worker tests the expiry once more, then drops or calls (lines 379 to 385).\<close>

definition worker_notes :: "worker_env \<Rightarrow> 's executor \<Rightarrow> message_note list" where
  "worker_notes env x =
     (case x_worker x of
        W_run w \<Rightarrow>
          if w_message w \<noteq> None then
            (case expired (we_now env) w of
               Inl e \<Rightarrow> []
             | Inr True \<Rightarrow> drop_notes w
             | Inr False \<Rightarrow> note_of Note_handled w)
          else []
      | _ \<Rightarrow> [])"

text \<open>A run with its log. \<open>other\<close> stands for \<open>cancel()\<close>, registry calls and spurious wake-ups.\<close>

inductive other_step :: "fresh_abi \<Rightarrow> 's executor \<Rightarrow> 's executor \<Rightarrow> bool" for abi :: fresh_abi where
  "other_step abi x (x\<lparr>x_spinning := False\<rparr>)"
| "other_step abi x (snd (client abi call x))"
| "other_step abi x (x\<lparr>x_dsleep := False\<rparr>)"
| "other_step abi x (x\<lparr>x_wsleep := False\<rparr>)"

inductive logged_step ::
  "fresh_abi \<Rightarrow> 's sink_ops \<Rightarrow> worker_config \<Rightarrow> (nat option \<Rightarrow> nat set \<Rightarrow> nat set) \<Rightarrow>
   's executor \<times> message_note list \<Rightarrow> 's executor \<times> message_note list \<Rightarrow> bool"
  for abi :: fresh_abi and sink :: "'s sink_ops" and config :: worker_config
    and dtor :: "nat option \<Rightarrow> nat set \<Rightarrow> nat set" where
  dispatch: "dispatcher_step abi sink denv x = Some y \<Longrightarrow>
     logged_step abi sink config dtor (x, ns) (y, ns @ dispatcher_notes abi denv x)"
| work: "worker_step sink config dtor wenv x = Some y \<Longrightarrow>
     logged_step abi sink config dtor (x, ns) (y, ns @ worker_notes wenv x)"
| other: "other_step abi x y \<Longrightarrow> logged_step abi sink config dtor (x, ns) (y, ns)"

definition logged_entry :: "'s \<Rightarrow> 's executor \<times> message_note list \<Rightarrow> bool" where
  "logged_entry s0 p \<longleftrightarrow> spin_entry s0 (fst p) \<and> snd p = []"

section \<open>What a log looks like\<close>

text \<open>
  \<open>settled\<close> is the log of a sequence of messages, each with the flag that says whether it was
  dropped; \<open>unsettled\<close> is what a message adds that is selected and not settled yet.
\<close>

definition settled :: "(nat \<times> bool) list \<Rightarrow> message_note list" where
  "settled ps = concat (map (\<lambda>(m, dropped).
     [Note_selected m, if dropped then Note_dropped m else Note_handled m]) ps)"

definition unsettled :: "nat option \<Rightarrow> message_note list" where
  "unsettled p = (case p of None \<Rightarrow> [] | Some m \<Rightarrow> [Note_selected m])"

definition message_in_flight :: "'s executor \<Rightarrow> nat option" where
  "message_in_flight x = (case in_progress x of None \<Rightarrow> None | Some w \<Rightarrow> w_message w)"

text \<open>\<open>spin()\<close> is on its way to throw.\<close>

definition failing :: "'s executor \<Rightarrow> bool" where
  "failing x \<longleftrightarrow> x_worker_error x \<noteq> None \<or>
     (case x_dispatcher x of
        D_stop err \<Rightarrow> err \<noteq> None
      | D_shutdown err \<Rightarrow> err \<noteq> None
      | D_notify_stop err \<Rightarrow> err \<noteq> None
      | D_join err \<Rightarrow> err \<noteq> None
      | D_done r \<Rightarrow> (\<exists>e. r = Inl e)
      | _ \<Rightarrow> False) \<or>
     (case x_worker x of
        W_failed e \<Rightarrow> True | W_cleared e \<Rightarrow> True | W_outer e \<Rightarrow> True | W_notify_error \<Rightarrow> True
      | W_cancel \<Rightarrow> True | _ \<Rightarrow> False)"

definition open_ok :: "'s executor \<Rightarrow> nat option \<Rightarrow> bool" where
  "open_ok x p \<longleftrightarrow> message_in_flight x = p \<or> message_in_flight x = None \<and> p \<noteq> None \<and>
     in_progress x = None \<and> failing x"

definition log_inv :: "'s executor \<times> message_note list \<Rightarrow> bool" where
  "log_inv p \<longleftrightarrow> (\<exists>ps q. snd p = settled ps @ unsettled q \<and> open_ok (fst p) q)"

lemma settled_append [simp]: "settled (ps @ qs) = settled ps @ settled qs"
  by (simp add: settled_def)

lemma settled_single [simp]:
  "settled [(m, d)] = [Note_selected m, if d then Note_dropped m else Note_handled m]"
  by (simp add: settled_def)

lemma unsettled_simps [simp]: "unsettled None = []" "unsettled (Some m) = [Note_selected m]"
  by (simp_all add: unsettled_def)

section \<open>Notes of a step\<close>

lemma admit_outcome:
  assumes "admit env b md w x = (p, y)" and "w_message w = Some m"
  shows "case p of
           P_publish v \<Rightarrow> w_message v = Some m \<and>
             admit_notes env b md w (x_next_job_id x) = [Note_selected m]
         | P_continue \<Rightarrow> admit_notes env b md w (x_next_job_id x) = [Note_selected m, Note_dropped m]
         | P_throw e \<Rightarrow> admit_notes env b md w (x_next_job_id x) \<in> {[], [Note_selected m]}"
proof (cases "md_job_id md = 0 \<or> md_release_ts_ns md = 0")
  case True
  with assms show ?thesis by (auto simp: admit_def admit_notes_def fail_def)
next
  case False
  obtain r j where mk: "make_hint (pb_profile b) (Some md) (de_now_hint env) (x_next_job_id x) = (r, j)"
    by fastforce
  show ?thesis
  proof (cases r)
    case (Inl e)
    with False mk assms show ?thesis by (auto simp: admit_def admit_notes_def fail_def)
  next
    case (Inr h)
    let ?v = "w\<lparr>w_hint := h, w_reject_expired := p_reject_expired (pb_profile b),
      w_observer := pb_observer b\<rparr>"
    have a: "(p, y) = (case observe ?v Selected of
        Inl e \<Rightarrow> fail e ?v (x\<lparr>x_next_job_id := j\<rparr>)
      | Inr _ \<Rightarrow> (case expired (de_now_expiry env) ?v of
           Inl e \<Rightarrow> fail e ?v (x\<lparr>x_next_job_id := j\<rparr>)
         | Inr False \<Rightarrow> (P_publish ?v, x\<lparr>x_next_job_id := j\<rparr>)
         | Inr True \<Rightarrow> (case drop_work ?v (x\<lparr>x_next_job_id := j\<rparr>) of
             (Inl e, v', y') \<Rightarrow> fail e v' y' | (Inr _, v', y') \<Rightarrow> (P_continue, y'))))"
      using assms(1) False mk Inr by (simp add: admit_def Let_def)
    have n: "admit_notes env b md w (x_next_job_id x) = (case observe ?v Selected of Inl e \<Rightarrow> []
      | Inr _ \<Rightarrow> Note_selected m # (case expired (de_now_expiry env) ?v of
          Inl e \<Rightarrow> [] | Inr False \<Rightarrow> [] | Inr True \<Rightarrow> drop_notes ?v))"
      using assms(2) False mk Inr by (simp add: admit_notes_def Let_def note_of_def split: sum.split)
    have d: "drop_notes ?v = (case observe ?v DroppedBeforeStart of Inl e \<Rightarrow> []
      | Inr _ \<Rightarrow> [Note_dropped m])" using assms(2) by (simp add: drop_notes_def note_of_def split: sum.split)
    have m: "w_message ?v = Some m" using assms(2) by simp
    show ?thesis
      unfolding n d using a m
      by (auto simp: fail_def drop_work_def split_beta
          split: sum.splits bool.splits)
  qed
qed

lemma prepare_outcome:
  assumes "prepare abi env e x = (p, y)"
  shows "case p of
           P_publish v \<Rightarrow> prepare_notes abi env e x = unsettled (w_message v)
         | P_continue \<Rightarrow> prepare_notes abi env e x = [] \<or>
             (\<exists>m. prepare_notes abi env e x = settled [(m, True)])
         | P_throw err \<Rightarrow> (\<exists>q. prepare_notes abi env e x = unsettled q)"
proof -
  have throw: "\<exists>q. ns = unsettled q" if "ns \<in> {[], [Note_selected m]}" for ns m
    using that by (metis empty_iff insert_iff unsettled_simps)
  have adm: "case p of
      P_publish v \<Rightarrow> admit_notes env b md w (x_next_job_id x) = unsettled (w_message v)
    | P_continue \<Rightarrow> admit_notes env b md w (x_next_job_id x) = settled [(m, True)]
    | P_throw err \<Rightarrow> (\<exists>q. admit_notes env b md w (x_next_job_id x) = unsettled q)"
    if "admit env b md w (x\<lparr>x_messages := M\<rparr>) = (p, y)" "w_message w = Some m" for b md w M m
    using admit_outcome [OF that] throw by (auto split: prepared.splits)
  have none: "\<exists>q. [] = unsettled q" by (metis unsettled_simps(1))
  show ?thesis
    using assms none
    by (auto simp: prepare_def prepare_notes_def Let_def fail_def new_work_def
        split: option.splits sum.splits bool.splits delivered_kind.splits prod.splits dest!: adm)
      (auto simp: prepare_notes_def new_work_def split: prepared.splits)
qed

text \<open>\<open>select_next\<close> with its notes: the three outcomes of the loop body.\<close>

lemma select_outcome:
  assumes "control_inv x" and "resource_inv x" and "x_dispatcher x = D_select"
  obtains (again) "x_dispatcher (select_next abi env x) = D_test"
      "dispatcher_notes abi env x = [] \<or> (\<exists>m. dispatcher_notes abi env x = settled [(m, True)])"
  | (throws) e q where "x_dispatcher (select_next abi env x) = D_stop (Some e)"
      "dispatcher_notes abi env x = unsettled q"
  | (publish) w where "x_dispatcher (select_next abi env x) = D_publish w"
      "dispatcher_notes abi env x = unsettled (w_message w)"
proof (cases "de_next env")
  case No_executable
  with assms(3) show ?thesis by (intro again) (simp_all add: select_next_def dispatcher_notes_def)
next
  case (Next_throws e)
  with assms(3) show ?thesis
    by (intro throws [of e None]) (simp_all add: select_next_def dispatcher_notes_def)
next
  case (Next e mark)
  define y where "y = (if mark then x\<lparr>x_taken := x_taken x \<union> set_option (ex_callback_group e)\<rparr> else x)"
  obtain p z where p: "prepare abi env e y = (p, z)" by fastforce
  have "binding_for abi e y = binding_for abi e x" "x_next_job_id y = x_next_job_id x"
    by (auto simp: y_def binding_for_def split: option.splits)
  then have "prepare_notes abi env e y = prepare_notes abi env e x"
    unfolding prepare_notes_def by (simp only:)
  then have nts: "dispatcher_notes abi env x = prepare_notes abi env e y"
    using Next assms(3) by (simp add: dispatcher_notes_def)
  have res: "select_next abi env x =
      (case p of P_continue \<Rightarrow> z\<lparr>x_dispatcher := D_test\<rparr>
       | P_throw err \<Rightarrow> z\<lparr>x_dispatcher := D_stop (Some err)\<rparr>
       | P_publish w \<Rightarrow> z\<lparr>x_dispatcher := D_publish w\<rparr>)"
    by (simp add: select_next_def Let_def Next p y_def [symmetric])
  from prepare_outcome [OF p] show ?thesis
    using that by (cases p) (auto simp: res nts)
qed

lemma dispatcher_silent:
  "x_dispatcher x \<noteq> D_select \<Longrightarrow> dispatcher_notes abi env x = []"
  by (simp add: dispatcher_notes_def split: dispatcher_pc.splits)

lemma worker_outcome:
  assumes "worker_step sink config dtor env x = Some y" and "x_worker x = W_run w"
  shows "x_worker y = W_park \<and> (case w_message w of None \<Rightarrow> worker_notes env x = []
           | Some m \<Rightarrow> worker_notes env x \<in> {[Note_dropped m], [Note_handled m]}) \<or>
         (\<exists>e. x_worker y = W_failed e) \<and> (case w_message w of None \<Rightarrow> worker_notes env x = []
           | Some m \<Rightarrow> worker_notes env x \<in> {[], [Note_handled m]})"
  using assms
  by (auto simp: worker_step_def worker_notes_def run_work_def drop_work_def drop_notes_def
      note_of_def execute_taken_subscription_def
      split: if_splits sum.splits bool.splits option.splits prod.splits)

lemma worker_silent: "\<forall>w. x_worker x \<noteq> W_run w \<Longrightarrow> worker_notes env x = []"
  by (simp add: worker_notes_def split: worker_pc.splits)

section \<open>The log of a run\<close>

lemma log_keep:
  assumes "log_inv (x, ns)" and "\<And>q. open_ok x q \<Longrightarrow> open_ok y q"
  shows "log_inv (y, ns)"
  using assms by (auto simp: log_inv_def)

lemma open_keep:
  assumes "in_progress y = in_progress x" and "failing x \<Longrightarrow> failing y" and "open_ok x q"
  shows "open_ok y q"
  using assms by (auto simp: open_ok_def message_in_flight_def)

lemma log_settle:
  assumes "log_inv (x, ns)" and "message_in_flight x = Some m" and "in_progress y = None"
    and "k = Note_dropped m \<or> k = Note_handled m"
  shows "log_inv (y, ns @ [k])"
proof -
  from assms(1,2) obtain ps where "ns = settled ps @ [Note_selected m]"
    by (auto simp: log_inv_def open_ok_def)
  then have "ns @ [k] = settled (ps @ [(m, k = Note_dropped m)]) @ unsettled None"
    using assms(4) by auto
  moreover have "open_ok y None" using assms(3) by (simp add: open_ok_def message_in_flight_def)
  ultimately show ?thesis unfolding log_inv_def by (metis fst_conv snd_conv)
qed

lemma log_select:
  assumes "log_inv (x, ns)" and "in_progress x = None" and "\<not> failing x" and "open_ok y q"
  shows "log_inv (y, ns @ unsettled q)" and "log_inv (y, ns @ settled [(m, d)] @ unsettled q)"
proof -
  from assms(1-3) obtain ps where ns: "ns = settled ps"
    by (auto simp: log_inv_def open_ok_def message_in_flight_def)
  with assms(4) show "log_inv (y, ns @ unsettled q)" by (auto simp: log_inv_def)
  have "ns @ settled [(m, d)] @ unsettled q = settled (ps @ [(m, d)]) @ unsettled q" by (simp add: ns)
  with assms(4) show "log_inv (y, ns @ settled [(m, d)] @ unsettled q)"
    unfolding log_inv_def by (metis fst_conv snd_conv)
qed

lemmas log_defs = open_ok_def message_in_flight_def in_progress_def failing_def

text \<open>Apart from a selection, a step moves the callback in flight or fails; a failure is final.\<close>

lemma dispatcher_keeps:
  assumes inv: "control_inv x" "resource_inv x" and st: "dispatcher_step abi sink env x = Some y"
    and "x_dispatcher x \<noteq> D_select"
  shows "in_progress y = in_progress x \<and> (failing x \<longrightarrow> failing y) \<or> in_progress y = None \<and> failing y"
proof -
  have parked: "x_dispatcher x = D_publish w \<or> x_dispatcher x = D_handoff w \<Longrightarrow>
      x_pending x = None \<and> x_worker x = W_wait" for w
    using inv(1) by (auto simp: control_inv_def dispatcher_inv_def parked_def)
  show ?thesis
    using inv st
    by (cases rule: dispatcher_cases; insert assms(4) parked;
      simp add: in_progress_def failing_def notify_all_def split: option.split
        cong: worker_pc.case_cong)
qed

lemma select_not_failing: "control_inv x \<Longrightarrow> x_dispatcher x = D_select \<Longrightarrow> \<not> failing x"
  by (simp add: control_defs failing_def)

lemma dispatcher_failing:
  assumes "control_inv x" and "resource_inv x" and "dispatcher_step abi sink env x = Some y"
    and "failing x"
  shows "failing y"
  using dispatcher_keeps [OF assms(1-3)] select_not_failing [OF assms(1)] assms(4) by blast

lemma worker_failing:
  assumes inv: "control_inv x" "resource_inv x" and dt: "releases_group dtor"
    and st: "worker_step sink config dtor env x = Some y" and "failing x"
  shows "failing y"
proof -
  have e: "x_worker x = W_cancel \<Longrightarrow> x_worker_error x \<noteq> None"
    using inv(1) by (simp add: control_inv_def worker_inv_def)
  show ?thesis
    using inv dt st
    by (cases rule: worker_cases; insert assms(5) e; simp add: failing_def notify_all_def)
qed

lemma dispatcher_log:
  assumes inv: "control_inv x" "resource_inv x" and st: "dispatcher_step abi sink env x = Some y"
    and log: "log_inv (x, ns)"
  shows "log_inv (y, ns @ dispatcher_notes abi env x)"
proof (cases "x_dispatcher x = D_select")
  case True
  have y: "y = select_next abi env x" using st True by (simp add: dispatcher_step_def split: if_splits)
  have idle: "in_progress x = None" "\<not> failing x"
    using inv(1) True by (simp_all add: control_defs in_progress_def select_not_failing failing_def)
  have same: "x_pending y = x_pending x" "x_worker y = x_worker x" "x_worker_error y = x_worker_error x"
    using select_idle [OF inv True] y by (cases rule: select_cases [of x abi env]; simp)+
  note sel = log_select [OF log idle]
  from inv True show ?thesis
  proof (cases rule: select_outcome [of x abi env])
    case again
    then have "open_ok y None" using inv(1) True same y by (simp add: log_defs control_defs)
    then show ?thesis using sel(1) [of y None] sel(2) [of y None _ True] again(2) by auto
  next
    case (throws e q)
    then have "open_ok y q" using inv(1) True same y
      by (cases q) (simp_all add: log_defs control_defs)
    then show ?thesis using sel(1) throws(2) by simp
  next
    case (publish w)
    then have "open_ok y (w_message w)" using inv(1) True same y by (simp add: log_defs control_defs)
    then show ?thesis using sel(1) publish(2) by simp
  qed
next
  case False
  note keep = dispatcher_keeps [OF inv st False]
  have "open_ok y q" if "open_ok x q" for q
    using keep that open_keep by (cases q) (auto simp: open_ok_def message_in_flight_def)
  with log show ?thesis by (simp add: dispatcher_silent [OF False] log_keep)
qed

lemma worker_log:
  assumes inv: "control_inv x" "resource_inv x" and dt: "releases_group dtor"
    and st: "worker_step sink config dtor env x = Some y" and log: "log_inv (x, ns)"
  shows "log_inv (y, ns @ worker_notes env x)"
proof (cases "\<exists>w. x_worker x = W_run w")
  case True
  then obtain w where w: "x_worker x = W_run w" by blast
  have fl: "in_progress x = Some w" using inv(1) w by (simp add: control_defs in_progress_def)
  have idle: "x_pending x = None"
      "\<forall>v. x_dispatcher x \<noteq> D_publish v \<and> x_dispatcher x \<noteq> D_handoff v"
    using inv(1) w by (auto simp: control_inv_def worker_inv_def dispatcher_inv_def parked_def)
  have none: "in_progress y = None" and err: "x_worker y = W_park \<or> failing y"
    using inv dt st
    by (cases rule: worker_cases; insert idle;
      simp add: w in_progress_def failing_def split: dispatcher_pc.split)+
  show ?thesis
  proof (cases "w_message w")
    case None
    have "open_ok y q" if "open_ok x q" for q
      using that fl None none by (simp add: open_ok_def message_in_flight_def)
    with worker_outcome [OF st w] None log show ?thesis by (auto intro: log_keep)
  next
    case (Some m)
    have fl': "message_in_flight x = Some m" using fl Some by (simp add: message_in_flight_def)
    have "open_ok y q" if "failing y" and "open_ok x q" for q
      using that fl' none by (auto simp: open_ok_def message_in_flight_def)
    then have "log_inv (y, ns)" if "failing y"
      using log_keep [OF log] that by blast
    with worker_outcome [OF st w] Some log_settle [OF log fl' none] show ?thesis
      using err by (auto simp: failing_def)
  qed
next
  case False
  have "in_progress y = in_progress x"
    using inv dt st
    by (cases rule: worker_cases; insert False;
      simp add: in_progress_def notify_all_def cong: option.case_cong)
  then have "open_ok y q" if "open_ok x q" for q
    using open_keep worker_failing [OF inv dt st] that by blast
  with False log show ?thesis by (simp add: worker_silent log_keep)
qed

lemma open_ok_frame:
  "open_ok (x\<lparr>x_profiles := f\<rparr>) q = open_ok x q"
  "open_ok (x\<lparr>x_spinning := b\<rparr>) q = open_ok x q"
  "open_ok (x\<lparr>x_dsleep := b\<rparr>) q = open_ok x q"
  "open_ok (x\<lparr>x_wsleep := b\<rparr>) q = open_ok x q"
  by (simp_all add: log_defs cong: worker_pc.case_cong dispatcher_pc.case_cong option.case_cong)

lemma other_log:
  assumes "other_step abi x y" and "log_inv (x, ns)"
  shows "log_inv (y, ns)"
  using assms(1)
proof cases
  case (2 call)
  with assms(2) client_frame [of abi call x] show ?thesis by (metis log_keep open_ok_frame(1))
qed (use assms(2) in \<open>simp_all add: log_inv_def open_ok_frame\<close>)

lemma other_exec: "other_step abi x y \<Longrightarrow> exec_step abi sink config dtor x y"
  by (cases rule: other_step.cases) (auto intro: exec_step.intros)

text \<open>Forgetting the log gives a run of the executor, and every run of the executor has a log.\<close>

lemma logged_exec:
  assumes "logged_step abi sink config dtor p q"
  shows "exec_step abi sink config dtor (fst p) (fst q)"
  using assms
proof cases
  case (dispatch denv x y ns)
  then show ?thesis by (simp add: exec_step.thread thread_step.dispatch [where denv = denv])
next
  case (work wenv x y ns)
  then show ?thesis by (simp add: exec_step.thread thread_step.work [where wenv = wenv])
qed (simp add: other_exec)

lemma exec_logged:
  assumes "exec_step abi sink config dtor x y"
  shows "\<exists>ns'. logged_step abi sink config dtor (x, ns) (y, ns')"
  using assms
proof cases
  case thread
  then show ?thesis by cases (auto intro: logged_step.dispatch logged_step.work)
qed (auto intro!: logged_step.other exI [of _ ns] other_step.intros)

context executor_run
begin

lemma logged_inv_step:
  assumes "exec_inv slot view cleared s0 (fst p) \<and> log_inv p"
    and "logged_step abi sink config dtor p q"
  shows "exec_inv slot view cleared s0 (fst q) \<and> log_inv q"
proof
  show "exec_inv slot view cleared s0 (fst q)"
    using exec_inv_step logged_exec [OF assms(2)] assms(1) by blast
  show "log_inv q"
    using assms(2,1)
    by cases (auto simp: exec_inv_def intro: dispatcher_log worker_log [OF _ _ destructor] other_log)
qed

end

sublocale executor_run \<subseteq> logged: invariant_system "logged_entry s0"
  "logged_step abi sink config dtor" "\<lambda>p. exec_inv slot view cleared s0 (fst p) \<and> log_inv p"
proof unfold_locales
  fix p assume "logged_entry s0 p"
  then have e: "spin_entry s0 (fst p)" and n: "snd p = []" by (simp_all add: logged_entry_def)
  from e have "open_ok (fst p) None"
    by (cases p) (auto simp: spin_entry_def spin_begin_def Let_def log_defs split: if_splits sum.splits)
  then have "log_inv p" unfolding log_inv_def n
    by (intro exI [of _ "[]"] exI [of _ None]) (simp add: settled_def)
  with exec_inv_entry [OF e] show "exec_inv slot view cleared s0 (fst p) \<and> log_inv p" by blast
qed (rule logged_inv_step)

context executor_run
begin

lemma logged_reach:
  "reach (logged_entry s0) (logged_step abi sink config dtor) p \<Longrightarrow>
   exec_inv slot view cleared s0 (fst p) \<and> log_inv p"
  by (rule logged.reach_invar)

end

text \<open>A run of the executor extends to a run with its log.\<close>

lemma reach_logged:
  "reach (spin_entry s0) (exec_step abi sink config dtor) x \<Longrightarrow>
   \<exists>ns. reach (logged_entry s0) (logged_step abi sink config dtor) (x, ns)"
proof (induction rule: reach.induct)
  case (reach_init x)
  then have "logged_entry s0 (x, [])" by (simp add: logged_entry_def)
  then show ?case by blast
next
  case (reach_step x y)
  then show ?case using exec_logged reach.reach_step by metis
qed

lemma log_shape:
  assumes "hint_sink sink slot view cleared" and "releases_group dtor"
    and "reach (logged_entry s0) (logged_step abi sink config dtor) (x, ns)"
  shows "\<exists>ps q. ns = settled ps @ unsettled q \<and>
           (q = message_in_flight x \<or> in_progress x = None \<and> failing x) \<and>
           (x_dispatcher x = D_done (Inr ()) \<longrightarrow> q = None)"
proof -
  note run = executor_runI [OF assms(1,2)]
  have inv: "exec_inv slot view cleared s0 x" and "log_inv (x, ns)"
    using executor_run.logged_reach [OF run assms(3)] by simp_all
  then obtain ps q where ns: "ns = settled ps @ unsettled q" and q: "open_ok x q"
    by (auto simp: log_inv_def)
  have "q = None" if d: "x_dispatcher x = D_done (Inr ())"
  proof -
    have w: "x_worker x = W_done" and e: "x_worker_error x = None"
      using inv d by (simp_all add: exec_inv_def control_inv_def dispatcher_inv_def result_inv_def)
    moreover have "x_pending x = None"
      using inv w by (simp add: exec_inv_def control_inv_def worker_inv_def)
    ultimately show ?thesis using q d by (simp add: log_defs)
  qed
  with ns q show ?thesis by (auto simp: open_ok_def)
qed

text \<open>After a normal return the log consists of settled messages only.\<close>

lemma log_settled:
  assumes "hint_sink sink slot view cleared" and "releases_group dtor"
    and "reach (logged_entry s0) (logged_step abi sink config dtor) (x, ns)"
    and "x_dispatcher x = D_done (Inr ())"
  obtains ps where "ns = settled ps"
  using log_shape [OF assms(1-3)] assms(4) by auto

section \<open>Property\<close>

text \<open>
  C7: Every message the executor selects is settled exactly once and before the next one is selected:
  its observer is told that it was dropped, or its callback is called, never both and never twice. The
  log of every run is a sequence of such pairs, followed by at most one message selected and not
  settled; that one is in flight, or an exception overtook it and \<open>spin()\<close> throws. When
  \<open>spin()\<close> returns normally every selected message is settled.
\<close>

theorem selected_settled_once:
  assumes "hint_sink sink slot view cleared" and "releases_group dtor"
    and "reach (logged_entry s0) (logged_step abi sink config dtor) (x, ns)"
  shows "\<exists>ps q. ns = settled ps @ unsettled q \<and>
           (q = message_in_flight x \<or> in_progress x = None \<and> failing x) \<and>
           (x_dispatcher x = D_done (Inr ()) \<longrightarrow> q = None)"
  using assms by (rule log_shape)

text \<open>
  The run of \<open>example_running\<close> and \<open>example_returned\<close> with its log: message 5 is selected, and, once
  the callback has been called, settled.
\<close>

abbreviation example_logged ::
  "(u64 \<Rightarrow> fresh_task_hint option) executor \<times> message_note list \<Rightarrow> bool" where
  "example_logged \<equiv> reach (logged_entry (\<lambda>_. None)) (logged_step example_abi
     (pinned_sink example_abi map_write) example_config example_dtor)"

fun logged_schedule ::
  "bool list \<Rightarrow> (u64 \<Rightarrow> fresh_task_hint option) executor \<times> message_note list \<Rightarrow>
   ((u64 \<Rightarrow> fresh_task_hint option) executor \<times> message_note list) option" where
  "logged_schedule [] p = Some p"
| "logged_schedule (True # bs) p =
     (case dispatcher_step example_abi (pinned_sink example_abi map_write) example_dispatcher (fst p) of
        None \<Rightarrow> None
      | Some y \<Rightarrow> logged_schedule bs (y, snd p @ dispatcher_notes example_abi example_dispatcher (fst p)))"
| "logged_schedule (False # bs) p =
     (case worker_step (pinned_sink example_abi map_write) example_config example_dtor
             example_worker (fst p) of
        None \<Rightarrow> None
      | Some y \<Rightarrow> logged_schedule bs (y, snd p @ worker_notes example_worker (fst p)))"

lemma logged_schedule_reach:
  "example_logged p \<Longrightarrow> logged_schedule bs p = Some q \<Longrightarrow> example_logged q"
proof (induction bs p rule: logged_schedule.induct)
  case (2 bs p)
  from 2(3) obtain y where y: "dispatcher_step example_abi (pinned_sink example_abi map_write)
      example_dispatcher (fst p) = Some y" by (auto split: option.splits)
  from reach_step [OF 2(2)] logged_step.dispatch [OF y, of _ _ "snd p"]
  show ?case using 2 y by simp
next
  case (3 bs p)
  from 3(3) obtain y where y: "worker_step (pinned_sink example_abi map_write) example_config
      example_dtor example_worker (fst p) = Some y" by (auto split: option.splits)
  from reach_step [OF 3(2)] logged_step.work [OF y, of _ "snd p"]
  show ?case using 3 y by simp
qed simp

lemma example_logged_run: "example_logged (example_returned, [Note_selected 5, Note_handled 5])"
proof (rule logged_schedule_reach)
  have "example_logged (example_running, [Note_selected 5])"
  proof (rule logged_schedule_reach)
    show "example_logged (snd (spin_begin (Inr ()) example_executor), [])"
      by (rule reach_init) (auto simp: logged_entry_def spin_entry_def spin_begin_def
        example_executor_def intro!: exI [of _ "Inr ()"] exI [of _ example_executor])
    show "logged_schedule to_running (snd (spin_begin (Inr ()) example_executor), []) =
        Some (example_running, [Note_selected 5])"
      by (simp add: example_running_def example_defs exec_eval dispatcher_notes_def worker_notes_def
        prepare_notes_def admit_notes_def note_of_def)
  qed
  then show "example_logged (example_cancelled, [Note_selected 5])"
    unfolding example_cancelled_def by (rule reach_step) (intro logged_step.other other_step.intros)
  show "logged_schedule [False, False, False, True, True, True, True, False, True]
      (example_cancelled, [Note_selected 5]) =
      Some (example_returned, [Note_selected 5, Note_handled 5])"
    by (simp add: example_cancelled_def example_running_def example_returned_def example_defs
      exec_eval dispatcher_notes_def worker_notes_def note_of_def run_work_def
      execute_taken_subscription_def give_up_eq clear_completed_hint_def)
qed

theorem selected_settled_once_witness:
  "\<exists>ps. [Note_selected 5, Note_handled 5] = settled ps"
  using selected_settled_once [OF example_contract example_releases example_logged_run]
  by (simp add: example_returned_def example_executor_def)

end
