(* ===== verification/Ros_Executors.thy ===== *)
theory Ros_Executors
  imports Ros_Pipeline Executor_Events
begin

text \<open>
  The ROS pipeline as a whole: the four executors of \<open>main\<close> in
  \<^verbatim>\<open>src/ros2/scx_slam_workload/src/slam_pipeline.cpp\<close>, whose logs (\<open>Executor_Events\<close>) are the calls
  of the observers and callbacks that account for the messages (\<open>Ros_Pipeline\<close>). That every message a
  stage selects is settled there is a property of the executor. A subscription takes a message at most
  once, and possibly not at all: the queue is bounded and the run may be cancelled first.
\<close>

section \<open>The log of an executor as events of its stage\<close>

definition selected_in :: "message_note list \<Rightarrow> nat list" where
  "selected_in ns = concat (map (\<lambda>n. case n of Note_selected m \<Rightarrow> [m] | _ \<Rightarrow> []) ns)"

definition handled_in :: "message_note list \<Rightarrow> nat list" where
  "handled_in ns = concat (map (\<lambda>n. case n of Note_handled m \<Rightarrow> [m] | _ \<Rightarrow> []) ns)"

definition dropped_in :: "message_note list \<Rightarrow> nat list" where
  "dropped_in ns = concat (map (\<lambda>n. case n of Note_dropped m \<Rightarrow> [m] | _ \<Rightarrow> []) ns)"

text \<open>
  A note is a call of the observer or of the callback of the stage; \<open>cast\<close> is the message a handle stands
  for, \<open>readings\<close> the clocks the callback read. A callback that returned has passed both critical sections
  of \<open>account_job\<close>.
\<close>

type_synonym stage_readings = "nat \<Rightarrow> int \<times> u64 \<times> u64 \<times> u64 \<times> u64"

definition note_events ::
  "ros_stage \<Rightarrow> (nat \<Rightarrow> stamped_job) \<Rightarrow> stage_readings \<Rightarrow> message_note \<Rightarrow> ros_event list" where
  "note_events s cast readings n =
     (case n of
        Note_selected m \<Rightarrow> [Ev_observe s (cast m) Selected]
      | Note_dropped m \<Rightarrow> [Ev_observe s (cast m) DroppedBeforeStart]
      | Note_handled m \<Rightarrow> (case readings m of (clk, cpu_start, start, cpu, now) \<Rightarrow>
          [Ev_begin s (cast m) clk cpu_start, Ev_end s (cast m) start cpu now]))"

definition log_events ::
  "ros_stage \<Rightarrow> (nat \<Rightarrow> stamped_job) \<Rightarrow> stage_readings \<Rightarrow> message_note list \<Rightarrow> ros_event list" where
  "log_events s cast readings ns = concat (map (note_events s cast readings) ns)"

definition ros_stages :: "ros_stage list" where
  "ros_stages = [Imu_prop, Vision_fe, State_est, Mapping_be]"

text \<open>Everything that touches the statistics in one run: the audit and the four executors.\<close>

definition ros_run_events ::
  "stamped_job list \<Rightarrow> stamped_job list \<Rightarrow> (ros_stage \<Rightarrow> nat \<Rightarrow> stamped_job) \<Rightarrow>
   (ros_stage \<Rightarrow> stage_readings) \<Rightarrow> (ros_stage \<Rightarrow> message_note list) \<Rightarrow> ros_event list list" where
  "ros_run_events imu camera cast readings ns =
     map Ev_audit_imu imu # map Ev_audit_camera camera #
     map (\<lambda>s. log_events s (cast s) (readings s) (ns s)) ros_stages"

section \<open>Counters of a log\<close>

lemma countw_append [simp]: "countw P (xs @ ys) = countw P xs + countw P ys"
  by (induction xs) (simp_all add: add.assoc)

lemma countw_mset:
  assumes "mset xs = mset ys"
  shows "countw P xs = countw P ys"
proof -
  have "mset (filter P xs) = mset (filter P ys)" using assms by simp
  then have "length (filter P xs) = length (filter P ys)" by (rule mset_eq_length)
  then show ?thesis by (simp add: countw_def vsize_def)
qed

lemma notes_simps [simp]:
  "selected_in [] = []" "handled_in [] = []" "dropped_in [] = []"
  "selected_in (n # ns) = (case n of Note_selected m \<Rightarrow> [m] | _ \<Rightarrow> []) @ selected_in ns"
  "handled_in (n # ns) = (case n of Note_handled m \<Rightarrow> [m] | _ \<Rightarrow> []) @ handled_in ns"
  "dropped_in (n # ns) = (case n of Note_dropped m \<Rightarrow> [m] | _ \<Rightarrow> []) @ dropped_in ns"
  by (simp_all add: selected_in_def handled_in_def dropped_in_def)

lemma settled_split:
  "mset (selected_in (settled ps)) = mset (handled_in (settled ps)) + mset (dropped_in (settled ps))"
proof (induction ps)
  case (Cons p ps)
  obtain m d where "p = (m, d)" by fastforce
  with Cons show ?case by (simp add: settled_def)
qed (simp add: settled_def)

lemma settled_count:
  "countw P (map f (selected_in (settled ps))) =
     countw P (map f (handled_in (settled ps))) + countw P (map f (dropped_in (settled ps)))"
proof -
  have "mset (map f (selected_in (settled ps))) =
      mset (map f (handled_in (settled ps)) @ map f (dropped_in (settled ps)))"
    using settled_split [of ps] by simp
  from countw_mset [OF this, of P] show ?thesis by simp
qed

lemma log_events_simps [simp]:
  "log_events s' cast readings [] = []"
  "log_events s' cast readings (n # ns) = note_events s' cast readings n @ log_events s' cast readings ns"
  by (simp_all add: log_events_def)

lemmas note_weights = note_events_def w_offered_def w_arrived_def w_executed_def w_completed_def
  w_dropped_def w_lost_def b2w_def

lemma log_sums:
  "sum_list (map (w_offered measured s) (log_events s' cast readings ns)) = 0"
  "sum_list (map (w_arrived measured s) (log_events s' cast readings ns)) =
     (if s = s' then countw measured (map cast (selected_in ns)) else 0)"
  "sum_list (map (w_executed measured s) (log_events s' cast readings ns)) =
     (if s = s' then countw measured (map cast (handled_in ns)) else 0)"
  "sum_list (map (w_completed measured s) (log_events s' cast readings ns)) =
     (if s = s' then countw measured (map cast (handled_in ns)) else 0)"
  "sum_list (map (w_dropped measured s) (log_events s' cast readings ns)) =
     (if s = s' then countw measured (map cast (dropped_in ns)) else 0)"
  "sum_list (map (w_lost measured s) (log_events s' cast readings ns)) =
     (if s = s' \<or> s \<in> set (ros_downstream s') then countw measured (map cast (dropped_in ns)) else 0)"
  by (induction ns; simp add: note_weights split: message_note.split prod.split)+

lemma audit_sums:
  "sum_list (map (w_offered measured s) (map Ev_audit_imu ms)) = (if s = Imu_prop then countw measured ms else 0)"
  "sum_list (map (w_offered measured s) (map Ev_audit_camera ms)) =
     (if s \<noteq> Imu_prop then countw measured ms else 0)"
  "sum_list (map (w_arrived measured s) (map Ev_audit_imu ms)) = 0"
  "sum_list (map (w_arrived measured s) (map Ev_audit_camera ms)) = 0"
  "sum_list (map (w_executed measured s) (map Ev_audit_imu ms)) = 0"
  "sum_list (map (w_executed measured s) (map Ev_audit_camera ms)) = 0"
  "sum_list (map (w_completed measured s) (map Ev_audit_imu ms)) = 0"
  "sum_list (map (w_completed measured s) (map Ev_audit_camera ms)) = 0"
  "sum_list (map (w_dropped measured s) (map Ev_audit_imu ms)) = 0"
  "sum_list (map (w_dropped measured s) (map Ev_audit_camera ms)) = 0"
  "sum_list (map (w_lost measured s) (map Ev_audit_imu ms)) = 0"
  "sum_list (map (w_lost measured s) (map Ev_audit_camera ms)) = 0"
  by (induction ms; simp add: note_weights)+

section \<open>Topics\<close>

text \<open>
  What was published on the topic that a stage subscribes to: the sources, or what the stage before it
  handled, since a callback publishes before it returns. What of it the stage never selected.
\<close>

definition published_to ::
  "stamped_job list \<Rightarrow> stamped_job list \<Rightarrow> (ros_stage \<Rightarrow> nat \<Rightarrow> stamped_job) \<Rightarrow>
   (ros_stage \<Rightarrow> message_note list) \<Rightarrow> ros_stage \<Rightarrow> stamped_job multiset" where
  "published_to imu camera cast ns s =
     (case s of
        Imu_prop \<Rightarrow> mset imu
      | Vision_fe \<Rightarrow> mset camera
      | State_est \<Rightarrow> mset (map (cast Vision_fe) (handled_in (ns Vision_fe)))
      | Mapping_be \<Rightarrow> mset (map (cast State_est) (handled_in (ns State_est))))"

definition undelivered ::
  "stamped_job list \<Rightarrow> stamped_job list \<Rightarrow> (ros_stage \<Rightarrow> nat \<Rightarrow> stamped_job) \<Rightarrow>
   (ros_stage \<Rightarrow> message_note list) \<Rightarrow> ros_stage \<Rightarrow> stamped_job multiset" where
  "undelivered imu camera cast ns s =
     published_to imu camera cast ns s - mset (map (cast s) (selected_in (ns s)))"

text \<open>The stages a message passes before and in a stage.\<close>

definition path_to :: "ros_stage \<Rightarrow> ros_stage list" where
  "path_to s = (case s of Imu_prop \<Rightarrow> [Imu_prop] | Vision_fe \<Rightarrow> [Vision_fe]
     | State_est \<Rightarrow> [Vision_fe, State_est] | Mapping_be \<Rightarrow> [Vision_fe, State_est, Mapping_be])"

definition how_many :: "(stamped_job \<Rightarrow> bool) \<Rightarrow> stamped_job multiset \<Rightarrow> nat" where
  "how_many measured M = size (filter_mset measured M)"

lemma how_many_minus: "N \<subseteq># M \<Longrightarrow> how_many measured (M - N) + how_many measured N = how_many measured M"
  by (simp add: how_many_def multiset_filter_mono size_Diff_submset size_mset_mono)

lemma how_many_mono: "N \<subseteq># M \<Longrightarrow> how_many measured N \<le> how_many measured M"
  by (simp add: how_many_def multiset_filter_mono size_mset_mono)

lemma countw_how_many: "countw measured xs = of_nat (how_many measured (mset xs))"
proof -
  have "size (filter_mset measured (mset xs)) = length (filter measured xs)" by (simp flip: mset_filter)
  then show ?thesis by (simp add: countw_def vsize_def how_many_def)
qed

section \<open>The final counters\<close>

abbreviation (input) sel_of where
  "sel_of measured cast ns t \<equiv> how_many measured (mset (map (cast t) (selected_in (ns t))))"

abbreviation (input) han_of where
  "han_of measured cast ns t \<equiv> how_many measured (mset (map (cast t) (handled_in (ns t))))"

abbreviation (input) dro_of where
  "dro_of measured cast ns t \<equiv> how_many measured (mset (map (cast t) (dropped_in (ns t))))"

text \<open>The stages before a stage.\<close>

definition above :: "ros_stage \<Rightarrow> ros_stage list" where
  "above s = filter (\<lambda>t. t \<noteq> s) (path_to s)"

lemma run_counters:
  assumes "mset evs = mset (concat (ros_run_events imu camera cast readings ns))"
    and r: "r = fold (ros_apply measured) evs (\<lambda>_. ros_stats_zero)"
  shows "rs_offered (r s) = of_nat (how_many measured (mset (if s = Imu_prop then imu else camera)))"
    and "rs_arrivals (r s) = of_nat (sel_of measured cast ns s)"
    and "rs_executed (r s) = of_nat (han_of measured cast ns s)"
    and "rs_completed (r s) = of_nat (han_of measured cast ns s)"
    and "rs_dropped (r s) = of_nat (dro_of measured cast ns s)"
    and "rs_upstream_dropped (r s) = of_nat (sum_list (map (dro_of measured cast ns) (above s)))"
proof -
  note sums = log_sums audit_sums countw_how_many ros_run_events_def ros_stages_def ros_stats_zero_def
  note ev = assms(1)
  show "rs_offered (r s) = of_nat (how_many measured (mset (if s = Imu_prop then imu else camera)))"
    unfolding r using offered.interleaved [OF ev, of measured "\<lambda>_. ros_stats_zero" s]
    by (simp add: sums del: map_map mset_map)
  show "rs_arrivals (r s) = of_nat (sel_of measured cast ns s)"
    and "rs_executed (r s) = of_nat (han_of measured cast ns s)"
    and "rs_completed (r s) = of_nat (han_of measured cast ns s)"
    and d: "rs_dropped (r s) = of_nat (dro_of measured cast ns s)"
    unfolding r
    using arrived.interleaved [OF ev, of measured "\<lambda>_. ros_stats_zero" s]
      executed.interleaved [OF ev, of measured "\<lambda>_. ros_stats_zero" s]
      completed.interleaved [OF ev, of measured "\<lambda>_. ros_stats_zero" s]
      dropped.interleaved [OF ev, of measured "\<lambda>_. ros_stats_zero" s]
    by (cases s; simp add: sums del: map_map mset_map)+
  have "rs_dropped (r s) + rs_upstream_dropped (r s) =
      of_nat (dro_of measured cast ns s) + of_nat (sum_list (map (dro_of measured cast ns) (above s)))"
    unfolding r using lost.interleaved [OF ev, of measured "\<lambda>_. ros_stats_zero" s]
    by (cases s; simp add: sums ros_downstream_def above_def path_to_def ac_simps del: map_map mset_map)
  then show "rs_upstream_dropped (r s) = of_nat (sum_list (map (dro_of measured cast ns) (above s)))"
    unfolding d by simp
qed

text \<open>Every message a source published ends somewhere along the path.\<close>

lemma flow_along:
  assumes "\<And>t. mset (map (cast t) (selected_in (ns t))) \<subseteq># published_to imu camera cast ns t"
    and "\<And>t. sel_of measured cast ns t = han_of measured cast ns t + dro_of measured cast ns t"
  shows "how_many measured (mset (if s = Imu_prop then imu else camera)) =
    han_of measured cast ns s + dro_of measured cast ns s +
    sum_list (map (dro_of measured cast ns) (above s)) +
    sum_list (map (\<lambda>t. how_many measured (undelivered imu camera cast ns t)) (path_to s))"
proof -
  have step: "how_many measured (published_to imu camera cast ns t) =
      how_many measured (undelivered imu camera cast ns t) + han_of measured cast ns t + dro_of measured cast ns t" for t
    using how_many_minus [OF assms(1), of measured t] assms(2) [of t] by (simp add: undelivered_def del: mset_map)
  from step [of Imu_prop] step [of Vision_fe] step [of State_est] step [of Mapping_be] show ?thesis
    by (cases s) (simp_all add: published_to_def above_def path_to_def del: mset_map)
qed

section \<open>Property\<close>

text \<open>
  C27: The ROS pipeline loses no message unaccounted. Take any run of the four executors that ends
  normally, and any interleaving of their observers and callbacks with the audit, where each
  subscription takes what was published to it at most once, and maybe not all of it. In every stage each
  measured message selected was completed or dropped there. Each measured message of the source was
  completed in the stage, dropped there, dropped in a stage before it, or left undelivered on the way,
  and the counters say how many; the audit counted those it received. The report, whatever number of
  offered messages it is given, shows nothing in flight, and as unfinished and pending exactly the
  messages offered that the counters do not explain: none if all were offered and delivered.
\<close>

theorem ros_pipeline_accounts:
  assumes contract: "hint_sink sink slot view cleared" "releases_group dtor"
    and runs: "\<And>s. reach (logged_entry (s0 s)) (logged_step abi sink config dtor) (x s, ns s)"
    and ended: "\<And>s. x_dispatcher (x s) = D_done (Inr ())"
    and once: "\<And>s. mset (map (cast s) (selected_in (ns s))) \<subseteq># published_to imu camera cast ns s"
    and heard: "mset imu_heard \<subseteq># mset imu" "mset camera_heard \<subseteq># mset camera"
    and small: "length imu < 2 ^ 64" "length camera < 2 ^ 64"
    and evs: "mset evs = mset (concat (ros_run_events imu_heard camera_heard cast readings ns))"
    and r: "r = fold (ros_apply measured) evs (\<lambda>_. ros_stats_zero)"
  shows "let total = how_many measured (mset (if s = Imu_prop then imu else camera));
      missed = how_many measured
        (if s = Imu_prop then mset imu - mset imu_heard else mset camera - mset camera_heard);
      waiting = sum_list (map (\<lambda>t. how_many measured (undelivered imu camera cast ns t)) (path_to s))
    in unat (rs_offered (r s)) + missed = total \<and>
       unat (rs_arrivals (r s)) = unat (rs_completed (r s)) + unat (rs_dropped (r s)) \<and>
       rs_executed (r s) = rs_completed (r s) \<and>
       unat (rs_completed (r s)) + unat (rs_dropped (r s)) + unat (rs_upstream_dropped (r s)) + waiting = total \<and>
       (\<forall>now sn offered. ros_snapshot now (r s) = Inr sn \<longrightarrow>
          (let report = print_stats offered sn
           in sr_in_flight report = 0 \<and> sr_pending report = sr_unfinished report \<and>
              unat (sr_unfinished report) = unat offered + waiting - total))"
proof -
  have split: "sel_of measured cast ns t = han_of measured cast ns t + dro_of measured cast ns t" for t
  proof -
    obtain ps where "ns t = settled ps" by (rule log_settled [OF contract runs ended])
    then show ?thesis by (simp add: how_many_def settled_split)
  qed
  define total where "total = how_many measured (mset (if s = Imu_prop then imu else camera))"
  define waiting where
    "waiting = sum_list (map (\<lambda>t. how_many measured (undelivered imu camera cast ns t)) (path_to s))"
  define han dro up where "han = han_of measured cast ns s" and "dro = dro_of measured cast ns s"
    and "up = sum_list (map (dro_of measured cast ns) (above s))"
  note counters = run_counters [OF evs r, of s, folded han_def dro_def up_def]
  have flow: "total = han + dro + up + waiting"
    unfolding total_def waiting_def han_def dro_def up_def by (rule flow_along [OF once split])
  have "total \<le> length (if s = Imu_prop then imu else camera)"
    unfolding total_def how_many_def by (metis size_filter_mset_lesseq size_mset)
  then have bound: "total < 18446744073709551616" using small by (auto split: if_splits)
  have off: "unat (rs_offered (r s)) + how_many measured
      (if s = Imu_prop then mset imu - mset imu_heard else mset camera - mset camera_heard) = total"
  proof -
    let ?h = "how_many measured (mset (if s = Imu_prop then imu_heard else camera_heard))"
    have "how_many measured (if s = Imu_prop then mset imu - mset imu_heard else mset camera - mset camera_heard) + ?h = total"
      using how_many_minus [OF heard(1), of measured] how_many_minus [OF heard(2), of measured]
      by (simp add: total_def)
    moreover from this bound have "unat (rs_offered (r s)) = ?h"
      unfolding counters(1) by (intro unat_of_nat_u64) simp
    ultimately show ?thesis by simp
  qed
  have n: "unat (rs_completed (r s)) = han" "unat (rs_dropped (r s)) = dro" "unat (rs_upstream_dropped (r s)) = up"
    "unat (rs_arrivals (r s)) = han + dro"
    unfolding counters(2,4,5,6) split han_def [symmetric] dro_def [symmetric]
    using flow bound by (auto intro!: unat_of_nat_u64 simp del: of_nat_add)
  have rep: "sr_in_flight (print_stats offered sn) = 0 \<and>
      sr_pending (print_stats offered sn) = sr_unfinished (print_stats offered sn) \<and>
      unat (sr_unfinished (print_stats offered sn)) = unat offered + waiting - total"
    if "ros_snapshot now (r s) = Inr sn" for now sn offered
  proof -
    have st: "sn_stats sn = r s" using that by (auto simp: ros_snapshot_def Let_def split: if_splits sum.splits)
    let ?res = "rs_completed (r s) + rs_dropped (r s) + rs_upstream_dropped (r s)"
    have res: "unat ?res = han + dro + up"
      unfolding counters(4-6) of_nat_add [symmetric] using flow bound by (intro unat_of_nat_u64) simp
    let ?u = "if offered > ?res then offered - ?res else 0"
    have u: "unat ?u = unat offered - unat ?res"
      by (simp add: word_less_nat_alt unat_sub_u64 word_le_nat_alt)
    have e: "rs_executed (r s) - rs_completed (r s) = 0" by (simp add: counters(3,4))
    have "(if u > 0 then u - 0 else 0) = u" for u :: u64 by (auto simp: word_gt_0)
    then have "print_stats offered sn = \<lparr>sr_unfinished = ?u, sr_in_flight = 0, sr_pending = ?u\<rparr>"
      unfolding print_stats_def Let_def st e by simp
    then show ?thesis using u flow res by simp
  qed
  show ?thesis unfolding Let_def total_def [symmetric] waiting_def [symmetric]
    using off n rep flow counters(3,4) by auto
qed

text \<open>
  Four executors, each with the run \<open>example_returned\<close> for its message 5; of two camera messages the
  second is never delivered to the vision stage.
\<close>

definition witness_counters :: ros_state where
  "witness_counters = fold (ros_apply (\<lambda>_. True)) (rev (concat (ros_run_events [demo_message 1]
     [demo_message 2, demo_message 3] (\<lambda>s _. if s = Imu_prop then demo_message 1 else demo_message 2)
     (\<lambda>_ _. (0, 0, 0, 0, 0)) (\<lambda>_. [Note_selected 5, Note_handled 5])))) (\<lambda>_. ros_stats_zero)"

theorem ros_pipeline_accounts_witness:
  "unat (rs_offered (witness_counters Mapping_be)) = 2 \<and>
   unat (rs_completed (witness_counters Mapping_be)) + unat (rs_dropped (witness_counters Mapping_be)) +
     unat (rs_upstream_dropped (witness_counters Mapping_be)) = 1"
proof -
  let ?cast = "\<lambda>s (_ :: nat). if s = Imu_prop then demo_message 1 else demo_message 2"
  let ?ns = "\<lambda>_ :: ros_stage. [Note_selected 5, Note_handled 5]"
  have fin: "x_dispatcher example_returned = D_done (Inr ())"
    by (simp add: example_returned_def example_executor_def)
  have once: "mset (map (?cast s) (selected_in (?ns s))) \<subseteq>#
      published_to [demo_message 1] [demo_message 2, demo_message 3] ?cast ?ns s" for s
    by (cases s) (simp_all add: published_to_def)
  have evs: "mset (rev (concat (ros_run_events [demo_message 1] [demo_message 2, demo_message 3] ?cast
      (\<lambda>_ _. (0, 0, 0, 0, 0)) ?ns))) = mset (concat (ros_run_events [demo_message 1]
      [demo_message 2, demo_message 3] ?cast (\<lambda>_ _. (0, 0, 0, 0, 0)) ?ns))"
    by simp
  note p = ros_pipeline_accounts [where x = "\<lambda>_. example_returned" and ns = ?ns and cast = ?cast
      and imu = "[demo_message 1]" and camera = "[demo_message 2, demo_message 3]" and s = Mapping_be
      and measured = "\<lambda>_. True", OF example_contract example_releases example_logged_run fin once
      subset_mset.order_refl subset_mset.order_refl _ _ evs witness_counters_def]
  then show ?thesis
    by (simp add: how_many_def undelivered_def published_to_def path_to_def)
qed

end
