(* ===== verification/Ros_Main.thy ===== *)
theory Ros_Main
  imports Ros_Pipeline Freshness_Executor Clocks Window_Metrics
begin

text \<open>
  How the ROS programs put their parts together. The constructor of the executor and its typed
  registration (\<^verbatim>\<open>src/ros2/scx_slam_executor\<close>), and \<open>main\<close> of
  \<^verbatim>\<open>src/ros2/scx_slam_workload/src/slam_pipeline.cpp\<close>: choice of the sink, stage callbacks,
  registration of the four groups, waits, measurement window, shutdown, report and exit status.
\<close>

section \<open>Construction of an executor\<close>

text \<open>A null sink is replaced by one that does nothing. The state of the sink comes with it.\<close>

definition executor_sink :: "'s sink_ops option \<Rightarrow> 's sink_ops" where
  "executor_sink sink = (case sink of Some s \<Rightarrow> s | None \<Rightarrow> null_sink)"

definition executor_new :: "'s \<Rightarrow> 's executor" where
  "executor_new s =
     \<lparr>x_pending = None, x_worker_ready = False, x_worker_idle = False, x_hint_needs_clear = False,
      x_stop = False, x_worker_id = 0, x_worker_error = None, x_profiles = (\<lambda>_. None),
      x_next_job_id = 1, x_spinning = False, x_sink = s, x_taken = {}, x_messages = [],
      x_dispatcher = D_done (Inr ()), x_worker = W_done, x_dsleep = False, x_wsleep = False\<rparr>"

definition default_worker_config :: worker_config where
  "default_worker_config = \<lparr>wc_sched_ext_policy = -1, wc_cpu = -1\<rparr>"

text \<open>The typed extractor reads the message that the erased pointer stands for: \<open>cast\<close>.\<close>

definition add_subscription_callback_group_with_profile ::
  "fresh_abi \<Rightarrow> unit res \<Rightarrow> nat option \<Rightarrow> bool \<Rightarrow> callback_profile \<Rightarrow> (nat \<Rightarrow> 'm) \<Rightarrow>
   ('m \<Rightarrow> message_metadata) \<Rightarrow> observer option \<Rightarrow> 's executor \<Rightarrow> unit res \<times> 's executor" where
  "add_subscription_callback_group_with_profile abi base grp node profile cast extractor ob x =
     add_subscription_callback_group_with_erased_metadata abi base grp node profile
       (Some (\<lambda>message. Inr (extractor (cast message)))) ob x"

section \<open>The sink of the pipeline\<close>

definition ros_sink ::
  "fresh_abi \<Rightarrow> 's publisher \<Rightarrow> ros_options \<Rightarrow> string \<Rightarrow> int + 's \<Rightarrow> 's \<Rightarrow> ('s sink_ops \<times> 's) res" where
  "ros_sink abi pub d hint_mode opened s =
     (case (if hint_mode = ''none'' then Inr (null_sink, s)
            else (case pinned_open opened of Inl e \<Rightarrow> Inl e | Inr t \<Rightarrow> Inr (pinned_sink abi pub, t))) of
        Inl e \<Rightarrow> Inl e
      | Inr (sink, t) \<Rightarrow>
          Inr (if ro_input_mode d = ''external'' then ablation_sink abi hint_mode sink else sink, t))"

section \<open>Stage callbacks\<close>

text \<open>The atomics that \<open>main\<close> and the callbacks share.\<close>

record ros_shared =
  sh_measurement_start_ns :: u64
  sh_measurement_end_ns :: u64
  sh_external_window_start_release_ns :: u64

definition ros_shared_new :: ros_shared where
  "ros_shared_new = \<lparr>sh_measurement_start_ns = - 1, sh_measurement_end_ns = 0,
     sh_external_window_start_release_ns = 0\<rparr>"

text \<open>\<open>compare_exchange_strong\<close> from zero: the first release stays.\<close>

definition note_first :: "u64 \<Rightarrow> u64 \<Rightarrow> u64" where
  "note_first release first = (if first = 0 then release else first)"

text \<open>
  A callback: IMU messages note the start of the external window; vision and estimator pass the
  message on after accounting for it. \<open>sent\<close> is the answer of \<open>publish\<close>.
\<close>

definition ros_callback ::
  "ros_options \<Rightarrow> ros_stage \<Rightarrow> stamped_job \<Rightarrow> job_env \<Rightarrow> unit res \<Rightarrow> ros_shared \<Rightarrow> ros_stats \<Rightarrow>
   (unit res \<times> stamped_job option \<times> ros_shared \<times> ros_stats) option" where
  "ros_callback d s m env sent sh st =
     (let measured = measured_message d (sh_measurement_start_ns sh) (sh_measurement_end_ns sh) m;
          sh1 = (if s = Imu_prop \<and> measured
                 then sh\<lparr>sh_external_window_start_release_ns :=
                   note_first (sj_release_ts_ns m) (sh_external_window_start_release_ns sh)\<rparr> else sh)
      in case account_job m (ros_work_us s m) (ros_deadline_ns s) (ros_stale_ns s) measured env st of
           None \<Rightarrow> None
         | Some (Inl e, st1) \<Rightarrow> Some (Inl e, None, sh1, st1)
         | Some (Inr _, st1) \<Rightarrow>
             Some (if s = Vision_fe \<or> s = State_est
                   then (case sent of Inl e \<Rightarrow> (Inl e, None, sh1, st1) | Inr _ \<Rightarrow> (Inr (), Some m, sh1, st1))
                   else (Inr (), None, sh1, st1)))"

text \<open>The registrations of the four groups.\<close>

definition ros_admission :: "fresh_abi \<Rightarrow> ros_options \<Rightarrow> string \<Rightarrow> ros_stage \<Rightarrow> callback_profile" where
  "ros_admission abi d hint_mode s =
     (case s of
        Imu_prop \<Rightarrow> admission_profile abi d hint_mode SLAM_STAGE_IMU_PREINT (FRESH_CLASS_URGENT abi) 5000 10000 1000
      | Vision_fe \<Rightarrow> admission_profile abi d hint_mode SLAM_STAGE_VISION_FE (FRESH_CLASS_DEADLINE abi) 33000 66000 12000
      | State_est \<Rightarrow> admission_profile abi d hint_mode SLAM_STAGE_STATE_EST (FRESH_CLASS_DEADLINE abi) 33000 66000 10000
      | Mapping_be \<Rightarrow> admission_profile abi d hint_mode SLAM_STAGE_MAPPING_BE (FRESH_CLASS_BACKGROUND abi) 0 0 0)"

definition ros_register ::
  "fresh_abi \<Rightarrow> ros_options \<Rightarrow> string \<Rightarrow> unit res \<Rightarrow> (nat \<Rightarrow> stamped_job) \<Rightarrow> observer \<Rightarrow> nat \<Rightarrow> ros_stage \<Rightarrow>
   's executor \<Rightarrow> unit res \<times> 's executor" where
  "ros_register abi d hint_mode base cast ob grp s x =
     add_subscription_callback_group_with_profile abi base (Some grp) True (ros_admission abi d hint_mode s)
       cast ros_metadata (Some ob) x"

section \<open>Outcomes\<close>

text \<open>
  \<open>main\<close> catches \<open>std::exception\<close> and returns 1; any other exception leaves \<open>main\<close>.
\<close>

datatype ros_outcome = Exit int | Aborted

definition ros_catch :: "exn \<Rightarrow> ros_outcome" where
  "ros_catch e = (if is_std_exception e then Exit 1 else Aborted)"

text \<open>
  The \<open>std::thread\<close> objects of \<open>main\<close>, and those that are joinable at a point of its run: started and
  not joined. The destructor of a joinable one calls \<open>std::terminate\<close>, whether the scope is left by an
  exception, before its handler runs, or by a return.
\<close>

datatype ros_thread =
    Audit_thread | Executor_thread ros_stage | Contender_thread nat | Imu_generator | Camera_generator

definition ros_leave :: "ros_thread list \<Rightarrow> exn \<Rightarrow> ros_outcome" where
  "ros_leave joinable e = (if joinable = [] then ros_catch e else Aborted)"

definition ros_return :: "ros_thread list \<Rightarrow> int \<Rightarrow> ros_outcome" where
  "ros_return joinable c = (if joinable = [] then Exit c else Aborted)"

definition executor_threads :: "ros_thread list" where
  "executor_threads = Audit_thread # map Executor_thread [Imu_prop, Vision_fe, State_est, Mapping_be]"

definition contender_threads :: "ros_options \<Rightarrow> ros_thread list" where
  "contender_threads d = map Contender_thread [0..<nat (ro_hog_threads d)]"

text \<open>Threads started one after another; \<open>start\<close> is what each constructor does, and one that throws ends it.\<close>

fun start_threads ::
  "(ros_thread \<Rightarrow> unit res) \<Rightarrow> ros_thread list \<Rightarrow> ros_thread list \<Rightarrow> unit res \<times> ros_thread list" where
  "start_threads start [] joinable = (Inr (), joinable)"
| "start_threads start (t # ts) joinable =
     (case start t of
        Inl e \<Rightarrow> (Inl e, joinable)
      | Inr _ \<Rightarrow> start_threads start ts (t # joinable))"

definition join_threads :: "ros_thread list \<Rightarrow> ros_thread list \<Rightarrow> ros_thread list" where
  "join_threads ts joinable = filter (\<lambda>t. t \<notin> set ts) joinable"

text \<open>An exception that leaves the function of a thread, here a generator, is \<open>std::terminate\<close> too.\<close>

definition generators_end :: "unit res \<Rightarrow> unit res \<Rightarrow> bool" where
  "generators_end imu camera \<longleftrightarrow> imu = Inr () \<and> camera = Inr ()"

text \<open>The exception of a background thread: the first one is kept.\<close>

definition keep_error :: "unit res \<Rightarrow> exn option \<Rightarrow> exn option" where
  "keep_error r background_error =
     (case (r, background_error) of (Inl e, None) \<Rightarrow> Some e | _ \<Rightarrow> background_error)"

text \<open>
  A thread around \<open>spin()\<close>: whatever it throws is kept as the background error if it is the first, and
  the context is shut down, after which \<open>rclcpp::ok()\<close> answers false everywhere.
\<close>

record ros_background =
  bg_error :: "exn option"
  bg_ok :: bool

definition ros_background_new :: ros_background where
  "ros_background_new = \<lparr>bg_error = None, bg_ok = True\<rparr>"

definition background_thread :: "unit res \<Rightarrow> ros_background \<Rightarrow> ros_background" where
  "background_thread r bg =
     (case r of Inr _ \<Rightarrow> bg | Inl e \<Rightarrow> \<lparr>bg_error = keep_error r (bg_error bg), bg_ok = False\<rparr>)"

text \<open>The configuration of the workers and of the contenders.\<close>

definition ros_worker_config :: "ros_options \<Rightarrow> worker_config" where
  "ros_worker_config d = \<lparr>wc_sched_ext_policy = ro_ext_policy d, wc_cpu = ro_worker_cpu d\<rparr>"

record contender_env =
  ce_affinity_rc :: int
  ce_sched_rc :: int
  ce_errno :: int
  ce_name_rc :: int
  ce_loop :: "(bool \<times> u64 res list \<times> u64 res) list"

text \<open>
  The contenders one after another, as far as the background error is concerned: the error so far, and
  the completions of each. The result is \<open>None\<close> while one of them has not returned.
\<close>

fun ros_contenders ::
  "ros_options \<Rightarrow> contender_env list \<Rightarrow> exn option \<Rightarrow> (exn option \<times> u64 list list) option" where
  "ros_contenders d [] background_error = Some (background_error, [])"
| "ros_contenders d (c # cs) background_error =
     (case run_contender (configure_contender (ro_worker_cpu d) (ro_ext_policy d) (ce_affinity_rc c)
             (ce_sched_rc c) (ce_errno c) (ce_name_rc c)) (ce_loop c) background_error of
        None \<Rightarrow> None
      | Some (e, completions) \<Rightarrow>
          map_option (\<lambda>(e', rest). (e', completions # rest)) (ros_contenders d cs e))"

section \<open>The run of \<open>main\<close>\<close>

text \<open>
  The answers a run receives, in the order of the code: the constructors of its threads, the map, what \<open>rclcpp\<close> answers to the
  registrations with the messages and observers they refer to, the clock and the graph, the clock
  and the window, \<open>rclcpp::ok()\<close> and the publications of the two generators, the answers of the sleep, the statistics and CPU clocks at
  the cutoff, what \<open>spin()\<close> of the five executor threads and the contenders ended with, the completions
  of the contenders, and the final statistics.
\<close>

record 's ros_env =
  re_start :: "ros_thread \<Rightarrow> unit res"
  re_opened :: "int + 's"
  re_base :: "ros_stage \<Rightarrow> unit res"
  re_cast :: "nat \<Rightarrow> stamped_job"
  re_observer :: "ros_stage \<Rightarrow> observer"
  re_graph_start :: u64
  re_graph :: "(u64 \<times> u64 list) list"
  re_sources_start :: u64
  re_sources :: "(u64 \<times> u64 \<times> u64) list"
  re_now :: "u64 res"
  re_window :: "(u64 \<times> u64 res) list"
  re_ok :: "u64 \<Rightarrow> bool"
  re_imu_sent :: "u64 \<Rightarrow> unit res"
  re_camera_sent :: "u64 \<Rightarrow> unit res"
  re_sleep :: "int list"
  re_cutoff :: ros_state
  re_cutoff_clock :: "ros_stage \<Rightarrow> u64 res"
  re_threads :: "unit res list"
  re_completions :: "u64 list list"
  re_final :: ros_state
  re_final_clock :: "ros_stage \<Rightarrow> u64 res"

text \<open>One executor for each stage; the first registration that throws ends the set-up.\<close>

definition ros_setup :: "fresh_abi \<Rightarrow> ros_options \<Rightarrow> string \<Rightarrow> 's \<Rightarrow> 's ros_env \<Rightarrow> (ros_stage \<Rightarrow> 's executor) res" where
  "ros_setup abi d hint_mode s env =
     (let reg = (\<lambda>grp st. ros_register abi d hint_mode (re_base env st) (re_cast env) (re_observer env st) grp st
            (executor_new s))
      in case reg 0 Imu_prop of (Inl e, _) \<Rightarrow> Inl e | (Inr _, imu) \<Rightarrow>
     (case reg 1 Vision_fe of (Inl e, _) \<Rightarrow> Inl e | (Inr _, vision) \<Rightarrow>
     (case reg 2 State_est of (Inl e, _) \<Rightarrow> Inl e | (Inr _, estimator) \<Rightarrow>
     (case reg 3 Mapping_be of (Inl e, _) \<Rightarrow> Inl e | (Inr _, mapping) \<Rightarrow>
        Inr (case_ros_stage imu vision estimator mapping)))))"

definition ros_connect :: "ros_options \<Rightarrow> 's ros_env \<Rightarrow> unit res option" where
  "ros_connect d env =
     (case wait_for_graph (re_graph_start env + 2000000000) (re_graph env) of
        Some (Inr _) \<Rightarrow>
          if ro_input_mode d = ''synthetic'' then Some (Inr ())
          else wait_for_external_sources (re_sources_start env + 10000000000) (re_sources env)
      | r \<Rightarrow> r)"

text \<open>
  The wait for the external window: each pass loads the first release and, while it is zero, reads the
  clock. On a timeout the contenders and the executor threads are joined before the exception is
  thrown; a failing clock throws with all of them joinable.
\<close>

fun window_wait ::
  "ros_options \<Rightarrow> u64 \<Rightarrow> (u64 \<times> u64 res) list \<Rightarrow> ros_thread list \<Rightarrow>
   (ros_outcome + u64 \<times> ros_thread list) option" where
  "window_wait d start_timeout_ns [] joinable = None"
| "window_wait d start_timeout_ns ((first, now) # rs) joinable =
     (if first \<noteq> 0 then Some (Inr (first, joinable))
      else (case now of
              Inl e \<Rightarrow> Some (Inl (ros_leave joinable e))
            | Inr t \<Rightarrow>
                if t \<ge> start_timeout_ns
                then Some (Inl (ros_leave (join_threads executor_threads (join_threads (contender_threads d) joinable))
                       (Runtime_error ''timed out waiting for external source-time window'')))
                else window_wait d start_timeout_ns rs joinable))"

text \<open>
  The window: the generators of the synthetic input are started and joined, one whose function throws
  ends the process; for external input \<open>main\<close> waits.
\<close>

definition ros_window ::
  "ros_options \<Rightarrow> 's ros_env \<Rightarrow> ros_thread list \<Rightarrow> (ros_outcome + u64 \<times> ros_thread list) option" where
  "ros_window d env joinable =
     (case re_now env of
        Inl e \<Rightarrow> Some (Inl (ros_leave joinable e))
      | Inr now \<Rightarrow>
          if ro_input_mode d = ''synthetic''
          then
            (let start_ns = now + 100000000;
                 imu = fst (publish_periodic (re_ok env) (re_imu_sent env) 200 (of_int (ro_duration_s d)) start_ns);
                 camera = fst (publish_periodic (re_ok env) (re_camera_sent env) 30 (of_int (ro_duration_s d)) start_ns)
             in case start_threads (re_start env) [Imu_generator, Camera_generator] joinable of
                  (Inl e, joinable1) \<Rightarrow> Some (Inl (ros_leave joinable1 e))
                | (Inr _, joinable1) \<Rightarrow>
                    if generators_end imu camera
                    then Some (Inr (start_ns, join_threads [Imu_generator, Camera_generator] joinable1))
                    else Some (Inl Aborted))
          else window_wait d (now + of_int (ro_warmup_s d) * 1000000000 + 10000000000) (re_window env) joinable)"

definition ros_snapshots ::
  "(ros_stage \<Rightarrow> u64 res) \<Rightarrow> ros_state \<Rightarrow> (ros_stage \<Rightarrow> stage_snapshot) res" where
  "ros_snapshots clk r =
     (case ros_snapshot (clk Imu_prop) (r Imu_prop) of Inl e \<Rightarrow> Inl e | Inr imu \<Rightarrow>
     (case ros_snapshot (clk Vision_fe) (r Vision_fe) of Inl e \<Rightarrow> Inl e | Inr vision \<Rightarrow>
     (case ros_snapshot (clk State_est) (r State_est) of Inl e \<Rightarrow> Inl e | Inr estimator \<Rightarrow>
     (case ros_snapshot (clk Mapping_be) (r Mapping_be) of Inl e \<Rightarrow> Inl e | Inr mapping \<Rightarrow>
        Inr (case_ros_stage imu vision estimator mapping)))))"

record ros_report =
  rp_hogs :: "u64 list"
  rp_stages :: "(string \<times> stats_report) list"

definition ros_lines :: "ros_options \<Rightarrow> ros_state \<Rightarrow> (ros_stage \<Rightarrow> stage_snapshot) \<Rightarrow> (string \<times> stats_report) list" where
  "ros_lines d w sn =
     [(''imu_prop'', print_stats (expected_count d Imu_prop w) (sn Imu_prop)),
      (''vision_fe'', print_stats (expected_count d Vision_fe w) (sn Vision_fe)),
      (''state_est'', print_stats (expected_count d State_est w) (sn State_est)),
      (''mapping_be'', print_stats (expected_count d Mapping_be w) (sn Mapping_be))]"

text \<open>From the end of the window: cutoff, joins, the background error, the report.\<close>

definition ros_finish ::
  "ros_options \<Rightarrow> u64 \<Rightarrow> 's ros_env \<Rightarrow> ros_thread list \<Rightarrow> (ros_outcome \<times> ros_report) option" where
  "ros_finish d start_ns env joinable =
     (let end_ns = start_ns + of_int (ro_duration_s d) * 1000000000;
          none = \<lparr>rp_hogs = [], rp_stages = []\<rparr>
      in case ros_sleep_until end_ns (re_sleep env) of None \<Rightarrow> None | Some (Inl e) \<Rightarrow> Some (ros_leave joinable e, none)
       | Some (Inr _) \<Rightarrow>
     (case ros_snapshots (re_cutoff_clock env) (re_cutoff env) of Inl e \<Rightarrow> Some (ros_leave joinable e, none) | Inr w \<Rightarrow>
     (let joinable1 = join_threads executor_threads (join_threads (contender_threads d) joinable)
      in case bg_error (fold background_thread (re_threads env) ros_background_new) of
        Some e \<Rightarrow> Some (ros_leave joinable1 e, none) | None \<Rightarrow>
        if ro_window_stats d then
          Some (ros_return joinable1 0,
                \<lparr>rp_hogs = map (\<lambda>c. window_iterations c start_ns end_ns) (re_completions env),
                 rp_stages = ros_lines d (re_cutoff env) w\<rparr>)
        else
          (case ros_snapshots (re_final_clock env) (re_final env) of
             Inl e \<Rightarrow> Some (ros_leave joinable1 e, none)
           | Inr f \<Rightarrow> Some (ros_return joinable1 (ros_exit d (re_cutoff env) (re_final env)),
               \<lparr>rp_hogs = [], rp_stages = ros_lines d (re_cutoff env) f\<rparr>)))))"

text \<open>
  The run as a whole: no thread exists until the executors are set up; then the audit thread and one
  for each executor, the wait for the graph, the contenders, the window and the end.
\<close>

definition ros_main ::
  "fresh_abi \<Rightarrow> 's publisher \<Rightarrow> string list \<Rightarrow> 's \<Rightarrow> 's ros_env \<Rightarrow> (ros_outcome \<times> ros_report) option" where
  "ros_main abi pub args s env =
     (let none = \<lparr>rp_hogs = [], rp_stages = []\<rparr>
      in case parse_options args of Inl e \<Rightarrow> Some (ros_leave [] e, none) | Inr None \<Rightarrow> Some (ros_return [] 0, none) | Inr (Some d) \<Rightarrow>
     (case ros_mode d of Inl e \<Rightarrow> Some (ros_leave [] e, none) | Inr hint_mode \<Rightarrow>
     (case ros_sink abi pub d hint_mode (re_opened env) s of Inl e \<Rightarrow> Some (ros_leave [] e, none) | Inr (_, t) \<Rightarrow>
     (case ros_setup abi d hint_mode t env of Inl e \<Rightarrow> Some (ros_leave [] e, none) | Inr _ \<Rightarrow>
     (case start_threads (re_start env) executor_threads [] of (Inl e, joinable) \<Rightarrow> Some (ros_leave joinable e, none) | (Inr _, joinable) \<Rightarrow>
     (case ros_connect d env of None \<Rightarrow> None | Some (Inl e) \<Rightarrow> Some (ros_leave joinable e, none) | Some (Inr _) \<Rightarrow>
     (case start_threads (re_start env) (contender_threads d) joinable of (Inl e, joinable1) \<Rightarrow> Some (ros_leave joinable1 e, none) | (Inr _, joinable1) \<Rightarrow>
     (case ros_window d env joinable1 of None \<Rightarrow> None | Some (Inl r) \<Rightarrow> Some (r, none) | Some (Inr (start_ns, joinable2)) \<Rightarrow>
        ros_finish d start_ns env joinable2))))))))"

section \<open>Threads\<close>

lemma started_some:
  "start_threads start ts joinable = (r, joinable') \<Longrightarrow> joinable \<noteq> [] \<or> ts \<noteq> [] \<and> start (hd ts) = Inr () \<Longrightarrow>
   joinable' \<noteq> []"
  by (induction ts arbitrary: joinable) (auto split: sum.splits)

lemma join_own [simp]: "join_threads ts (rev ts @ joinable) = join_threads ts joinable" "join_threads ts [] = []"
  "join_threads ts ts = []"
  by (simp_all add: join_threads_def)

lemma kinds_distinct [simp]:
  "join_threads (contender_threads d) (rev executor_threads) = rev executor_threads"
  "join_threads [Imu_generator, Camera_generator] (rev (contender_threads d) @ rev executor_threads) =
     rev (contender_threads d) @ rev executor_threads"
  by (auto simp: join_threads_def contender_threads_def executor_threads_def filter_id_conv)

section \<open>Set-up\<close>

text \<open>
  Every stage is registered in every mode: the class of its profile is valid, whatever ablation the
  mode asks for.
\<close>

lemma ros_register_ok:
  assumes "\<not> x_spinning x"
  shows "ros_register abi d mode (Inr ()) cast ob grp s x =
    (Inr (), x\<lparr>x_profiles := (x_profiles x)(grp \<mapsto>
       \<lparr>pb_profile = ros_admission abi d mode s,
        pb_metadata_extractor = Some (\<lambda>m. Inr (ros_metadata (cast m))), pb_observer = Some ob\<rparr>)\<rparr>)"
proof -
  have "p_class_id (ros_admission abi d mode s) \<in>
      {FRESH_CLASS_BACKGROUND abi, FRESH_CLASS_DEADLINE abi, FRESH_CLASS_URGENT abi}"
    by (cases s) (simp_all add: ros_admission_def admission_profile_def stage_profile_def ros_profile_def)
  then show ?thesis
    using assms by (auto simp: ros_register_def add_subscription_callback_group_with_profile_def
        add_subscription_callback_group_with_erased_metadata_def add_callback_group_with_profile_def profiles_at_def)
qed

lemma executor_new_idle [simp]: "\<not> x_spinning (executor_new s)" "x_sink (executor_new s) = s"
  "x_profiles (executor_new s) = (\<lambda>_. None)" "x_next_job_id (executor_new s) = 1"
  by (simp_all add: executor_new_def)

lemma ros_setup_ok:
  assumes "\<And>s. re_base env s = Inr ()"
  shows "\<exists>xs. ros_setup abi d mode t env = Inr xs"
  by (simp add: ros_setup_def Let_def assms ros_register_ok)

section \<open>The external window\<close>

lemma note_first_fold: "fold note_first rs first = (if first \<noteq> 0 then first
    else (case dropWhile (\<lambda>r. r = 0) rs of [] \<Rightarrow> 0 | r # _ \<Rightarrow> r))"
proof (induction rs arbitrary: first)
  case (Cons r rs)
  then show ?case by (cases "r = 0") (simp_all add: note_first_def del: dropWhile_eq_Nil_conv)
qed simp

text \<open>
  A callback moves the start of the external window only from zero, only for a measured IMU message, to
  the release of that message; it is kept ever after.
\<close>

lemma ros_callback_first:
  assumes "ros_callback d s m env sent sh st = Some (r, out, sh1, st1)"
  shows "sh_external_window_start_release_ns sh1 =
      (if s = Imu_prop \<and> measured_message d (sh_measurement_start_ns sh) (sh_measurement_end_ns sh) m
       then note_first (sj_release_ts_ns m) (sh_external_window_start_release_ns sh)
       else sh_external_window_start_release_ns sh)"
    and "sh_measurement_start_ns sh1 = sh_measurement_start_ns sh" "sh_measurement_end_ns sh1 = sh_measurement_end_ns sh"
    and "out = None \<or> out = Some m"
  using assms by (auto simp: ros_callback_def Let_def split: option.splits sum.splits prod.splits if_splits)

text \<open>
  When the external window never starts the threads are joined first, so that the handler of \<open>main\<close> is
  reached.
\<close>

lemma window_wait_timeout:
  assumes "\<forall>(first, now) \<in> set pre. first = 0 \<and> (\<exists>t. now = Inr t \<and> t < timeout)" and "timeout \<le> late"
  shows "window_wait d timeout (pre @ (0, Inr late) # rest) (rev (contender_threads d) @ rev executor_threads) =
    Some (Inl (Exit 1))"
proof -
  have "join_threads executor_threads (join_threads (contender_threads d)
      (rev (contender_threads d) @ rev executor_threads)) = []"
    using join_own(1) [of executor_threads "[]"] by simp
  with assms show ?thesis by (induction pre) (auto simp: ros_leave_def ros_catch_def is_std_exception_def)
qed

lemma window_wait_found:
  assumes "\<forall>(first, now) \<in> set pre. first = 0 \<and> (\<exists>t. now = Inr t \<and> t < timeout)" and "first \<noteq> 0"
  shows "window_wait d timeout (pre @ (first, now) # rest) joinable = Some (Inr (first, joinable))"
  using assms by (induction pre) auto

lemma graph_timeout:
  assumes "\<forall>(now, counts) \<in> set pre. now < deadline \<and> (\<exists>c \<in> set counts. c = 0)" and "deadline \<le> late"
  shows "\<exists>e. wait_for_graph deadline (pre @ (late, counts) # rest) = Some (Inl e)"
  using assms by (induction pre) (auto simp: list_all_iff)

section \<open>Background errors\<close>

lemma background_fold:
  "bg_error (fold background_thread rs bg) = fold keep_error rs (bg_error bg)"
  "bg_ok (fold background_thread rs bg) \<longleftrightarrow> bg_ok bg \<and> (\<forall>r \<in> set rs. r = Inr ())"
  by (induction rs arbitrary: bg) (auto simp: background_thread_def keep_error_def split: sum.splits)

text \<open>However many threads fail, the context is down and the error reported is that of the first.\<close>

lemma background_first:
  assumes "\<forall>r \<in> set ok. r = Inr ()"
  shows "fold background_thread (ok @ Inl e # rest) ros_background_new = \<lparr>bg_error = Some e, bg_ok = False\<rparr>"
proof -
  have ok: "fold background_thread ok bg = bg" for bg
    using assms by (induction ok) (auto simp: background_thread_def)
  have "fold keep_error rs (Some e) = Some e" for rs
    by (induction rs) (auto simp: keep_error_def split: sum.splits)
  then show ?thesis
    by (intro ros_background.equality)
      (simp_all add: ok background_fold background_thread_def ros_background_new_def keep_error_def)
qed

lemma contenders_keep: "ros_contenders d cs (Some e) = Some (e', rest) \<Longrightarrow> e' = Some e"
  by (induction cs arbitrary: rest)
    (auto simp: run_contender_def Let_def split: option.splits sum.splits prod.splits)

lemma keep_error_None: "fold keep_error rs None = None \<longleftrightarrow> (\<forall>r \<in> set rs. r = Inr ())"
proof (induction rs)
  case (Cons r rs)
  have "fold keep_error rs (Some e) = Some e" for e
    by (induction rs) (auto simp: keep_error_def split: sum.splits)
  moreover have "keep_error (Inl e) None = Some e" "keep_error (Inr ()) None = None" for e
    by (simp_all add: keep_error_def)
  ultimately show ?case using Cons by (cases r) simp_all
qed simp

section \<open>Properties\<close>

lemma unat_rate:
  assumes "1 \<le> k" and "k \<le> 86400" and "c = 200 \<or> c = 30"
  shows "unat (of_int k * of_nat c :: u64) = nat k * c"
proof -
  have "(of_int k * of_nat c :: u64) = of_nat (nat k * c)" using assms(1) by simp
  moreover have "nat k * c \<le> 86400 * 200" using assms by (intro mult_mono) auto
  then have "nat k * c < 18446744073709551616" by simp
  ultimately show ?thesis by (simp only: unat_of_nat_u64)
qed

lemma expected_synthetic:
  assumes "parse_options args = Inr (Some d)" and "ro_input_mode d = ''synthetic''"
  shows "unat (expected_count d s w) = nat (ro_duration_s d) * (if s = Imu_prop then 200 else 30)"
  using assms parse_options_duration [OF assms(1)] unat_rate [of "ro_duration_s d" 200] unat_rate [of "ro_duration_s d" 30]
  by (simp add: expected_count_def)

lemma window_wait_exit: "window_wait d t rs js = Some (Inl (Exit k)) \<Longrightarrow> k = 1"
  by (induction d t rs js rule: window_wait.induct)
    (auto simp: ros_leave_def ros_catch_def split: if_splits sum.splits)

lemma ros_window_exit: "ros_window d env js = Some (Inl (Exit k)) \<Longrightarrow> k = 1"
  by (auto simp: ros_window_def Let_def ros_leave_def ros_catch_def dest: window_wait_exit
      split: if_splits sum.splits prod.splits)

lemma all_stages: "(\<forall>s. P s) \<longleftrightarrow> P Imu_prop \<and> P Vision_fe \<and> P State_est \<and> P Mapping_be"
  by (metis ros_stage.exhaust)

text \<open>
  C28: what the exit status of the ROS pipeline means. A run on accepted options that returns \<open>c\<close> from
  \<open>main\<close> returns 0, 1 or 2. It returns 0 only if no background thread failed; with synthetic input and
  without \<open>--window-stats\<close> moreover only if every stage completed exactly its 200 or 30 messages a second
  over the whole duration. With external input or with \<open>--window-stats\<close> nothing is required of what was
  completed, and a run without a failure returns 0. It returns 2 only with synthetic input, without
  \<open>--window-stats\<close>, if no background thread failed but some stage fell short.
\<close>

theorem ros_exit_status:
  assumes "ros_main abi pub args s env = Some (Exit c, rep)" and "parse_options args = Inr (Some d)"
    and "drained = (\<forall>st. unat (rs_completed (re_final env st)) =
      nat (ro_duration_s d) * (if st = Imu_prop then 200 else 30))"
    and "judged = (ro_input_mode d = ''synthetic'' \<and> \<not> ro_window_stats d)"
  shows "c \<in> {0, 1, 2} \<and>
    (c = 0 \<longrightarrow> (\<forall>r \<in> set (re_threads env). r = Inr ()) \<and> (judged \<longrightarrow> drained)) \<and>
    (c = 2 \<longrightarrow> (\<forall>r \<in> set (re_threads env). r = Inr ()) \<and> judged \<and> \<not> drained)"
proof -
  have leave: "ros_leave js e = Exit k \<Longrightarrow> k = 1" for js e k
    by (auto simp: ros_leave_def ros_catch_def split: if_splits)
  have return: "ros_return js k' = Exit k \<Longrightarrow> k = k'" for js k k' by (auto simp: ros_return_def split: if_splits)
  have exit: "ros_exit d w (re_final env) = (if judged \<and> \<not> drained then 2 else 0)" for w
  proof (cases "ro_input_mode d = ''synthetic''")
    case True
    have "drained \<longleftrightarrow> (\<forall>st. rs_completed (re_final env st) = expected_count d st w)"
      unfolding assms(3) using expected_synthetic [OF assms(2) True] by (simp add: word_unat_eq_iff)
    with True show ?thesis by (auto simp: ros_exit_def all_stages assms(4))
  qed (simp add: ros_exit_def assms(4))
  from assms(1) consider "c = 1" | start js where "ros_finish d start env js = Some (Exit c, rep)"
    using assms(2)
    by (auto simp: ros_main_def Let_def dest: leave dest!: ros_window_exit
        split: sum.splits option.splits prod.splits)
  then show ?thesis
  proof cases
    case 2
    then show ?thesis
      by (auto simp: ros_finish_def Let_def exit background_fold ros_background_new_def keep_error_None
        assms(4) dest!: leave return split: sum.splits option.splits if_splits)
  qed simp
qed

text \<open>
  C38: the pipeline does not survive a graph that never connects. If for two seconds some publisher has no
  subscriber, \<open>wait_for_graph\<close> throws while the executor threads that were started are running and not
  joined, and the unwinding of \<open>main\<close> destroys joinable \<open>std::thread\<close> objects: the process aborts, and
  the message and exit status 1 that the handler of \<open>main\<close> has for exceptions are not reached. (The
  timeout of the external window joins the threads first and does return 1.)
\<close>

theorem ros_graph_timeout_aborts:
  assumes "parse_options args = Inr (Some d)" and "ros_mode d = Inr mode"
    and "ros_sink abi pub d mode (re_opened env) s = Inr (sink, t)" and "\<forall>st. re_base env st = Inr ()"
    and "re_start env Audit_thread = Inr ()" and "re_graph env = pre @ (late, counts) # rest"
    and "\<forall>(now, cs) \<in> set pre. now < re_graph_start env + 2000000000 \<and> (\<exists>c \<in> set cs. c = 0)"
    and "re_graph_start env + 2000000000 \<le> late"
  shows "ros_main abi pub args s env = Some (Aborted, \<lparr>rp_hogs = [], rp_stages = []\<rparr>)"
proof -
  obtain e where c: "ros_connect d env = Some (Inl e)"
    using graph_timeout [OF assms(7,8), of counts rest] assms(6) by (auto simp: ros_connect_def)
  obtain r js where st: "start_threads (re_start env) executor_threads [] = (r, js)" by fastforce
  then have "js \<noteq> []" by (rule started_some) (simp add: executor_threads_def assms(5))
  then have "ros_leave js e = Aborted" for e by (simp add: ros_leave_def)
  moreover obtain xs where "ros_setup abi d mode t env = Inr xs" using ros_setup_ok [of env abi d mode t] assms(4) by auto
  ultimately show ?thesis using c st by (cases r) (simp_all add: ros_main_def Let_def assms(1-3))
qed

section \<open>Concrete runs\<close>

definition run_stats :: "u64 \<Rightarrow> ros_stats" where
  "run_stats n = ros_stats_zero\<lparr>rs_offered := n, rs_arrivals := n, rs_executed := n, rs_completed := n\<rparr>"

definition run_state :: ros_state where
  "run_state = (\<lambda>st. run_stats (if st = Imu_prop then 600 else 90))"

definition run_answers :: "(u64 \<times> u64 list) list \<Rightarrow> (u64 \<Rightarrow> fresh_task_hint option) ros_env" where
  "run_answers graph =
     \<lparr>re_start = (\<lambda>_. Inr ()), re_opened = Inl (-2), re_base = (\<lambda>_. Inr ()), re_cast = (\<lambda>_. demo_message 1),
      re_observer = (\<lambda>_ _ _. Inr ()), re_graph_start = 1000, re_graph = graph, re_sources_start = 0,
      re_sources = [], re_now = Inr 5000, re_window = [], re_ok = (\<lambda>_. True), re_imu_sent = (\<lambda>_. Inr ()),
      re_camera_sent = (\<lambda>_. Inr ()), re_sleep = [4, 0],
      re_cutoff = run_state, re_cutoff_clock = (\<lambda>_. Inr 0), re_threads = [Inr (), Inr (), Inr (), Inr (), Inr ()],
      re_completions = [], re_final = run_state, re_final_clock = (\<lambda>_. Inr 0)\<rparr>"

definition drained_report :: ros_report where
  "drained_report = \<lparr>rp_hogs = [], rp_stages =
     map (\<lambda>name. (name, \<lparr>sr_unfinished = 0, sr_in_flight = 0, sr_pending = 0\<rparr>))
       [''imu_prop'', ''vision_fe'', ''state_est'', ''mapping_be'']\<rparr>"

lemma parse_none: "parse_options [] = Inr (Some ros_defaults)"
  by (simp add: parse_options_def ros_defaults_def)

abbreviation run_threads :: "ros_thread list" where
  "run_threads \<equiv> rev (contender_threads ros_defaults) @ rev executor_threads"

lemma run_answers_window:
  "ros_window ros_defaults (run_answers graph) run_threads = Some (Inr (100005000, run_threads))"
proof -
  have "join_threads [Imu_generator, Camera_generator]
      (rev [Imu_generator, Camera_generator] @ run_threads) = run_threads"
    unfolding join_own kinds_distinct ..
  then show ?thesis
    by (simp add: ros_window_def Let_def run_answers_def ros_defaults_def publish_periodic_run generators_end_def)
qed

lemma run_answers_parts:
  "ros_connect ros_defaults (run_answers [(2000, [1, 1, 1, 0]), (3000, [1, 1, 1, 1])]) = Some (Inr ())"
  "ros_finish ros_defaults 100005000 (run_answers [(2000, [1, 1, 1, 0]), (3000, [1, 1, 1, 1])]) run_threads =
     Some (Exit 0, drained_report)"
  by code_simp+

lemma run_answers_start: "start_threads (re_start (run_answers graph)) ts js = (Inr (), rev ts @ js)"
  by (induction ts arbitrary: js) (simp_all add: run_answers_def)

lemma run_answers_mode: "ros_mode ros_defaults = Inr ''none''"
  "ros_sink abi pub ros_defaults ''none'' r s = Inr (null_sink, s)"
  by (simp_all add: ros_mode_def effective_hint_mode_def ros_defaults_def ros_sink_def)

lemma run_answers_exit:
  "ros_main demo_abi map_write [] (\<lambda>_. None) (run_answers [(2000, [1, 1, 1, 0]), (3000, [1, 1, 1, 1])]) =
     Some (Exit 0, drained_report)"
proof -
  let ?env = "run_answers [(2000, [1, 1, 1, 0]), (3000, [1, 1, 1, 1])]"
  obtain xs where "ros_setup demo_abi ros_defaults ''none'' (\<lambda>_. None) ?env = Inr xs"
    using ros_setup_ok [of ?env demo_abi ros_defaults "''none''" "\<lambda>_. None"] by (auto simp: run_answers_def)
  then show ?thesis
    by (simp add: ros_main_def Let_def parse_none run_answers_mode run_answers_parts run_answers_window
      run_answers_start)
qed

theorem ros_exit_status_witness:
  "unat (rs_completed (re_final (run_answers [(2000, [1, 1, 1, 0]), (3000, [1, 1, 1, 1])]) Vision_fe)) = 90 \<and>
   re_threads (run_answers [(2000, [1, 1, 1, 0]), (3000, [1, 1, 1, 1])]) \<noteq> []"
proof -
  have d: "ro_input_mode ros_defaults = ''synthetic''" "ro_window_stats ros_defaults = False"
      "ro_duration_s ros_defaults = 3"
    by (simp_all add: ros_defaults_def)
  have "\<forall>st. unat (rs_completed (re_final (run_answers [(2000, [1, 1, 1, 0]), (3000, [1, 1, 1, 1])]) st)) =
      nat 3 * (if st = Imu_prop then 200 else 30)"
    using ros_exit_status [OF run_answers_exit parse_none refl refl] by (simp add: d)
  from spec [OF this, of Vision_fe]
  have "unat (rs_completed (re_final (run_answers [(2000, [1, 1, 1, 0]), (3000, [1, 1, 1, 1])]) Vision_fe)) = 90"
    by simp
  then show ?thesis by (simp add: run_answers_def)
qed

theorem ros_graph_timeout_aborts_witness:
  "ros_main demo_abi map_write [] (\<lambda>_. None) (run_answers [(2000, [1, 1, 1, 0]), (2000001000, [1, 1, 1, 0])]) =
     Some (Aborted, \<lparr>rp_hogs = [], rp_stages = []\<rparr>)"
proof (rule ros_graph_timeout_aborts [OF parse_none, where mode = "''none''" and sink = null_sink
      and t = "\<lambda>_. None" and pre = "[(2000, [1, 1, 1, 0])]" and late = 2000001000 and counts = "[1, 1, 1, 0]" and rest = "[]"])
qed (simp_all add: run_answers_def run_answers_mode)

end
