(* ===== verification/Smoke_Node.thy ===== *)
theory Smoke_Node
  imports Ros_Main Executor_Events
begin

text \<open>
  The smoke node, \<^verbatim>\<open>src/ros2/scx_slam_workload/src/workload_smoke.cpp\<close>: an executor with the null
  sink and the default configuration, one profiled callback group, and one timer in it whose callback
  cancels the executor. The run of \<open>spin()\<close> is the run of \<open>Freshness_Executor\<close> in which every callback
  is the timer's; the state carries the number of calls.
\<close>

section \<open>Set-up\<close>

definition smoke_profile :: "fresh_abi \<Rightarrow> callback_profile" where
  "smoke_profile abi = (default_profile abi)\<lparr>p_stage_id := SLAM_STAGE_VISION_FE,
     p_class_id := FRESH_CLASS_DEADLINE abi, p_relative_deadline_ns := 33000000,
     p_stale_ns := 66000000, p_budget_ns := 12000000\<rparr>"

definition smoke_setup :: "fresh_abi \<Rightarrow> unit res \<Rightarrow> nat \<Rightarrow> 's \<Rightarrow> unit res \<times> 's executor" where
  "smoke_setup abi base grp s =
     add_callback_group_with_profile abi base (Some grp) True (smoke_profile abi) (executor_new s)"

text \<open>The timer in its callback group, as \<open>get_next_executable\<close> returns it.\<close>

definition smoke_timer :: "nat \<Rightarrow> any_executable" where
  "smoke_timer grp = \<lparr>ex_callback_group = Some grp, ex_subscription = None\<rparr>"

text \<open>The callback logs a line and calls \<open>executor.cancel()\<close>.\<close>

definition smoke_callback :: "'s executor \<Rightarrow> 's executor" where
  "smoke_callback x = x\<lparr>x_spinning := False\<rparr>"

section \<open>The run\<close>

definition smoke_spin :: "fresh_abi \<Rightarrow> unit res \<Rightarrow> unit res \<Rightarrow> nat \<Rightarrow> 's \<Rightarrow> unit res \<times> 's executor" where
  "smoke_spin abi base start grp s =
     (case smoke_setup abi base grp s of (Inl e, x) \<Rightarrow> (Inl e, x) | (Inr _, x) \<Rightarrow> spin_begin start x)"

definition smoke_entry :: "fresh_abi \<Rightarrow> nat \<Rightarrow> 's \<Rightarrow> 's executor \<times> nat \<Rightarrow> bool" where
  "smoke_entry abi grp s p \<longleftrightarrow> smoke_spin abi (Inr ()) (Inr ()) grp s = (Inr (), fst p) \<and> snd p = 0"

text \<open>
  \<open>interrupted\<close>: somebody else shuts the context down, so that \<open>rclcpp::ok()\<close> may answer false. The
  worker's step in \<open>W_run\<close> contains the call of the callback, hence \<open>cancel()\<close>.
\<close>

inductive smoke_step ::
  "fresh_abi \<Rightarrow> (nat option \<Rightarrow> nat set \<Rightarrow> nat set) \<Rightarrow> nat \<Rightarrow> bool \<Rightarrow>
   's executor \<times> nat \<Rightarrow> 's executor \<times> nat \<Rightarrow> bool"
  for abi :: fresh_abi and dtor :: "nat option \<Rightarrow> nat set \<Rightarrow> nat set" and grp :: nat
    and interrupted :: bool where
  dispatch: "dispatcher_step abi null_sink denv x = Some y \<Longrightarrow> de_ok denv \<or> interrupted \<Longrightarrow>
     (case de_next denv of Next e mark \<Rightarrow> e = smoke_timer grp | _ \<Rightarrow> True) \<Longrightarrow>
     smoke_step abi dtor grp interrupted (x, n) (y, n)"
| callback: "x_worker x = W_run w \<Longrightarrow>
     worker_step null_sink default_worker_config dtor wenv (smoke_callback x) = Some y \<Longrightarrow>
     smoke_step abi dtor grp interrupted (x, n) (y, Suc n)"
| work: "\<forall>w. x_worker x \<noteq> W_run w \<Longrightarrow>
     worker_step null_sink default_worker_config dtor wenv x = Some y \<Longrightarrow>
     smoke_step abi dtor grp interrupted (x, n) (y, n)"
| wake_dispatcher: "smoke_step abi dtor grp interrupted (x, n) (x\<lparr>x_dsleep := False\<rparr>, n)"
| wake_worker: "smoke_step abi dtor grp interrupted (x, n) (x\<lparr>x_wsleep := False\<rparr>, n)"

text \<open>
  What \<open>main\<close> does when \<open>spin()\<close> has ended: it logs the identity of the worker and returns 0. It has no
  handler, so an exception ends the process.
\<close>

definition smoke_main :: "'s executor \<Rightarrow> (ros_outcome \<times> u64 option) option" where
  "smoke_main x =
     (case x_dispatcher x of
        D_done (Inr _) \<Rightarrow> Some (Exit 0, Some (worker_pid_tgid x))
      | D_done (Inl e) \<Rightarrow> Some (Aborted, None)
      | _ \<Rightarrow> None)"

section \<open>Lemmas\<close>

text \<open>
  The smoke node: its group is accepted, and the first callback of the group is handed on with a hint
  that carries the profile, released now and due 33 ms later.
\<close>

lemma smoke_setup_ok:
  obtains x where "smoke_setup abi (Inr ()) grp s = (Inr (), x)"
    and "\<And>now env. de_now_hint env = Inr now \<Longrightarrow> now < 1000000000000000000 \<Longrightarrow>
      \<exists>w. fst (prepare abi env \<lparr>ex_callback_group = Some grp, ex_subscription = None\<rparr> x) = P_publish w \<and>
        h_class_id (w_hint w) = FRESH_CLASS_DEADLINE abi \<and> h_release_ts_ns (w_hint w) = now \<and>
        h_deadline_ts_ns (w_hint w) = now + 33000000"
proof -
  define x where "x = (executor_new s)\<lparr>x_profiles := [grp \<mapsto>
     \<lparr>pb_profile = smoke_profile abi, pb_metadata_extractor = None, pb_observer = None\<rparr>]\<rparr>"
  have "smoke_setup abi (Inr ()) grp s = (Inr (), x)"
    by (simp add: smoke_setup_def add_callback_group_with_profile_def smoke_profile_def x_def)
  moreover have "\<exists>w. fst (prepare abi env \<lparr>ex_callback_group = Some grp, ex_subscription = None\<rparr> x) = P_publish w \<and>
        h_class_id (w_hint w) = FRESH_CLASS_DEADLINE abi \<and> h_release_ts_ns (w_hint w) = now \<and>
        h_deadline_ts_ns (w_hint w) = now + 33000000"
    if "de_now_hint env = Inr now" "now < 1000000000000000000" for now env
  proof -
    have "\<not> (- 1 :: u64) - now < 33000000" using that(2) max_u64_minus [of now] by (simp add: word_less_nat_alt)
    then show ?thesis using that(1)
      by (simp add: prepare_def Let_def binding_for_def x_def make_hint_def smoke_profile_def add_saturating_def)
  qed
  ultimately show ?thesis by (rule that)
qed

text \<open>The dispatcher is past its loop, or about to leave it.\<close>

definition leaving :: "'s executor \<Rightarrow> bool" where
  "leaving x \<longleftrightarrow> \<not> x_spinning x \<or>
     (case x_dispatcher x of
        D_stop err \<Rightarrow> True | D_shutdown err \<Rightarrow> True | D_notify_stop err \<Rightarrow> True | D_join err \<Rightarrow> True
      | D_done r \<Rightarrow> True | _ \<Rightarrow> False)"

text \<open>Before the callback only a failure ends the loop; after it nothing is selected any more.\<close>

definition smoke_inv :: "bool \<Rightarrow> 's executor \<times> nat \<Rightarrow> bool" where
  "smoke_inv interrupted p \<longleftrightarrow>
     (snd p = 0 \<longrightarrow> \<not> interrupted \<longrightarrow> leaving (fst p) \<longrightarrow> failing (fst p)) \<and>
     (snd p \<noteq> 0 \<longrightarrow> snd p = 1 \<and> \<not> x_spinning (fst p) \<and> in_progress (fst p) = None \<and>
        x_dispatcher (fst p) \<noteq> D_select)"

lemma smoke_dispatch_before:
  assumes inv: "control_inv x" "resource_inv x" and st: "dispatcher_step abi sink env x = Some y"
    and "de_ok env" and "leaving x \<longrightarrow> failing x"
  shows "leaving y \<longrightarrow> failing y"
proof (cases "leaving x")
  case True
  then show ?thesis using dispatcher_failing [OF inv st] assms(5) by blast
next
  case False
  show ?thesis
  proof (cases "x_dispatcher x = D_test")
    case True
    then show ?thesis
      using st assms(4) False by (auto simp: dispatcher_step_def leaving_def split: if_splits)
  next
    case other: False
    show ?thesis
      using inv st
      by (cases rule: dispatcher_cases; insert False other;
        simp add: leaving_def failing_def notify_all_def)
  qed
qed

lemma smoke_dispatch_after:
  assumes inv: "control_inv x" "resource_inv x" and st: "dispatcher_step abi sink env x = Some y"
    and "\<not> x_spinning x" and "in_progress x = None" and "x_dispatcher x \<noteq> D_select"
  shows "\<not> x_spinning y \<and> in_progress y = None \<and> x_dispatcher y \<noteq> D_select"
proof -
  have "x_dispatcher y \<noteq> D_select"
    using inv st by (cases rule: dispatcher_cases; insert assms(4,6); simp add: notify_all_def)
  with dispatcher_keeps [OF inv st assms(6)] dispatcher_rank_decreases(2) [OF inv st assms(4)] assms(5)
  show ?thesis by auto
qed

lemma running_facts:
  assumes "control_inv x" and "x_worker x = W_run w"
  shows "x_pending x = None" and "x_dispatcher x \<noteq> D_publish v" and "x_dispatcher x \<noteq> D_handoff v"
    and "x_dispatcher x \<noteq> D_select"
  using assms by (auto simp: control_inv_def worker_inv_def dispatcher_inv_def parked_def)

lemma in_progress_parked:
  assumes "x_pending x = None" and "\<forall>w. x_worker x \<noteq> W_run w"
    and "\<forall>w. x_dispatcher x \<noteq> D_publish w \<and> x_dispatcher x \<noteq> D_handoff w"
  shows "in_progress x = None"
  using assms by (auto simp: in_progress_def split: worker_pc.split dispatcher_pc.split)

lemma smoke_worker_after:
  assumes inv: "control_inv x" "resource_inv x" "releases_group dtor"
    and st: "worker_step sink config dtor env x = Some y" and "\<not> x_spinning x"
    and "x_worker x = W_run w \<or> in_progress x = None \<and> x_dispatcher x \<noteq> D_select"
  shows "\<not> x_spinning y \<and> in_progress y = None \<and> x_dispatcher y \<noteq> D_select"
proof (cases "\<exists>w. x_worker x = W_run w")
  case True
  then obtain w where w: "x_worker x = W_run w" by blast
  note f = running_facts [OF inv(1) w]
  have "x_pending y = None" "\<forall>v. x_worker y \<noteq> W_run v" "x_dispatcher y = x_dispatcher x"
      "x_spinning y = x_spinning x"
    using inv st by (cases rule: worker_cases; insert w f(1); simp)+
  with f in_progress_parked [of y] assms(5) show ?thesis by simp
next
  case False
  with assms(6) have n: "in_progress x = None" "x_dispatcher x \<noteq> D_select" by blast+
  have "in_progress y = None" "x_dispatcher y = x_dispatcher x"
    using inv st n(1) by (cases rule: worker_cases; insert False;
      simp add: in_progress_def notify_all_def split: option.splits cong: option.case_cong)+
  with n worker_rank_decreases(2) [OF inv st assms(5)] show ?thesis by simp
qed

lemma smoke_worker_before:
  assumes inv: "control_inv x" "resource_inv x" "releases_group dtor"
    and st: "worker_step sink config dtor env x = Some y" and "leaving x \<longrightarrow> failing x"
  shows "leaving y \<longrightarrow> failing y"
proof (cases "leaving x")
  case True
  then show ?thesis using worker_failing [OF inv st] assms(5) by blast
next
  case False
  have e: "x_worker x = W_cancel \<Longrightarrow> x_worker_error x \<noteq> None"
    using inv(1) by (simp add: control_inv_def worker_inv_def)
  show ?thesis
    using inv st
    by (cases rule: worker_cases; insert False e; simp add: leaving_def failing_def notify_all_def)
qed

section \<open>Invariant of the run\<close>

text \<open>Every step is one of the executor; a callback is a call of \<open>cancel()\<close> followed by one.\<close>

lemma smoke_exec:
  assumes "smoke_step abi dtor grp interrupted p q"
  shows "\<exists>z. (z = fst p \<or> exec_step abi null_sink default_worker_config dtor (fst p) z) \<and>
             exec_step abi null_sink default_worker_config dtor z (fst q)"
  using assms
proof cases
  case (dispatch denv x y n)
  then show ?thesis by (auto intro: exec_step.thread thread_step.dispatch [where denv = denv])
next
  case (callback x w wenv y n)
  have "exec_step abi null_sink default_worker_config dtor x (smoke_callback x)"
    unfolding smoke_callback_def by (rule exec_step.cancel)
  moreover have "exec_step abi null_sink default_worker_config dtor (smoke_callback x) y"
    using callback by (auto intro: exec_step.thread thread_step.work [where wenv = wenv])
  ultimately show ?thesis using callback by auto
next
  case (work x wenv y n)
  then show ?thesis by (auto intro: exec_step.thread thread_step.work [where wenv = wenv])
qed (auto intro: exec_step.intros)

definition smoke_exec_inv :: "'s \<Rightarrow> 's executor \<Rightarrow> bool" where
  "smoke_exec_inv s x = exec_inv (\<lambda>_ _. None) (\<lambda>_. None) None s x"

lemmas smoke_executor = executor_runI [OF null_hints.hint_sink_axioms]

lemma smoke_exec_inv_facts:
  assumes "smoke_exec_inv s x"
  shows "control_inv x" and "resource_inv x" and "result_inv x"
  using assms by (simp_all add: smoke_exec_inv_def exec_inv_def)

lemma exec_smoke_step:
  assumes "releases_group dtor" and "smoke_exec_inv s x"
    and "exec_step abi null_sink default_worker_config dtor x y"
  shows "smoke_exec_inv s y"
  using executor_run.exec_inv_step [OF smoke_executor [OF assms(1)] _ assms(3)] assms(2)
  unfolding smoke_exec_inv_def .

lemma smoke_exec_inv_step:
  assumes "releases_group dtor" and "smoke_exec_inv s (fst p)"
    and "smoke_step abi dtor grp interrupted p q"
  shows "smoke_exec_inv s (fst q)"
proof -
  from smoke_exec [OF assms(3)] obtain z where
    "z = fst p \<or> exec_step abi null_sink default_worker_config dtor (fst p) z"
    and q: "exec_step abi null_sink default_worker_config dtor z (fst q)" by (elim exE conjE)
  then have "smoke_exec_inv s z" using exec_smoke_step [OF assms(1,2)] assms(2) by auto
  from exec_smoke_step [OF assms(1) this q] show ?thesis .
qed

lemma frames_smoke:
  "in_progress (x\<lparr>x_spinning := b\<rparr>) = in_progress x"
  "in_progress (x\<lparr>x_dsleep := b\<rparr>) = in_progress x" "in_progress (x\<lparr>x_wsleep := b\<rparr>) = in_progress x"
  "failing (x\<lparr>x_dsleep := b\<rparr>) = failing x" "failing (x\<lparr>x_wsleep := b\<rparr>) = failing x"
  by (simp_all add: in_progress_def failing_def
    cong: worker_pc.case_cong dispatcher_pc.case_cong option.case_cong)

lemma smoke_inv_step:
  assumes dt: "releases_group dtor" and inv: "smoke_exec_inv s (fst p)"
    and si: "smoke_inv interrupted p" and st: "smoke_step abi dtor grp interrupted p q"
  shows "smoke_inv interrupted q"
  using st
proof cases
  case (dispatch denv x y n)
  have i: "control_inv x" "resource_inv x" using smoke_exec_inv_facts [OF inv] dispatch by simp_all
  show ?thesis
    using smoke_dispatch_before [OF i dispatch(3)] smoke_dispatch_after [OF i dispatch(3)] si dispatch
    by (auto simp: smoke_inv_def)
next
  case (callback x w wenv y n)
  have i: "control_inv x" using smoke_exec_inv_facts [OF inv] callback by simp
  have j: "control_inv (smoke_callback x)" "resource_inv (smoke_callback x)"
    using exec_smoke_step [OF dt inv exec_step.cancel] callback
    by (auto simp: smoke_callback_def dest: smoke_exec_inv_facts)
  have "n = 0"
    using si callback running_facts [OF i callback(3)]
    by (cases "n = 0") (auto simp: smoke_inv_def in_progress_def)
  with smoke_worker_after [OF j dt callback(4)] callback show ?thesis
    by (auto simp: smoke_inv_def smoke_callback_def)
next
  case (work x wenv y n)
  have i: "control_inv x" "resource_inv x" using smoke_exec_inv_facts [OF inv] work by simp_all
  show ?thesis
    using smoke_worker_before [OF i dt work(4)] smoke_worker_after [OF i dt work(4)] si work
    by (auto simp: smoke_inv_def)
qed (use si in \<open>auto simp: smoke_inv_def frames_smoke leaving_def\<close>)

lemma smoke_entry_inv:
  assumes "smoke_entry abi grp s p"
  shows "smoke_exec_inv s (fst p) \<and> smoke_inv interrupted p"
proof -
  obtain x where x: "smoke_setup abi (Inr ()) grp s = (Inr (), x)" by (rule smoke_setup_ok)
  then have f: "x_sink x = s" "x_taken x = {}" "x_messages x = []"
    by (auto simp: smoke_setup_def add_callback_group_with_profile_def executor_new_def split: if_splits)
  from assms x have sp: "spin_begin (Inr ()) x = (Inr (), fst p)" and n: "snd p = 0"
    by (simp_all add: smoke_entry_def smoke_spin_def)
  then have "spin_entry s (fst p)" using f by (auto simp: spin_entry_def)
  moreover have "\<not> leaving (fst p)" using sp
    by (cases p) (auto simp: spin_begin_def Let_def leaving_def split: if_splits)
  ultimately show ?thesis using n by (simp add: exec_inv_entry smoke_inv_def smoke_exec_inv_def)
qed

lemma smoke_reach_inv:
  assumes "releases_group dtor"
    and "reach (smoke_entry abi grp s) (smoke_step abi dtor grp interrupted) p"
  shows "smoke_exec_inv s (fst p) \<and> smoke_inv interrupted p"
  using assms(2)
proof (induction rule: reach.induct)
  case (reach_init p)
  then show ?case by (rule smoke_entry_inv)
next
  case (reach_step p q)
  from reach_step.IH have e: "smoke_exec_inv s (fst p)" and i: "smoke_inv interrupted p" by simp_all
  show ?case
    using smoke_exec_inv_step [OF assms(1) e reach_step.hyps(2)]
      smoke_inv_step [OF assms(1) e i reach_step.hyps(2)] by (rule conjI)
qed

section \<open>Property\<close>

text \<open>
  C37: The smoke node runs the callback of its timer at most once, however its two threads interleave:
  from the call of \<open>cancel()\<close> in it nothing is selected any more and \<open>spin()\<close> returns. If nobody else
  shuts the context down, status 0 means that it ran exactly once, and that no system call of the worker and no
  callback failed; otherwise the process is aborted.
\<close>

theorem smoke_runs_once:
  assumes "releases_group dtor"
    and "reach (smoke_entry abi grp s) (smoke_step abi dtor grp interrupted) (x, n)"
  shows "n \<le> 1 \<and>
    (n = 1 \<longrightarrow> \<not> x_spinning x \<and> in_progress x = None \<and>
       (\<exists>y r. (thread_step abi null_sink default_worker_config dtor)\<^sup>*\<^sup>* x y \<and> smoke_main y = Some r)) \<and>
    (\<forall>i. smoke_main x = Some (Exit 0, i) \<longrightarrow> x_worker_error x = None \<and> (interrupted \<or> n = 1))"
proof -
  note run = smoke_executor [OF assms(1)]
  have inv: "smoke_exec_inv s x" and si: "smoke_inv interrupted (x, n)"
    using smoke_reach_inv [OF assms] by simp_all
  have ret: "\<exists>y r. (thread_step abi null_sink default_worker_config dtor)\<^sup>*\<^sup>* x y \<and> smoke_main y = Some r"
    if ns: "\<not> x_spinning x"
  proof -
    obtain y r where y: "(thread_step abi null_sink default_worker_config dtor)\<^sup>*\<^sup>* x y"
      "x_dispatcher y = D_done r" using executor_run.returns [OF run _ ns] inv unfolding smoke_exec_inv_def by blast
    then show ?thesis by (cases r) (auto simp: smoke_main_def)
  qed
  have fin: "x_worker_error x = None \<and> (interrupted \<or> n = 1)" if m: "smoke_main x = Some (Exit 0, i)" for i
  proof -
    have d: "x_dispatcher x = D_done (Inr ())"
      using m by (auto simp: smoke_main_def split: dispatcher_pc.splits sum.splits)
    then have w: "x_worker x = W_done" and e: "x_worker_error x = None"
      using smoke_exec_inv_facts [OF inv] by (simp_all add: control_inv_def dispatcher_inv_def result_inv_def)
    have "leaving x" "\<not> failing x" using d w e by (simp_all add: leaving_def failing_def)
    with si e show ?thesis by (cases "n = 0") (simp_all add: smoke_inv_def)
  qed
  have "n \<le> 1" "n = 1 \<longrightarrow> \<not> x_spinning x \<and> in_progress x = None"
    using si by (cases "n = 0"; simp add: smoke_inv_def)+
  with ret fin show ?thesis by blast
qed

text \<open>A whole run: the worker starts, the timer fires, its callback cancels, \<open>spin()\<close> returns.\<close>

definition in_callback :: "'s executor \<Rightarrow> bool" where
  "in_callback x = (case x_worker x of W_run w \<Rightarrow> True | _ \<Rightarrow> False)"

fun smoke_schedule :: "bool list \<Rightarrow> unit executor \<times> nat \<Rightarrow> (unit executor \<times> nat) option" where
  "smoke_schedule [] p = Some p"
| "smoke_schedule (True # bs) p =
     (case dispatcher_step example_abi null_sink
             (example_dispatcher\<lparr>de_next := Next (smoke_timer 1) True\<rparr>) (fst p) of
        None \<Rightarrow> None | Some y \<Rightarrow> smoke_schedule bs (y, snd p))"
| "smoke_schedule (False # bs) p =
     (case worker_step null_sink default_worker_config example_dtor example_worker
             (if in_callback (fst p) then smoke_callback (fst p) else fst p) of
        None \<Rightarrow> None
      | Some y \<Rightarrow> smoke_schedule bs (y, if in_callback (fst p) then Suc (snd p) else snd p))"

abbreviation example_smoke :: "unit executor \<times> nat \<Rightarrow> bool" where
  "example_smoke \<equiv>
     reach (smoke_entry example_abi 1 ()) (smoke_step example_abi example_dtor 1 False)"

lemma smoke_schedule_reach:
  "example_smoke p \<Longrightarrow> smoke_schedule bs p = Some q \<Longrightarrow> example_smoke q"
proof (induction bs p rule: smoke_schedule.induct)
  case (2 bs p)
  from 2(3) obtain y where y: "dispatcher_step example_abi null_sink
      (example_dispatcher\<lparr>de_next := Next (smoke_timer 1) True\<rparr>) (fst p) = Some y"
    by (auto split: option.splits)
  from smoke_step.dispatch [OF y, of False 1 example_dtor "snd p"]
  have "smoke_step example_abi example_dtor 1 False p (y, snd p)" by (simp add: example_dispatcher_def)
  from 2(1) [OF y reach_step [OF 2(2) this]] 2(3) y show ?case by simp
next
  case (3 bs p)
  from 3(3) obtain y where y: "worker_step null_sink default_worker_config example_dtor example_worker
      (if in_callback (fst p) then smoke_callback (fst p) else fst p) = Some y"
    by (auto split: option.splits)
  obtain x n where p: "p = (x, n)" by fastforce
  have "smoke_step example_abi example_dtor 1 False p
      (y, if in_callback (fst p) then Suc (snd p) else snd p)"
  proof (cases "in_callback x")
    case True
    then obtain w where w: "x_worker x = W_run w"
      by (auto simp: in_callback_def split: worker_pc.splits)
    show ?thesis using smoke_step.callback [OF w] True y by (simp add: p)
  next
    case False
    then have "\<forall>w. x_worker x \<noteq> W_run w" by (auto simp: in_callback_def)
    then show ?thesis using smoke_step.work False y by (simp add: p)
  qed
  from 3(1) [OF y reach_step [OF 3(2) this]] 3(3) y show ?case by simp
qed simp

definition smoke_returned :: "unit executor" where
  "smoke_returned = (snd (smoke_setup example_abi (Inr ()) 1 ()))\<lparr>x_worker_ready := True,
     x_worker_idle := True, x_stop := True, x_worker_id := 42, x_next_job_id := 2\<rparr>"

lemma smoke_returned_reach: "example_smoke (smoke_returned, 1)"
proof (rule smoke_schedule_reach)
  show "example_smoke (snd (smoke_spin example_abi (Inr ()) (Inr ()) 1 ()), 0)"
    by (rule reach_init) (simp add: smoke_entry_def smoke_spin_def smoke_setup_def smoke_profile_def
      add_callback_group_with_profile_def spin_begin_def Let_def)
  show "smoke_schedule (to_running @ [False, False, False, True, True, True, True, False, True])
      (snd (smoke_spin example_abi (Inr ()) (Inr ()) 1 ()), 0) = Some (smoke_returned, 1)"
    by (simp add: smoke_spin_def smoke_setup_def smoke_profile_def smoke_timer_def smoke_callback_def
      smoke_returned_def add_callback_group_with_profile_def default_profile_def executor_new_def
      default_worker_config_def in_callback_def null_sink_def run_work_def give_up_eq
      clear_completed_hint_def example_defs exec_eval)
qed

theorem smoke_runs_once_witness:
  "smoke_main smoke_returned = Some (Exit 0, Some 42) \<and> x_worker_error smoke_returned = None"
proof -
  have "smoke_main smoke_returned = Some (Exit 0, Some 42)"
    by (simp add: smoke_main_def smoke_returned_def smoke_setup_def smoke_profile_def
      add_callback_group_with_profile_def executor_new_def worker_pid_tgid_def)
  with smoke_runs_once [OF example_releases smoke_returned_reach] show ?thesis by blast
qed

end
