(* ===== verification/Spec2Isabelle.thy ===== *)
theory Spec2Isabelle
  imports Dependent_Graph Freshness_Executor Worker Window_Metrics Pipeline_Stages Demo_Generators
    Command_Line Bag_Main Edf_Main Workload_Unwind Demo_Main Ros_Executors Smoke_Node Clocks
begin

text \<open>
  Verification of the workloads and of the executor in \<^verbatim>\<open>src/demo\<close>, \<^verbatim>\<open>src/ros2/scx_slam_executor\<close> and
  \<^verbatim>\<open>src/ros2/scx_slam_workload\<close>: programs that drive a scheduler through hints. Every thread that
  does sensor or estimation work has a slot in a shared map; whoever hands a job to the thread writes
  the hint of that job (class, release, deadline, budget) into the slot first, so that the scheduler
  sees it when the thread wakes up. The parts, and the theories that model them:

  \<^item> The hints (\<open>Hints\<close>): \<open>make_hint\<close>, \<open>add_saturating\<close>, expiry, the null, pinned-map and ablation
    sinks of \<^verbatim>\<open>freshness_executor.cpp\<close> and \<^verbatim>\<open>hint_ablation.hpp\<close>. The locale \<open>hint_sink\<close> is the contract the
    executor relies on, interpreted on the sinks. Deadlines are exact sums clamped at the largest time;
    expiry agrees with unbounded arithmetic.
  \<^item> The freshness executor (\<open>Freshness_Executor\<close>): registry, preparation of a selected callback, and
    \<open>spin()\<close> as two interleaved threads, \<open>dispatcher_step\<close> and \<open>worker_step\<close>, one step for each
    critical section, sleep or call. A callback runs only with its own hint in the slot; groups and
    messages are given back on every path; no deadlock and no lost wake-up; after \<open>cancel()\<close> every
    schedule returns. \<open>Executor_Events\<close> extends a run by the log of the calls of observers and message
    callbacks: every selected message is settled once, before the next one is selected. \<open>Ros_Main\<close> has
    the constructor and the typed registration.
  \<^item> The dependent graph (\<open>Dependent_Graph\<close>, \<^verbatim>\<open>dependent_graph.h\<close>): offering, selection, completion and
    control of measurements in two bounded inboxes. Conservation of every measurement, selection as the
    longest admissible prefix of the merge by source time, first in first out, exception safety.
  \<^item> The dependent workload (\<^verbatim>\<open>dependent_workload.cpp\<close>): a worker with its thread (\<open>Worker\<close>), the main
    loop over graph and workers (\<open>Dependent_Workload\<close>), its invariant (\<open>Workload_Invariant\<close>), what a run
    can end with (\<open>Workload_Results\<close>), what it opens and reports (\<open>Workload_Report\<close>), and how its workers
    are destroyed when \<open>main\<close> leaves their scope (\<open>Workload_Unwind\<close>). Jobs are done and collected once, in
    order; the loop fails only for outside reasons; the report accounts for every release of every sensor
    and of the control; the destruction ends after at most nine steps for each worker, and one for each
    spurious wake-up, with every thread joined.
  \<^item> The demo pipeline (\<^verbatim>\<open>slam_pipeline_demo.cpp\<close>, \<^verbatim>\<open>window_metrics.h\<close>): measurement windows
    (\<open>Window_Metrics\<close>), the queue between two stages (\<open>Blocking_Queue\<close>), a stage thread with its measured
    work (\<open>Pipeline_Stages\<close>), generators and IMU thread (\<open>Periodic\<close>, \<open>Demo_Generators\<close>), the five stages
    with their queues, generators and shutdown as one interleaved system (\<open>Demo_Pipeline\<close>), report and
    hog threads (\<open>Demo_Report\<close>), and \<open>main\<close> from the command line to all printed values (\<open>Demo_Main\<close>).
    Hints are in place when a consumer runs; nothing is lost, duplicated or reordered; every printed
    column is accounted for and the numbers generated are exact; the shutdown ends.
  \<^item> The ROS pipeline (\<^verbatim>\<open>slam_pipeline.cpp\<close>, \<^verbatim>\<open>hog_metrics.hpp\<close>): profiles, accounting, audit, observers,
    sources and contenders (\<open>Ros_Pipeline\<close>), \<open>main\<close> from the options to the exit status, with its
    background threads (\<open>Ros_Main\<close>), and the four executors together with the statistics their observers
    and callbacks keep (\<open>Ros_Executors\<close>). However executors, audit and callbacks interleave, every
    measured message is accounted for in every stage, as completed, dropped, dropped upstream or never
    delivered; the exit status means what it says.
  \<^item> The smoke node (\<open>Smoke_Node\<close>, \<^verbatim>\<open>workload_smoke.cpp\<close>): the executor with one timer whose callback
    cancels it. The callback runs once, \<open>spin()\<close> returns, and status 0 means that nothing failed.
  \<^item> The bag adapter (\<^verbatim>\<open>bag_adapter.hpp\<close>, \<^verbatim>\<open>bag_adapter.cpp\<close>): index, jobs, delivery (\<open>Bag_Adapter\<close>),
    construction, summary and \<open>main\<close> (\<open>Bag_Main\<close>). The index written by the script in
    \<^verbatim>\<open>src/scripts\<close> is read back exactly; received messages are published or dropped.
  \<^item> The EDF workload (\<^verbatim>\<open>edf_workload.c\<close>): the two periodic workers (\<open>Edf_Workload\<close>) and \<open>main\<close> with its
    table (\<open>Edf_Main\<close>).
  \<^item> The command lines of the four programs (\<open>Command_Line\<close>) over models of the number parsers of C and
    C++ (\<open>Number_Parsing\<close>); accepted options are in range and, where a check limits them, exact in
    nanoseconds.
  \<^item> Clocks and absolute sleeps (\<open>Clocks\<close>).

  \<open>Prelude\<close> has the types and the lemmas on words and lists that the components share, and the locale of
  an invariant of a step relation (\<open>reach\<close>), interpreted for each of the interleaved systems.

  How the programs are rendered. Machine integers are words of their width, so counters and times wrap as
  in the code; a theorem without wrap-around says under which bound. A lock makes its critical section
  one step, a condition variable is a flag that says whether the thread sleeps: only a notification or a
  spurious wake-up, a step of its own, ends the sleep. Threads interleave between steps. Exceptions and error returns are the left side of a sum. Clock readings, return codes of
  system calls and the answers of \<open>rclcpp\<close> are inputs of the step that asks for them; a loop that polls a
  clock recurses over its readings and is \<open>None\<close> if they end first, and the theorems that it returns say
  which readings are enough. The loops over a duration take fuel; one more than the number of periods
  is enough and the theorems give the result for it. The release loops of the dependent workload are
  partial functions, shown to return.

  Parameters: the functions of \<open>freshqos\<close> that write the map and the constants of its shared header, which
  are not in the repository (\<open>pub\<close>, \<open>abi\<close>; the hypothesis \<open>freshqos_writes\<close> is that a write that
  reports success stores the hint in its slot, and holds for \<open>map_write\<close>); the work functions of the two
  LiDAR stages, which the code computes in floating point (\<open>lpre\<close>, \<open>lreg\<close>); callbacks, observers and
  extractors of a client of the executor.

  Not modelled: formatting and printing of the reported numbers and the percentages in floating point
  (\<open>pct\<close>, \<open>lidar_reg_work_us\<close>, \<open>lidar_reg_k_for_mode\<close>); construction of nodes, topics and quality of
  service, which are calls of \<open>rclcpp\<close>; of its delivery the theorem on the four executors assumes only
  that a subscription takes a message at most once; the order of destructors during
  unwinding except where it decides the outcome (the workers of the dependent workload, the threads of the ROS
  pipeline); experiment scripts and tests. The decision whether a
  message is measured is one predicate for the whole run: for an external source it is one, and the
  synthetic sources start after the window is set.

  Behaviour found to differ from the intention: \<open>cancel()\<close> lets a second \<open>spin()\<close> in while the first is
  still shutting down; a worker thread that cannot be started leaves the executor refusing every later
  \<open>spin()\<close>; an index with a last stamp that overflows is accepted without it; two options accept numbers
  that the checks beside them refuse; a graph that does not connect aborts the ROS pipeline instead of
  ending it with status 1; when the clock fails during a dispatch the destructor of a worker may
  retire the hint of a job that is running.
\<close>

end
